(* ===== verification/Prelude.thy ===== *)
theory Prelude
  imports Main "HOL-Library.Word" "HOL-Library.Multiset"
begin

text \<open>
  Shared vocabulary of the development.

  \<^item> Machine types: \<open>u64\<close> and \<open>u32\<close> are the C++ types \<open>uint64_t\<close> (also \<open>size_t\<close> and
    \<open>uintptr_t\<close>) and \<open>uint32_t\<close>; \<open>i32\<close> is \<open>int32_t\<close>.
  \<^item> Concurrent components are labelled transition systems whose step function is executable:
    an event names the thread that moves and every choice the environment makes, and the
    function returns the next state, or \<open>None\<close> where the event is not enabled.
    \<open>exec\<close> runs a sequence of events and \<open>reachable\<close> is the inductive set of states
    such runs produce.
  \<^item> The locale \<open>transition_invariant\<close> carries the proof principle every concurrent component
    uses; each component interprets it on its own step function. \<open>forward_simulation\<close> extends it
    to the implementation of an abstract system.
\<close>

named_theorems model_defs \<open>unfoldings of the small operations of the model\<close>

type_synonym u64 = "64 word"
type_synonym u32 = "32 word"
type_synonym i32 = "32 word"

text \<open>A pointer to an object of identity \<open>'a\<close>; \<open>None\<close> is \<open>nullptr\<close>.\<close>

type_synonym 'a ptr = "'a option"

abbreviation (input) nullptr :: "'a ptr" where
  "nullptr \<equiv> None"

section \<open>Executable transition systems\<close>

primrec exec :: "('e \<Rightarrow> 's \<Rightarrow> 's option) \<Rightarrow> 's \<Rightarrow> 'e list \<Rightarrow> 's option" where
  "exec step s [] = Some s"
| "exec step s (e # es) = (case step e s of None \<Rightarrow> None | Some t \<Rightarrow> exec step t es)"

inductive reachable :: "('e \<Rightarrow> 's \<Rightarrow> 's option) \<Rightarrow> 's \<Rightarrow> 's \<Rightarrow> bool"
  for step :: "'e \<Rightarrow> 's \<Rightarrow> 's option" and s0 :: 's where
  reach_init: "reachable step s0 s0"
| reach_step: "reachable step s0 s \<Longrightarrow> step e s = Some t \<Longrightarrow> reachable step s0 t"

lemma reachable_exec:
  "reachable step s0 s \<Longrightarrow> exec step s es = Some t \<Longrightarrow> reachable step s0 t"
  by (induction es arbitrary: s) (auto split: option.splits intro: reach_step)

lemma exec_reachable: "exec step s0 es = Some t \<Longrightarrow> reachable step s0 t"
  by (rule reachable_exec [OF reach_init])

lemma exec_reachable_ex: "\<exists>t. exec step s0 es = Some t \<and> P t \<Longrightarrow> \<exists>t. reachable step s0 t \<and> P t"
  using exec_reachable by fast

lemma exec_append:
  "exec step s (es @ fs) = (case exec step s es of None \<Rightarrow> None | Some t \<Rightarrow> exec step t fs)"
  by (induction es arbitrary: s) (auto split: option.splits)

lemma reachable_has_run: "reachable step s0 t \<Longrightarrow> \<exists>es. exec step s0 es = Some t"
proof (induction rule: reachable.induct)
  case reach_init
  have "exec step s0 [] = Some s0" by simp
  then show ?case ..
next
  case (reach_step s e t)
  then obtain es where "exec step s0 es = Some s" by blast
  with reach_step.hyps have "exec step s0 (es @ [e]) = Some t"
    by (simp add: exec_append)
  then show ?case ..
qed

locale transition_invariant =
  fixes step :: "'e \<Rightarrow> 's \<Rightarrow> 's option"
    and s0 :: 's
    and inv :: "'s \<Rightarrow> bool"
  assumes inv_init: "inv s0"
    and inv_step: "inv s \<Longrightarrow> step e s = Some t \<Longrightarrow> inv t"
begin

lemma reachable_inv: "reachable step s0 s \<Longrightarrow> inv s"
  by (induction rule: reachable.induct) (auto intro: inv_init inv_step)

lemma exec_inv: "inv s \<Longrightarrow> exec step s es = Some t \<Longrightarrow> inv t"
  by (induction es arbitrary: s) (auto split: option.splits dest: inv_step)

end

text \<open>
  A concrete system implements an abstract one when each concrete step is, through the
  abstraction, an abstract step or no step at all.
\<close>

locale forward_simulation = transition_invariant step s0 inv
  for step :: "'e \<Rightarrow> 's \<Rightarrow> 's option" and s0 :: 's and inv :: "'s \<Rightarrow> bool" +
  fixes astep :: "'f \<Rightarrow> 'a \<Rightarrow> 'a option"
    and a0 :: 'a
    and abs :: "'s \<Rightarrow> 'a"
  assumes abs_init: "abs s0 = a0"
    and abs_step: "inv s \<Longrightarrow> step e s = Some t \<Longrightarrow> abs t = abs s \<or> (\<exists>f. astep f (abs s) = Some (abs t))"
begin

lemma reachable_abs: "reachable step s0 s \<Longrightarrow> reachable astep a0 (abs s)"
proof (induction rule: reachable.induct)
  case reach_init
  show ?case unfolding abs_init by (rule reachable.reach_init)
next
  case (reach_step s e t)
  from reach_step.hyps(1) have "inv s" by (rule reachable_inv)
  with abs_step [OF _ reach_step.hyps(2)] reach_step.IH show ?case
    by (auto intro: reachable.reach_step)
qed

end

section \<open>Threads at a program point\<close>

text \<open>The threads whose program counter is \<open>p\<close>.\<close>

definition at_pc :: "('i \<Rightarrow> 'p) \<Rightarrow> 'p \<Rightarrow> 'i set" where
  "at_pc f p = {i. f i = p}"

lemma at_pc_iff: "i \<in> at_pc f p \<longleftrightarrow> f i = p"
  by (simp add: at_pc_def)

lemma at_pc_upd: "at_pc (f(i := q)) p = (if q = p then insert i (at_pc f p) else at_pc f p - {i})"
  by (auto simp: at_pc_def)

lemma at_pc_const: "at_pc (\<lambda>_. q) p = (if q = p then UNIV else {})"
  by (auto simp: at_pc_def)

section \<open>Lists and functions\<close>

lemma fun_upd_image_other: "x \<notin> A \<Longrightarrow> (f(x := v)) ` A = f ` A"
  by auto

lemma hd_drop_nth: "i < length xs \<Longrightarrow> drop i xs = xs ! i # drop (Suc i) xs"
  by (simp add: Cons_nth_drop_Suc)

lemma map_upt_snoc: "i \<le> j \<Longrightarrow> map f [i..<Suc j] = map f [i..<j] @ [f j]"
  by simp

lemma map_upt_cong: "(\<And>k. i \<le> k \<Longrightarrow> k < j \<Longrightarrow> f k = g k) \<Longrightarrow> map f [i..<j] = map g [i..<j]"
  by simp

lemma map_upt_split: "i \<le> j \<Longrightarrow> j \<le> k \<Longrightarrow> map f [i..<k] = map f [i..<j] @ map f [j..<k]"
  by (metis le_add_diff_inverse map_append upt_add_eq_append)

lemma mod_inj_window:
  fixes a b c :: nat
  assumes "a mod c = b mod c" "a \<le> b" "b < a + c"
  shows "a = b"
proof (rule ccontr)
  assume "a \<noteq> b"
  with assms(2) have pos: "0 < b - a" by simp
  have "c dvd b - a" using assms(1,2) by (metis mod_eq_dvd_iff_nat)
  with pos have "c \<le> b - a" by (rule dvd_imp_le [rotated])
  with assms(2,3) pos show False by linarith
qed

text \<open>A sum over the threads' program counters when one thread moves.\<close>

lemma sum_fun_upd:
  fixes g :: "'p \<Rightarrow> 'm::comm_monoid_add"
  assumes "i < (n::nat)"
  shows "(\<Sum>k<n. g ((f(i := p)) k)) + g (f i) = (\<Sum>k<n. g (f k)) + g p"
proof -
  have i: "i \<in> {..<n}" using assms by simp
  have "(\<Sum>k\<in>{..<n} - {i}. g ((f(i := p)) k)) = (\<Sum>k\<in>{..<n} - {i}. g (f k))"
    by (rule sum.cong) auto
  then show ?thesis
    using sum.remove [OF _ i, of "\<lambda>k. g (f k)"] sum.remove [OF _ i, of "\<lambda>k. g ((f(i := p)) k)"]
    by (simp add: ac_simps)
qed

end
