(* ===== verification/Stamped_Ptr.thy ===== *)
theory Stamped_Ptr
  imports Prelude
begin

unbundle bit_operations_syntax

text \<open>
  \<open>util/stamped_ptr.hpp\<close>: a raw pointer and a 16-bit stamp packed into one 64-bit word, and
  the atomic cell that holds the packed word. Raw pointers are kept as 64-bit words here,
  since packing works on their bits.
\<close>

section \<open>StampedPtr\<close>

record stamped_ptr =
  raw_ptr :: u64
  stamp :: u64

definition StampedPtr :: "u64 \<Rightarrow> u64 \<Rightarrow> stamped_ptr" where
  "StampedPtr p s = \<lparr>raw_ptr = p, stamp = s\<rparr>"

definition stamped_bool :: "stamped_ptr \<Rightarrow> bool" where
  "stamped_bool sp \<longleftrightarrow> raw_ptr sp \<noteq> 0"

definition IncrementStamp :: "stamped_ptr \<Rightarrow> stamped_ptr" where
  "IncrementStamp sp = StampedPtr (raw_ptr sp) (stamp sp + 1)"

text \<open>\<open>assert(stamp > 0)\<close> aborts: \<open>None\<close>.\<close>

definition DecrementStamp :: "stamped_ptr \<Rightarrow> stamped_ptr option" where
  "DecrementStamp sp =
     (if stamp sp > 0 then Some (StampedPtr (raw_ptr sp) (stamp sp - 1)) else None)"

definition stamped_eq :: "stamped_ptr \<Rightarrow> stamped_ptr \<Rightarrow> bool" where
  "stamped_eq l r \<longleftrightarrow> raw_ptr l = raw_ptr r \<and> stamp l = stamp r"

definition stamped_neq :: "stamped_ptr \<Rightarrow> stamped_ptr \<Rightarrow> bool" where
  "stamped_neq l r \<longleftrightarrow> \<not> stamped_eq l r"

section \<open>Packer\<close>

definition kFreeBits :: nat where
  "kFreeBits = 16"

definition kFreeBitsShift :: nat where
  "kFreeBitsShift = 64 - kFreeBits"

definition kFreeBitsMask :: u64 where
  "kFreeBitsMask = push_bit kFreeBitsShift (push_bit kFreeBits 1 - 1)"

definition kMaxStamp :: u64 where
  "kMaxStamp = push_bit kFreeBits 1 - 1"

definition GetBit :: "u64 \<Rightarrow> nat \<Rightarrow> u64" where
  "GetBit m index = drop_bit index m AND 1"

definition SetFreeBits :: "u64 \<Rightarrow> u64" where
  "SetFreeBits m = m OR kFreeBitsMask"

definition ClearFreeBits :: "u64 \<Rightarrow> u64" where
  "ClearFreeBits m = m AND NOT kFreeBitsMask"

definition ToCanonicalForm :: "u64 \<Rightarrow> u64" where
  "ToCanonicalForm p = (if GetBit p 47 \<noteq> 0 then SetFreeBits p else ClearFreeBits p)"

definition GetStamp :: "u64 \<Rightarrow> u64" where
  "GetStamp packed = drop_bit kFreeBitsShift packed"

definition GetRawPointer :: "u64 \<Rightarrow> u64" where
  "GetRawPointer packed = ToCanonicalForm packed"

definition Pack :: "stamped_ptr \<Rightarrow> u64" where
  "Pack sp = ClearFreeBits (raw_ptr sp) OR push_bit kFreeBitsShift (stamp sp)"

definition Unpack :: "u64 \<Rightarrow> stamped_ptr" where
  "Unpack packed = StampedPtr (GetRawPointer packed) (GetStamp packed)"

text \<open>An address in the canonical form of x86-64: bits 48 to 63 repeat bit 47.\<close>

definition canonical :: "u64 \<Rightarrow> bool" where
  "canonical p \<longleftrightarrow> (\<forall>i \<in> {48..<64}. bit p i = bit p 47)"

section \<open>AtomicStampedPtr\<close>

text \<open>
  The cell is its packed word. \<open>CompareExchangeWeak\<close> may fail spuriously: the flag
  \<open>spurious\<close> is the choice of the hardware. The results are the success flag, the new value of
  \<open>expected\<close> and the new cell.
\<close>

type_synonym atomic_stamped_ptr = u64

definition AtomicStampedPtr :: "stamped_ptr \<Rightarrow> atomic_stamped_ptr" where
  "AtomicStampedPtr p = Pack p"

definition asp_Store :: "stamped_ptr \<Rightarrow> atomic_stamped_ptr \<Rightarrow> atomic_stamped_ptr" where
  "asp_Store p cell = Pack p"

definition asp_Load :: "atomic_stamped_ptr \<Rightarrow> stamped_ptr" where
  "asp_Load cell = Unpack cell"

definition asp_Exchange :: "stamped_ptr \<Rightarrow> atomic_stamped_ptr \<Rightarrow> stamped_ptr \<times> atomic_stamped_ptr" where
  "asp_Exchange target cell = (Unpack cell, Pack target)"

definition CompareExchangeWeakImpl ::
    "bool \<Rightarrow> stamped_ptr \<Rightarrow> stamped_ptr \<Rightarrow> atomic_stamped_ptr \<Rightarrow> bool \<times> stamped_ptr \<times> atomic_stamped_ptr" where
  "CompareExchangeWeakImpl spurious expected desired cell =
     (let expected_packed = Pack expected;
          succeeded = (cell = expected_packed \<and> \<not> spurious)
      in if succeeded then (True, expected, Pack desired) else (False, Unpack cell, cell))"

text \<open>
  \<open>FetchIncrement\<close> retries its compare-exchange until it succeeds. One attempt of the loop is
  preceded by whatever the other threads did to the cell (a function on the cell) and may
  fail spuriously; the list gives these choices for the attempts made so far. \<open>None\<close>: the
  attempts listed do not suffice.
\<close>

type_synonym interference = "(atomic_stamped_ptr \<Rightarrow> atomic_stamped_ptr) \<times> bool"

fun FetchIncrement_loop ::
    "interference list \<Rightarrow> stamped_ptr \<Rightarrow> atomic_stamped_ptr \<Rightarrow> (stamped_ptr \<times> atomic_stamped_ptr) option" where
  "FetchIncrement_loop [] old cell = None"
| "FetchIncrement_loop ((env, spurious) # is) old cell =
     (let cell' = env cell;
          (ok, old', cell'') = CompareExchangeWeakImpl spurious old (IncrementStamp old) cell'
      in if ok then Some (old', cell'') else FetchIncrement_loop is old' cell'')"

definition FetchIncrement ::
    "interference list \<Rightarrow> atomic_stamped_ptr \<Rightarrow> (stamped_ptr \<times> atomic_stamped_ptr) option" where
  "FetchIncrement is cell = FetchIncrement_loop is (asp_Load cell) cell"

section \<open>Packing and unpacking\<close>

lemmas packer_defs [model_defs] = kFreeBits_def kFreeBitsShift_def kFreeBitsMask_def GetBit_def
  SetFreeBits_def ClearFreeBits_def ToCanonicalForm_def GetStamp_def GetRawPointer_def
  StampedPtr_def

lemma u64_bit_bound: "bit (w :: u64) i \<Longrightarrow> i < 64"
  by (drule bit_imp_le_length) simp

lemma kFreeBitsMask_mask: "kFreeBitsMask = push_bit 48 (mask 16)"
  by (simp add: kFreeBitsMask_def kFreeBitsShift_def kFreeBits_def mask_eq_exp_minus_1 push_bit_eq_mult)

lemma bit_kFreeBitsMask: "bit kFreeBitsMask i \<longleftrightarrow> 48 \<le> i \<and> i < 64"
  by (auto simp: kFreeBitsMask_mask bit_simps)

lemma bit_ClearFreeBits: "bit (ClearFreeBits w) i \<longleftrightarrow> bit w i \<and> i < 48"
  by (auto simp: ClearFreeBits_def bit_simps bit_kFreeBitsMask dest: u64_bit_bound)

lemma bit_SetFreeBits: "bit (SetFreeBits w) i \<longleftrightarrow> bit w i \<or> (48 \<le> i \<and> i < 64)"
  by (auto simp: SetFreeBits_def bit_simps bit_kFreeBitsMask)

lemma GetBit_nonzero: "GetBit w i \<noteq> 0 \<longleftrightarrow> bit w i"
  by (simp add: GetBit_def and_one_eq bit_iff_odd_drop_bit odd_iff_mod_2_eq_one)

lemma bit_ToCanonicalForm:
  "bit (ToCanonicalForm w) i \<longleftrightarrow> (if i < 48 then bit w i else i < 64 \<and> bit w 47)"
  by (auto simp: ToCanonicalForm_def GetBit_nonzero bit_ClearFreeBits bit_SetFreeBits dest: u64_bit_bound)

lemma bit_Pack:
  "bit (Pack sp) i \<longleftrightarrow> (if i < 48 then bit (raw_ptr sp) i else i < 64 \<and> bit (stamp sp) (i - 48))"
  by (auto simp: Pack_def kFreeBitsShift_def kFreeBits_def bit_simps bit_ClearFreeBits)

lemma canonical_iff: "canonical p \<longleftrightarrow> ToCanonicalForm p = p"
proof
  assume c: "canonical p"
  show "ToCanonicalForm p = p"
  proof (rule bit_word_eqI)
    fix i assume "i < LENGTH(64)"
    then show "bit (ToCanonicalForm p) i \<longleftrightarrow> bit p i"
      using c by (auto simp: canonical_def bit_ToCanonicalForm)
  qed
next
  assume e: "ToCanonicalForm p = p"
  have "bit p i = bit p 47" if "i \<in> {48..<64}" for i
    using bit_ToCanonicalForm [of p i] that by (simp add: e)
  then show "canonical p" by (simp add: canonical_def)
qed

lemma ToCanonicalForm_Pack: "ToCanonicalForm (Pack sp) = ToCanonicalForm (raw_ptr sp)"
  by (rule bit_eqI) (auto simp: bit_ToCanonicalForm bit_Pack)

lemma GetStamp_Pack: "GetStamp (Pack sp) = take_bit 16 (stamp sp)"
  by (rule bit_eqI)
    (auto simp: GetStamp_def kFreeBitsShift_def kFreeBits_def bit_simps bit_Pack)

lemma small_stamp: "s < 65536 \<Longrightarrow> take_bit 16 (s :: u64) = s"
  by (simp add: word_unat_eq_iff unsigned_take_bit_eq take_bit_nat_eq_self word_less_nat_alt)

lemma unat_kMaxStamp: "unat kMaxStamp = 65535"
  by (simp add: kMaxStamp_def kFreeBits_def)

lemma Unpack_Pack_general:
  "Unpack (Pack sp) = StampedPtr (ToCanonicalForm (raw_ptr sp)) (take_bit 16 (stamp sp))"
  by (simp add: Unpack_def GetRawPointer_def ToCanonicalForm_Pack GetStamp_Pack)

lemma Unpack_Pack:
  "canonical (raw_ptr sp) \<Longrightarrow> stamp sp < 65536 \<Longrightarrow> Unpack (Pack sp) = sp"
  by (simp add: Unpack_Pack_general small_stamp canonical_iff StampedPtr_def)

lemma Pack_Unpack: "Pack (Unpack w) = w"
  by (rule bit_eqI)
    (auto simp: bit_Pack Unpack_def StampedPtr_def GetRawPointer_def bit_ToCanonicalForm
      GetStamp_def kFreeBitsShift_def kFreeBits_def bit_simps dest: u64_bit_bound)

section \<open>The atomic cell\<close>

lemma CAS_success_iff:
  "fst (CompareExchangeWeakImpl sp e d c) \<longleftrightarrow> c = Pack e \<and> \<not> sp"
  by (simp add: CompareExchangeWeakImpl_def Let_def)

lemma CAS_success:
  "CompareExchangeWeakImpl sp e d c = (True, e', c') \<Longrightarrow> c = Pack e \<and> e' = e \<and> c' = Pack d"
  by (auto simp: CompareExchangeWeakImpl_def Let_def split: if_splits)

lemma CAS_failure:
  "CompareExchangeWeakImpl sp e d c = (False, e', c') \<Longrightarrow> e' = Unpack c \<and> c' = c"
  by (auto simp: CompareExchangeWeakImpl_def Let_def split: if_splits)

text \<open>The cell right before attempt \<open>k\<close>, when every earlier attempt failed.\<close>

definition cell_before :: "interference list \<Rightarrow> nat \<Rightarrow> atomic_stamped_ptr \<Rightarrow> atomic_stamped_ptr" where
  "cell_before is k cell = fold fst (take (Suc k) is) cell"

lemma FetchIncrement_loop_lin:
  "FetchIncrement_loop is old cell = Some (r, c') \<Longrightarrow> old = Unpack w \<Longrightarrow>
   \<exists>k < length is. r = Unpack (cell_before is k cell) \<and> c' = Pack (IncrementStamp r)"
proof (induction "is" old cell arbitrary: w rule: FetchIncrement_loop.induct)
  case (1 old cell)
  then show ?case by simp
next
  case (2 env spurious "is" old cell)
  obtain ok old' cell'' where cas:
    "CompareExchangeWeakImpl spurious old (IncrementStamp old) (env cell) = (ok, old', cell'')"
    by (metis prod.exhaust)
  show ?case
  proof (cases ok)
    case True
    with cas have s: "env cell = Pack old" "old' = old" "cell'' = Pack (IncrementStamp old)"
      by (auto dest: CAS_success)
    with "2.prems"(2) have "old = Unpack (env cell)" by (simp add: Pack_Unpack)
    moreover from True cas "2.prems"(1) have "old' = r" "cell'' = c'" by simp_all
    ultimately have "r = Unpack (cell_before ((env, spurious) # is) 0 cell) \<and> c' = Pack (IncrementStamp r)"
      using s by (simp add: cell_before_def)
    then show ?thesis by blast
  next
    case False
    with cas have f: "old' = Unpack (env cell)" "cell'' = env cell"
      by (auto dest: CAS_failure)
    from False cas "2.prems"(1) have "FetchIncrement_loop is old' cell'' = Some (r, c')"
      by simp
    from "2.IH" [OF refl refl cas [symmetric] refl False this f(1)]
    obtain k where "k < length is" "r = Unpack (cell_before is k cell'')" "c' = Pack (IncrementStamp r)"
      by blast
    moreover have "cell_before ((env, spurious) # is) (Suc k) cell = cell_before is k cell''"
      using f by (simp add: cell_before_def)
    ultimately show ?thesis by (metis Suc_less_eq length_Cons)
  qed
qed

lemma FetchIncrement_loop_returns:
  "(\<lambda>c. c, False) \<in> set is \<Longrightarrow> Pack old = cell \<Longrightarrow> FetchIncrement_loop is old cell \<noteq> None"
proof (induction "is" old cell rule: FetchIncrement_loop.induct)
  case (1 old cell)
  then show ?case by simp
next
  case (2 env spurious "is" old cell)
  obtain ok old' cell'' where cas:
    "CompareExchangeWeakImpl spurious old (IncrementStamp old) (env cell) = (ok, old', cell'')"
    by (metis prod.exhaust)
  show ?case
  proof (cases ok)
    case True
    with cas show ?thesis by simp
  next
    case False
    with cas have f: "old' = Unpack (env cell)" "cell'' = env cell"
      by (auto dest: CAS_failure)
    from False cas "2.prems"(2) have "(env, spurious) \<noteq> (\<lambda>c. c, False)"
      by (auto simp: CompareExchangeWeakImpl_def split: if_splits)
    with "2.prems"(1) have "(\<lambda>c. c, False) \<in> set is" by auto
    from "2.IH" [OF refl refl cas [symmetric] refl False this] f
    have "FetchIncrement_loop is old' cell'' \<noteq> None" by (simp add: Pack_Unpack)
    with False cas show ?thesis by simp
  qed
qed

lemma take_bit_16_add_one:
  "take_bit 16 (s :: u64) = s \<Longrightarrow> take_bit 16 (s + 1) = (if s = 65535 then 0 else s + 1)"
  by (auto simp: word_unat_eq_iff unsigned_take_bit_eq take_bit_eq_mod unat_word_ariths)

lemma canonical_Unpack: "canonical (raw_ptr (Unpack w))"
  by (simp add: canonical_iff Unpack_def StampedPtr_def GetRawPointer_def)
    (rule bit_eqI, auto simp: bit_ToCanonicalForm)

lemma stamp_Unpack: "take_bit 16 (stamp (Unpack w)) = stamp (Unpack w)"
  by (rule bit_word_eqI)
    (auto simp: Unpack_def StampedPtr_def GetStamp_def kFreeBitsShift_def kFreeBits_def bit_simps
      dest: u64_bit_bound)

lemma kMaxStamp_eq: "kMaxStamp = 65535"
  by (simp add: kMaxStamp_def kFreeBits_def)

lemma Unpack_Pack_IncrementStamp:
  "old = Unpack w \<Longrightarrow> Unpack (Pack (IncrementStamp old)) =
     StampedPtr (raw_ptr old) (if stamp old = kMaxStamp then 0 else stamp old + 1)"
  using canonical_Unpack [of w] stamp_Unpack [of w]
  by (simp add: Unpack_Pack_general IncrementStamp_def StampedPtr_def canonical_iff
      take_bit_16_add_one kMaxStamp_eq)

section \<open>Properties\<close>

text \<open>C31: packing a canonical pointer with a stamp below \<open>2^16\<close> and unpacking it gives it back.\<close>

theorem pack_unpack_roundtrip:
  assumes "canonical (raw_ptr sp)" and "stamp sp \<le> kMaxStamp"
  shows "Unpack (Pack sp) = sp"
proof -
  from assms(2) have "unat (stamp sp) \<le> 65535" by (simp add: word_le_nat_alt unat_kMaxStamp)
  then have "stamp sp < 65536" by (simp add: word_less_nat_alt)
  with assms(1) show ?thesis by (rule Unpack_Pack)
qed

theorem pack_unpack_roundtrip_witness:
  "canonical (raw_ptr (StampedPtr 0xFFFF800012345678 65535)) \<and>
   Unpack (Pack (StampedPtr 0xFFFF800012345678 65535)) = StampedPtr 0xFFFF800012345678 65535"
proof -
  have c: "canonical (raw_ptr (StampedPtr 0xFFFF800012345678 65535))"
    by (simp add: canonical_iff model_defs) 
  have "stamp (StampedPtr 0xFFFF800012345678 65535) \<le> kMaxStamp"
    by (simp add: StampedPtr_def kMaxStamp_def kFreeBits_def)
  from c pack_unpack_roundtrip [OF c this] show ?thesis by simp
qed

text \<open>
  C32: whatever the other threads do to the cell between the attempts, once one attempt is
  neither disturbed nor fails spuriously \<open>FetchIncrement\<close> has returned; what it returns is
  the content of the cell right before its successful attempt, and that attempt leaves the
  same pointer with the stamp advanced by one, modulo \<open>2^16\<close>.
\<close>

theorem fetch_increment_linearizes:
  assumes "(\<lambda>c. c, False) \<in> set is"
  shows "\<exists>old cell' k. FetchIncrement is cell = Some (old, cell') \<and> k < length is \<and>
    old = asp_Load (cell_before is k cell) \<and>
    asp_Load cell' = StampedPtr (raw_ptr old) (if stamp old = kMaxStamp then 0 else stamp old + 1)"
proof -
  have "FetchIncrement is cell \<noteq> None"
    unfolding FetchIncrement_def asp_Load_def
    using assms by (rule FetchIncrement_loop_returns) (rule Pack_Unpack)
  then obtain old cell' where r: "FetchIncrement is cell = Some (old, cell')" by fast
  then obtain k where "k < length is" "old = Unpack (cell_before is k cell)"
    "cell' = Pack (IncrementStamp old)"
    unfolding FetchIncrement_def asp_Load_def
    by (auto dest!: FetchIncrement_loop_lin [OF _ refl])
  with r Unpack_Pack_IncrementStamp [OF this(2)] show ?thesis
    by (auto simp: asp_Load_def)
qed

definition disturbed_twice :: "interference list" where
  "disturbed_twice = [(\<lambda>c. Pack (StampedPtr 64 7), False), (\<lambda>c. c, True), (\<lambda>c. c, False)]"

theorem fetch_increment_linearizes_witness:
  "\<exists>old cell' k. FetchIncrement disturbed_twice 0 = Some (old, cell') \<and> k < length disturbed_twice \<and>
     old = asp_Load (cell_before disturbed_twice k 0)"
proof -
  have "(\<lambda>c. c, False) \<in> set disturbed_twice" by (simp add: disturbed_twice_def)
  from fetch_increment_linearizes [OF this, of 0] show ?thesis by blast
qed

end
