(* ===== verification/Thread_Sync.thy ===== *)
theory Thread_Sync
  imports Prelude
begin

text \<open>
  \<open>thread/spinlock.hpp\<close>, \<open>thread/event.hpp\<close>, \<open>thread/wait_group.hpp\<close>.

  The three primitives are transition systems over any number of threads, named by \<open>nat\<close>.
  A spin lock step is one access to its atomic flag. An event step is one access to its
  futex word or one futex call: a futex wait compares and falls asleep in one step, may be
  woken spuriously, and its wrapper in \<open>twist\<close> returns only when it has read a value
  other than the old one. A wait group step is one critical section of its mutex; waiting on
  the condition variable releases the mutex and falls asleep in the same step, a wakeup may
  be spurious and always re-evaluates the predicate.
\<close>

section \<open>SpinLock\<close>

text \<open>
  \<open>SL_Exchange\<close> is the test of the outer loop of \<open>Lock\<close>, \<open>SL_Spin\<close> that of its inner loop,
  \<open>SL_Critical\<close> the owner between \<open>Lock\<close> and \<open>Unlock\<close>.
\<close>

datatype sl_pc = SL_Idle | SL_Exchange | SL_Spin | SL_Critical

record spinlock =
  sl_locked :: bool
  sl_pcs :: "nat \<Rightarrow> sl_pc"

definition sl_init :: spinlock where
  "sl_init = \<lparr>sl_locked = False, sl_pcs = (\<lambda>_. SL_Idle)\<rparr>"

definition SpinLock_Lock_exchange :: "nat \<Rightarrow> spinlock \<Rightarrow> spinlock" where
  "SpinLock_Lock_exchange i s =
     (let was_locked = sl_locked s
      in s\<lparr>sl_locked := True, sl_pcs := (sl_pcs s)(i := if was_locked then SL_Spin else SL_Critical)\<rparr>)"

definition SpinLock_Lock_spin :: "nat \<Rightarrow> spinlock \<Rightarrow> spinlock" where
  "SpinLock_Lock_spin i s =
     (if sl_locked s then s else s\<lparr>sl_pcs := (sl_pcs s)(i := SL_Exchange)\<rparr>)"

definition SpinLock_Unlock :: "nat \<Rightarrow> spinlock \<Rightarrow> spinlock" where
  "SpinLock_Unlock i s = s\<lparr>sl_locked := False, sl_pcs := (sl_pcs s)(i := SL_Idle)\<rparr>"

definition sl_step :: "nat \<Rightarrow> spinlock \<Rightarrow> spinlock option" where
  "sl_step i s = Some
     (case sl_pcs s i of
        SL_Idle \<Rightarrow> s\<lparr>sl_pcs := (sl_pcs s)(i := SL_Exchange)\<rparr>
      | SL_Exchange \<Rightarrow> SpinLock_Lock_exchange i s
      | SL_Spin \<Rightarrow> SpinLock_Lock_spin i s
      | SL_Critical \<Rightarrow> SpinLock_Unlock i s)"

definition sl_owned :: "nat option \<Rightarrow> spinlock \<Rightarrow> bool" where
  "sl_owned owner s \<longleftrightarrow> (sl_locked s \<longleftrightarrow> owner \<noteq> None) \<and> at_pc (sl_pcs s) SL_Critical = set_option owner"

definition sl_inv :: "spinlock \<Rightarrow> bool" where
  "sl_inv s \<longleftrightarrow> (\<exists>owner. sl_owned owner s)"

lemmas sl_defs = sl_step_def SpinLock_Lock_exchange_def SpinLock_Lock_spin_def SpinLock_Unlock_def

text \<open>The owner after a step: the mover, if it exchanged a free lock; nobody, if it unlocked.\<close>

definition sl_next_owner :: "nat \<Rightarrow> spinlock \<Rightarrow> nat option \<Rightarrow> nat option" where
  "sl_next_owner i s owner =
     (case sl_pcs s i of
        SL_Exchange \<Rightarrow> if sl_locked s then owner else Some i
      | SL_Critical \<Rightarrow> None
      | _ \<Rightarrow> owner)"

lemma sl_owned_simps:
  "sl_owned None s \<longleftrightarrow> \<not> sl_locked s \<and> at_pc (sl_pcs s) SL_Critical = {}"
  "sl_owned (Some k) s \<longleftrightarrow> sl_locked s \<and> at_pc (sl_pcs s) SL_Critical = {k}"
  by (simp_all add: sl_owned_def)

lemma sl_owned_step:
  assumes "sl_owned owner s" "sl_step i s = Some t"
  shows "sl_owned (sl_next_owner i s owner) t"
proof -
  have i: "sl_pcs s i \<noteq> SL_Critical \<Longrightarrow> at_pc (sl_pcs s) SL_Critical - {i} = at_pc (sl_pcs s) SL_Critical"
    by (simp add: at_pc_def)
  have c: "sl_pcs s i = SL_Critical \<Longrightarrow> i \<in> at_pc (sl_pcs s) SL_Critical"
    by (simp add: at_pc_def)
  show ?thesis
  proof (cases owner)
    case None
    with assms i c show ?thesis
      by (cases "sl_pcs s i")
        ((clarsimp simp: sl_owned_simps sl_next_owner_def sl_defs Let_def at_pc_upd split: if_splits)+)
  next
    case (Some k)
    with assms i c show ?thesis
      by (cases "sl_pcs s i")
        ((clarsimp simp: sl_owned_simps sl_next_owner_def sl_defs Let_def at_pc_upd split: if_splits)+)
  qed
qed

lemma sl_inv_step: "sl_inv s \<Longrightarrow> sl_step i s = Some t \<Longrightarrow> sl_inv t"
  unfolding sl_inv_def using sl_owned_step by blast

interpretation sl: transition_invariant sl_step sl_init sl_inv
proof
  have "sl_owned None sl_init" by (simp add: sl_owned_def sl_init_def at_pc_const)
  then show "sl_inv sl_init" unfolding sl_inv_def ..
qed (rule sl_inv_step)

section \<open>Event\<close>

text \<open>
  \<open>EW_Load\<close>: before the load of \<open>Wait\<close>; \<open>EW_Futex\<close>: before the futex system call;
  \<open>EW_Recheck\<close>: woken, before the load that follows; \<open>EW_Done\<close>: \<open>Wait\<close> has returned.
  \<open>EF_Store\<close>, \<open>EF_Wake\<close>: \<open>Fire\<close> before its store and before \<open>WakeOne\<close>.
\<close>

datatype ew_pc = EW_Idle | EW_Load | EW_Futex | EW_Asleep | EW_Recheck | EW_Done

datatype ef_pc = EF_Idle | EF_Store | EF_Wake | EF_Done

record event =
  ev_fired :: u32
  ev_waiters :: "nat \<Rightarrow> ew_pc"
  ev_firer :: ef_pc

datatype event_ev = Ev_Wait nat | Ev_Spurious nat | Ev_Fire "nat option"

definition event_init :: event where
  "event_init = \<lparr>ev_fired = 0, ev_waiters = (\<lambda>_. EW_Idle), ev_firer = EF_Idle\<rparr>"

definition ev_goto :: "nat \<Rightarrow> ew_pc \<Rightarrow> event \<Rightarrow> event" where
  "ev_goto i pc s = s\<lparr>ev_waiters := (ev_waiters s)(i := pc)\<rparr>"

definition Event_Wait_step :: "nat \<Rightarrow> event \<Rightarrow> event option" where
  "Event_Wait_step i s =
     (case ev_waiters s i of
        EW_Idle \<Rightarrow> Some (ev_goto i EW_Load s)
      | EW_Load \<Rightarrow> Some (ev_goto i (if ev_fired s = 0 then EW_Futex else EW_Done) s)
      | EW_Futex \<Rightarrow> Some (ev_goto i (if ev_fired s = 0 then EW_Asleep else EW_Recheck) s)
      | EW_Asleep \<Rightarrow> None
      | EW_Recheck \<Rightarrow> Some (ev_goto i (if ev_fired s = 0 then EW_Futex else EW_Done) s)
      | EW_Done \<Rightarrow> None)"

text \<open>\<open>WakeOne\<close> wakes one sleeper if there is one; the event says which.\<close>

definition Event_Fire_step :: "nat option \<Rightarrow> event \<Rightarrow> event option" where
  "Event_Fire_step woken s =
     (case ev_firer s of
        EF_Idle \<Rightarrow> Some (s\<lparr>ev_firer := EF_Store\<rparr>)
      | EF_Store \<Rightarrow> Some (s\<lparr>ev_fired := 1, ev_firer := EF_Wake\<rparr>)
      | EF_Wake \<Rightarrow>
          (case woken of
             Some i \<Rightarrow> (if ev_waiters s i = EW_Asleep
                        then Some (ev_goto i EW_Recheck (s\<lparr>ev_firer := EF_Done\<rparr>)) else None)
           | None \<Rightarrow> (if \<forall>i. ev_waiters s i \<noteq> EW_Asleep then Some (s\<lparr>ev_firer := EF_Done\<rparr>) else None))
      | EF_Done \<Rightarrow> None)"

definition event_step :: "event_ev \<Rightarrow> event \<Rightarrow> event option" where
  "event_step e s =
     (case e of
        Ev_Wait i \<Rightarrow> Event_Wait_step i s
      | Ev_Spurious i \<Rightarrow> (if ev_waiters s i = EW_Asleep then Some (ev_goto i EW_Recheck s) else None)
      | Ev_Fire w \<Rightarrow> Event_Fire_step w s)"

text \<open>
  \<open>future::Get\<close> uses the event with one waiter: \<open>event_inv\<close> also says that if only thread
  \<open>w\<close> ever waits, it is not asleep once \<open>Fire\<close> has woken.
\<close>

definition event_inv :: "nat \<Rightarrow> event \<Rightarrow> bool" where
  "event_inv w s \<longleftrightarrow>
     (ev_firer s \<in> {EF_Idle, EF_Store} \<longrightarrow> ev_fired s = 0) \<and>
     (ev_firer s \<in> {EF_Wake, EF_Done} \<longrightarrow> ev_fired s = 1) \<and>
     (\<forall>i. ev_waiters s i = EW_Done \<longrightarrow> ev_fired s \<noteq> 0) \<and>
     (ev_firer s = EF_Done \<longrightarrow> (\<forall>j. j \<noteq> w \<longrightarrow> ev_waiters s j = EW_Idle) \<longrightarrow> ev_waiters s w \<noteq> EW_Asleep)"

lemma event_wait_inv:
  assumes "event_inv w s" "Event_Wait_step i s = Some t"
  shows "event_inv w t"
  using assms
  by (cases "ev_waiters s i"; cases "ev_firer s")
    (clarsimp simp: event_inv_def Event_Wait_step_def ev_goto_def split: if_splits; metis ew_pc.distinct)+

lemma event_fire_inv:
  assumes "event_inv w s" "Event_Fire_step k s = Some t"
  shows "event_inv w t"
  using assms
  by (cases "ev_firer s")
    (auto simp: event_inv_def Event_Fire_step_def ev_goto_def split: if_splits option.splits)

lemma event_spurious_inv:
  assumes "event_inv w s" "ev_waiters s i = EW_Asleep"
  shows "event_inv w (ev_goto i EW_Recheck s)"
  using assms by (auto simp: event_inv_def ev_goto_def)

lemma event_inv_step: "event_inv w s \<Longrightarrow> event_step e s = Some t \<Longrightarrow> event_inv w t"
  by (cases e) (auto simp: event_step_def dest: event_wait_inv event_fire_inv event_spurious_inv split: if_splits)

interpretation event: transition_invariant event_step event_init "event_inv w" for w
proof
  show "event_inv w event_init" by (simp add: event_inv_def event_init_def)
qed (rule event_inv_step)

section \<open>WaitGroup\<close>

text \<open>
  \<open>counter_\<close> keeps its width, since \<open>Done\<close> and \<open>Add\<close> do arithmetic on it that could wrap;
  \<open>contention_\<close> counts threads inside \<open>Wait\<close>. \<open>Add\<close> is modelled for calls that do not
  overflow the counter.
\<close>

datatype wg_pc = WG_Out | WG_Asleep | WG_Notified | WG_Returned

record wait_group =
  wg_counter :: u64
  wg_contention :: nat
  wg_pcs :: "nat \<Rightarrow> wg_pc"

datatype wg_ev = WG_Add u64 | WG_Done | WG_Wait nat | WG_Resume nat | WG_Spurious nat

definition wg_init :: wait_group where
  "wg_init = \<lparr>wg_counter = 0, wg_contention = 0, wg_pcs = (\<lambda>_. WG_Out)\<rparr>"

definition WaitGroup_Add :: "u64 \<Rightarrow> wait_group \<Rightarrow> wait_group" where
  "WaitGroup_Add n s = s\<lparr>wg_counter := wg_counter s + n\<rparr>"

definition wg_notify_all :: "wait_group \<Rightarrow> wait_group" where
  "wg_notify_all s = s\<lparr>wg_pcs := (\<lambda>i. if wg_pcs s i = WG_Asleep then WG_Notified else wg_pcs s i)\<rparr>"

definition WaitGroup_Done :: "wait_group \<Rightarrow> wait_group" where
  "WaitGroup_Done s =
     (let s = s\<lparr>wg_counter := wg_counter s - 1\<rparr>
      in if wg_counter s = 0 \<and> wg_contention s \<noteq> 0 then wg_notify_all s else s)"

text \<open>The predicate of \<open>CV.wait\<close>, evaluated with the mutex held.\<close>

definition wg_check :: "nat \<Rightarrow> wait_group \<Rightarrow> wait_group" where
  "wg_check i s =
     (if wg_counter s = 0
      then s\<lparr>wg_contention := wg_contention s - 1, wg_pcs := (wg_pcs s)(i := WG_Returned)\<rparr>
      else s\<lparr>wg_pcs := (wg_pcs s)(i := WG_Asleep)\<rparr>)"

definition WaitGroup_Wait :: "nat \<Rightarrow> wait_group \<Rightarrow> wait_group" where
  "WaitGroup_Wait i s = wg_check i (s\<lparr>wg_contention := wg_contention s + 1\<rparr>)"

definition wg_step :: "wg_ev \<Rightarrow> wait_group \<Rightarrow> wait_group option" where
  "wg_step e s =
     (case e of
        WG_Add n \<Rightarrow> (if unat (wg_counter s) + unat n < 2 ^ 64 then Some (WaitGroup_Add n s) else None)
      | WG_Done \<Rightarrow> Some (WaitGroup_Done s)
      | WG_Wait i \<Rightarrow> (if wg_pcs s i \<in> {WG_Out, WG_Returned} then Some (WaitGroup_Wait i s) else None)
      | WG_Resume i \<Rightarrow> (if wg_pcs s i = WG_Notified then Some (wg_check i s) else None)
      | WG_Spurious i \<Rightarrow> (if wg_pcs s i = WG_Asleep then Some (wg_check i s) else None))"

definition wg_inside :: "wait_group \<Rightarrow> nat set" where
  "wg_inside s = {i. wg_pcs s i \<in> {WG_Asleep, WG_Notified}}"

definition wg_inv :: "wait_group \<Rightarrow> bool" where
  "wg_inv s \<longleftrightarrow> finite (wg_inside s) \<and> wg_contention s = card (wg_inside s) \<and>
     (wg_counter s = 0 \<longrightarrow> (\<forall>i. wg_pcs s i \<noteq> WG_Asleep))"

lemma wg_inside_check:
  "wg_inside (wg_check i s) = (if wg_counter s = 0 then wg_inside s - {i} else insert i (wg_inside s))"
  by (auto simp: wg_inside_def wg_check_def)

lemma wg_inside_fields [simp]:
  "wg_inside (s\<lparr>wg_counter := c\<rparr>) = wg_inside s" "wg_inside (s\<lparr>wg_contention := n\<rparr>) = wg_inside s"
  by (simp_all add: wg_inside_def)

lemma wg_inside_notify_all [simp]: "wg_inside (wg_notify_all s) = wg_inside s"
  by (auto simp: wg_inside_def wg_notify_all_def)

text \<open>Re-evaluating the predicate keeps the invariant when the thread is counted.\<close>

lemma wg_check_inv:
  assumes "finite (wg_inside s)" "wg_contention s = card (insert i (wg_inside s))"
    "wg_counter s = 0 \<longrightarrow> (\<forall>j. wg_pcs s j \<noteq> WG_Asleep)"
  shows "wg_inv (wg_check i s)"
proof -
  have c: "card (insert i (wg_inside s)) - 1 = card (wg_inside s - {i})"
    using assms(1) by (cases "i \<in> wg_inside s") (simp_all add: insert_absorb)
  show ?thesis
    unfolding wg_inv_def wg_inside_check using assms c
    by (cases "wg_counter s = 0") (simp_all add: wg_check_def)
qed

lemma wg_done_inv: "wg_inv s \<Longrightarrow> wg_inv (WaitGroup_Done s)"
proof -
  assume inv: "wg_inv s"
  show ?thesis
  proof (cases "wg_counter s - 1 = 0")
    case True
    have "wg_contention s = 0 \<Longrightarrow> \<forall>i. wg_pcs s i \<noteq> WG_Asleep"
      using inv by (auto simp: wg_inv_def wg_inside_def)
    with True inv show ?thesis
      by (auto simp: WaitGroup_Done_def Let_def wg_inv_def) (auto simp: wg_notify_all_def split: if_splits)
  next
    case False
    with inv show ?thesis by (auto simp: WaitGroup_Done_def wg_inv_def)
  qed
qed

lemma wg_add_inv:
  assumes "wg_inv s" "unat (wg_counter s) + unat n < 2 ^ 64"
  shows "wg_inv (WaitGroup_Add n s)"
proof -
  have "wg_counter s + n = 0 \<Longrightarrow> wg_counter s = 0"
    using assms(2) by (simp add: word_unat_eq_iff unat_word_ariths)
  with assms(1) show ?thesis by (auto simp: wg_inv_def WaitGroup_Add_def)
qed

lemma wg_inv_step:
  assumes "wg_inv s" "wg_step e s = Some t"
  shows "wg_inv t"
proof (cases e)
  case (WG_Wait i)
  with assms have "wg_pcs s i \<in> {WG_Out, WG_Returned}" and t: "t = WaitGroup_Wait i s"
    by (auto simp: wg_step_def split: if_splits)
  then have "i \<notin> wg_inside s" by (auto simp: wg_inside_def)
  with assms(1) show ?thesis
    unfolding t WaitGroup_Wait_def by (intro wg_check_inv) (auto simp: wg_inv_def)
next
  case (WG_Resume i)
  with assms have "i \<in> wg_inside s" and t: "t = wg_check i s"
    by (auto simp: wg_step_def wg_inside_def split: if_splits)
  with assms(1) show ?thesis
    unfolding t by (intro wg_check_inv) (auto simp: wg_inv_def insert_absorb)
next
  case (WG_Spurious i)
  with assms have "i \<in> wg_inside s" and t: "t = wg_check i s"
    by (auto simp: wg_step_def wg_inside_def split: if_splits)
  with assms(1) show ?thesis
    unfolding t by (intro wg_check_inv) (auto simp: wg_inv_def insert_absorb)
qed (use assms in \<open>auto simp: wg_step_def wg_add_inv wg_done_inv split: if_splits\<close>)

interpretation wg: transition_invariant wg_step wg_init wg_inv
proof
  show "wg_inv wg_init" by (simp add: wg_inv_def wg_init_def wg_inside_def)
qed (rule wg_inv_step)

section \<open>Properties\<close>

text \<open>C34: no two threads are ever inside the spin lock at once.\<close>

theorem spinlock_mutual_exclusion:
  assumes "reachable sl_step sl_init s" "sl_pcs s i = SL_Critical" "sl_pcs s j = SL_Critical"
  shows "i = j"
proof -
  from sl.reachable_inv [OF assms(1)] obtain owner where "at_pc (sl_pcs s) SL_Critical = set_option owner"
    by (auto simp: sl_inv_def sl_owned_def)
  with assms(2,3) have "i \<in> set_option owner" "j \<in> set_option owner"
    by (auto simp: at_pc_iff [symmetric])
  then show ?thesis by simp
qed

theorem spinlock_mutual_exclusion_witness:
  "\<exists>s. reachable sl_step sl_init s \<and> sl_pcs s 1 = SL_Critical \<and>
     (\<forall>j. sl_pcs s j = SL_Critical \<longrightarrow> 1 = j)"
proof -
  obtain s where s: "exec sl_step sl_init [0, 1, 1, 0, 0] = Some s" "sl_pcs s 1 = SL_Critical"
    by (simp add: sl_defs sl_init_def Let_def)
  have r: "reachable sl_step sl_init s" using s(1) by (rule exec_reachable)
  from r s(2) spinlock_mutual_exclusion [OF r s(2)] show ?thesis by blast
qed

text \<open>
  C35: \<open>Event::Wait\<close> has returned only where \<open>Fire\<close> has stored the flag; and with a single
  waiting thread, once \<open>Fire\<close> has returned that thread is not asleep, so no wakeup is lost.
\<close>

theorem event_wait_sound_and_woken:
  assumes "reachable event_step event_init s"
  shows "(ev_waiters s i = EW_Done \<longrightarrow> ev_fired s = 1) \<and>
    (ev_firer s = EF_Done \<longrightarrow> (\<forall>j. j \<noteq> w \<longrightarrow> ev_waiters s j = EW_Idle) \<longrightarrow> ev_waiters s w \<noteq> EW_Asleep)"
  using event.reachable_inv [OF assms, of w] by (cases "ev_firer s") (auto simp: event_inv_def)

theorem event_wait_sound_and_woken_witness:
  "\<exists>s. reachable event_step event_init s \<and> ev_firer s = EF_Done \<and> ev_waiters s 0 = EW_Recheck \<and>
     (ev_waiters s 0 = EW_Done \<longrightarrow> ev_fired s = 1)"
proof -
  obtain s where s: "exec event_step event_init
      [Ev_Wait 0, Ev_Wait 0, Ev_Fire None, Ev_Wait 0, Ev_Fire None, Ev_Fire (Some 0)] = Some s"
    "ev_firer s = EF_Done" "ev_waiters s 0 = EW_Recheck"
    by (simp add: event_step_def Event_Wait_step_def Event_Fire_step_def ev_goto_def event_init_def)
  have r: "reachable event_step event_init s" using s(1) by (rule exec_reachable)
  from r s(2,3) event_wait_sound_and_woken [OF r, of 0 0] show ?thesis by blast
qed

text \<open>
  With two waiting threads one wakeup is not enough: \<open>Fire\<close> can return and leave a
  second waiter asleep, since it calls \<open>WakeOne\<close>.
\<close>

lemma event_second_waiter_sleeps:
  "\<exists>s. reachable event_step event_init s \<and> ev_firer s = EF_Done \<and> ev_waiters s 1 = EW_Asleep"
proof -
  have "\<exists>s. exec event_step event_init
      [Ev_Wait 0, Ev_Wait 0, Ev_Wait 0, Ev_Wait 1, Ev_Wait 1, Ev_Wait 1,
       Ev_Fire None, Ev_Fire None, Ev_Fire (Some 0)] = Some s \<and>
    ev_firer s = EF_Done \<and> ev_waiters s 1 = EW_Asleep"
    by (simp add: event_step_def Event_Wait_step_def Event_Fire_step_def ev_goto_def event_init_def)
  then show ?thesis by (rule exec_reachable_ex)
qed

text \<open>
  C30: while the counter of a wait group is zero no thread sleeps in \<open>Wait\<close> without having been
  notified, so no wakeup is lost; and \<open>Wait\<close> returns in a step only if the counter is zero.
\<close>

theorem wait_group_no_lost_wakeup:
  assumes "reachable wg_step wg_init s"
  shows "(wg_counter s = 0 \<longrightarrow> wg_pcs s i \<noteq> WG_Asleep) \<and>
    (wg_step e s = Some t \<longrightarrow> wg_pcs s i \<noteq> WG_Returned \<longrightarrow> wg_pcs t i = WG_Returned \<longrightarrow> wg_counter t = 0)"
proof
  show "wg_counter s = 0 \<longrightarrow> wg_pcs s i \<noteq> WG_Asleep"
    using wg.reachable_inv [OF assms] by (simp add: wg_inv_def)
  show "wg_step e s = Some t \<longrightarrow> wg_pcs s i \<noteq> WG_Returned \<longrightarrow> wg_pcs t i = WG_Returned \<longrightarrow> wg_counter t = 0"
    by (cases e) (auto simp: wg_step_def WaitGroup_Add_def WaitGroup_Done_def WaitGroup_Wait_def
        wg_check_def wg_notify_all_def Let_def split: if_splits)
qed

theorem wait_group_no_lost_wakeup_witness:
  "\<exists>s. reachable wg_step wg_init s \<and> wg_pcs s 5 = WG_Notified \<and> wg_counter s = 0 \<and> wg_pcs s 6 \<noteq> WG_Asleep"
proof -
  obtain s where s: "exec wg_step wg_init [WG_Add 1, WG_Wait 5, WG_Spurious 5, WG_Done] = Some s"
    "wg_pcs s 5 = WG_Notified" "wg_counter s = 0"
    by (simp add: wg_step_def WaitGroup_Add_def WaitGroup_Done_def WaitGroup_Wait_def
        wg_check_def wg_notify_all_def Let_def wg_init_def)
  have r: "reachable wg_step wg_init s" using s(1) by (rule exec_reachable)
  from r s(2,3) wait_group_no_lost_wakeup [OF r, of 6] show ?thesis by blast
qed

end
