(* ===== verification/Forward_List.thy ===== *)
theory Forward_List
  imports Prelude
begin

text \<open>
  \<open>wheels/intrusive/forward_list.hpp\<close>: the intrusive singly linked list that holds every
  queue of tasks, fiber handles and coroutine waiters of the library. Nodes carry their own
  \<open>next_\<close> pointer, so the model is a store of \<open>next_\<close> fields beside the list object.
  Operations return \<open>None\<close> where the code would dereference a null pointer.

  The interface the clients rely on is the locale \<open>fifo\<close>. It is interpreted twice: on the
  linked representation, and on plain lists, which the models of the clients use in place
  of the linked one.
\<close>

section \<open>The linked list\<close>

type_synonym 'n nexts = "'n \<Rightarrow> 'n ptr"

record 'n flist =
  fl_head :: "'n ptr"
  fl_tail :: "'n ptr"
  fl_size :: u64

type_synonym 'n fwd = "'n nexts \<times> 'n flist"

definition IntrusiveForwardList :: "'n flist" where
  "IntrusiveForwardList = \<lparr>fl_head = nullptr, fl_tail = nullptr, fl_size = 0\<rparr>"

definition Reset :: "'n flist \<Rightarrow> 'n flist" where
  "Reset l = l\<lparr>fl_head := nullptr, fl_tail := nullptr, fl_size := 0\<rparr>"

definition IsEmpty :: "'n flist \<Rightarrow> bool" where
  "IsEmpty l \<longleftrightarrow> fl_head l = nullptr"

definition NonEmpty :: "'n flist \<Rightarrow> bool" where
  "NonEmpty l \<longleftrightarrow> \<not> IsEmpty l"

definition Size :: "'n flist \<Rightarrow> u64" where
  "Size l = fl_size l"

definition move_construct :: "'n flist \<Rightarrow> 'n flist \<times> 'n flist" where
  "move_construct that =
     (\<lparr>fl_head = fl_head that, fl_tail = fl_tail that, fl_size = fl_size that\<rparr>, Reset that)"

definition PushBack :: "'n \<Rightarrow> 'n fwd \<Rightarrow> 'n fwd option" where
  "PushBack node = (\<lambda>(h, l).
     let l = l\<lparr>fl_size := fl_size l + 1\<rparr>;
         h = h(node := nullptr)
     in if IsEmpty l then Some (h, l\<lparr>fl_head := Some node, fl_tail := Some node\<rparr>)
        else (case fl_tail l of
                None \<Rightarrow> None
              | Some t \<Rightarrow> Some (h(t := Some node), l\<lparr>fl_tail := Some node\<rparr>)))"

definition PushFront :: "'n \<Rightarrow> 'n fwd \<Rightarrow> 'n fwd" where
  "PushFront node = (\<lambda>(h, l).
     let l = l\<lparr>fl_size := fl_size l + 1\<rparr>
     in if IsEmpty l then (h, l\<lparr>fl_head := Some node, fl_tail := Some node\<rparr>)
        else (h(node := fl_head l), l\<lparr>fl_head := Some node\<rparr>))"

definition PopFront :: "'n fwd \<Rightarrow> 'n ptr \<times> 'n fwd" where
  "PopFront = (\<lambda>(h, l).
     case fl_head l of
       None \<Rightarrow> (nullptr, h, l)
     | Some front \<Rightarrow>
         let l = l\<lparr>fl_size := fl_size l - 1\<rparr>;
             l = (if fl_head l = fl_tail l then l\<lparr>fl_head := nullptr, fl_tail := nullptr\<rparr>
                  else l\<lparr>fl_head := h front\<rparr>)
         in (Some front, h(front := nullptr), l))"

definition Append :: "'n nexts \<Rightarrow> 'n flist \<Rightarrow> 'n flist \<Rightarrow> ('n nexts \<times> 'n flist \<times> 'n flist) option" where
  "Append h l that =
     (if IsEmpty that then Some (h, l, that)
      else if IsEmpty l
        then Some (h, l\<lparr>fl_head := fl_head that, fl_tail := fl_tail that, fl_size := fl_size that\<rparr>, Reset that)
      else (case fl_tail l of
              None \<Rightarrow> None
            | Some t \<Rightarrow> Some (h(t := fl_head that),
                          l\<lparr>fl_tail := fl_tail that, fl_size := fl_size l + fl_size that\<rparr>, Reset that)))"

text \<open>\<open>ForEach\<close>: the items its handler is called with, in order. A cyclic chain never ends.\<close>

partial_function (option) ForEach_from :: "'n nexts \<Rightarrow> 'n ptr \<Rightarrow> 'n list \<Rightarrow> 'n list option" where
  "ForEach_from h iter seen =
     (case iter of None \<Rightarrow> Some seen | Some n \<Rightarrow> ForEach_from h (h n) (seen @ [n]))"

definition ForEach :: "'n fwd \<Rightarrow> 'n list option" where
  "ForEach = (\<lambda>(h, l). ForEach_from h (fl_head l) [])"

section \<open>The list a chain of nodes represents\<close>

primrec chain :: "'n nexts \<Rightarrow> 'n ptr \<Rightarrow> 'n list \<Rightarrow> bool" where
  "chain h p [] \<longleftrightarrow> p = None"
| "chain h p (x # xs) \<longleftrightarrow> p = Some x \<and> chain h (h x) xs"

definition fl_rep :: "'n fwd \<Rightarrow> 'n list \<Rightarrow> bool" where
  "fl_rep = (\<lambda>(h, l) xs. chain h (fl_head l) xs \<and>
     fl_tail l = (if xs = [] then None else Some (last xs)) \<and> fl_size l = of_nat (length xs))"

lemma chain_unique: "chain h p xs \<Longrightarrow> chain h p ys \<Longrightarrow> xs = ys"
proof (induction xs arbitrary: p ys)
  case Nil
  then show ?case by (cases ys) auto
next
  case (Cons x xs)
  then show ?case by (cases ys) auto
qed

lemma chain_drop: "chain h p (ys @ zs) \<Longrightarrow> \<exists>q. chain h q zs \<and> (zs \<noteq> [] \<longrightarrow> q = Some (hd zs))"
proof (induction ys arbitrary: p)
  case Nil
  then show ?case by (cases zs) auto
next
  case (Cons y ys)
  then show ?case by auto
qed

lemma chain_next_notin: "chain h (h x) xs \<Longrightarrow> x \<notin> set xs"
proof
  assume c: "chain h (h x) xs" and "x \<in> set xs"
  then obtain ys zs where xs: "xs = ys @ x # zs" by (auto simp: in_set_conv_decomp)
  with c chain_drop [of h "h x" ys "x # zs"] have "chain h (h x) zs" by auto
  with c have "xs = zs" by (rule chain_unique)
  with xs show False by simp
qed

lemma chain_distinct: "chain h p xs \<Longrightarrow> distinct xs"
  by (induction xs arbitrary: p) (auto dest: chain_next_notin)

lemma chain_upd_other [simp]: "x \<notin> set xs \<Longrightarrow> chain (h(x := q)) p xs = chain h p xs"
  by (induction xs arbitrary: p) auto

lemma chain_snoc:
  assumes "chain h p xs" "x \<notin> set xs" "xs \<noteq> []"
  shows "chain (h(x := None, last xs := Some x)) p (xs @ [x])"
  using assms
proof (induction xs arbitrary: p)
  case Nil
  then show ?case by simp
next
  case (Cons y ys)
  show ?case
  proof (cases "ys = []")
    case True
    with Cons show ?thesis by auto
  next
    case False
    from Cons.prems have "y \<notin> set ys" by (auto dest: chain_next_notin)
    with False have "y \<noteq> last ys" by auto
    with Cons False show ?thesis by auto
  qed
qed

lemma chain_join:
  assumes "chain h p xs" "chain h q ys" "xs \<noteq> []" "set xs \<inter> set ys = {}"
  shows "chain (h(last xs := q)) p (xs @ ys)"
  using assms
proof (induction xs arbitrary: p)
  case Nil
  then show ?case by simp
next
  case (Cons y zs)
  show ?case
  proof (cases "zs = []")
    case True
    with Cons.prems show ?thesis by (simp del: fun_upd_apply add: fun_upd_same)
  next
    case False
    from Cons.prems have "y \<notin> set zs" by (auto dest: chain_next_notin)
    with False have "y \<noteq> last zs" by auto
    with Cons False show ?thesis by auto
  qed
qed

section \<open>The operations on represented lists\<close>

lemma fl_rep_empty: "fl_rep (h, IntrusiveForwardList) []"
  by (simp add: fl_rep_def IntrusiveForwardList_def)

lemma fl_rep_IsEmpty: "fl_rep (h, l) xs \<Longrightarrow> IsEmpty l \<longleftrightarrow> xs = []"
  by (cases xs) (auto simp: fl_rep_def IsEmpty_def)

lemma fl_rep_Size: "fl_rep (h, l) xs \<Longrightarrow> Size l = of_nat (length xs)"
  by (simp add: fl_rep_def Size_def)

lemma PushBack_rep:
  assumes "fl_rep q xs" "x \<notin> set xs"
  shows "\<exists>q'. PushBack x q = Some q' \<and> fl_rep q' (xs @ [x])"
proof -
  obtain h l where q: "q = (h, l)" by fastforce
  show ?thesis
  proof (cases "xs = []")
    case True
    with assms q show ?thesis by (simp add: PushBack_def fl_rep_def IsEmpty_def)
  next
    case False
    then obtain y ys where "xs = y # ys" by (cases xs) auto
    with assms q False chain_snoc [of h "fl_head l" xs x] show ?thesis
      by (simp add: PushBack_def fl_rep_def IsEmpty_def add.commute)
  qed
qed

lemma PopFront_rep_Nil: "fl_rep q [] \<Longrightarrow> PopFront q = (None, q)"
  by (cases q) (simp add: PopFront_def fl_rep_def)

lemma PopFront_rep_Cons:
  assumes "fl_rep q (x # xs)"
  shows "\<exists>q'. PopFront q = (Some x, q') \<and> fl_rep q' xs \<and> fst q' x = None"
proof -
  obtain h l where q: "q = (h, l)" by fastforce
  from assms q have hd: "fl_head l = Some x" and c: "chain h (h x) xs"
    and tl: "fl_tail l = Some (last (x # xs))" and sz: "fl_size l = 1 + of_nat (length xs)"
    by (auto simp: fl_rep_def)
  from c have "x \<notin> set xs" by (rule chain_next_notin)
  then have "x = last (x # xs) \<longleftrightarrow> xs = []" by (auto split: if_splits)
  with hd c tl sz q \<open>x \<notin> set xs\<close> show ?thesis
    by (cases "xs = []") (auto simp: PopFront_def fl_rep_def)
qed

lemma Append_rep:
  assumes "fl_rep (h, l) xs" "fl_rep (h, m) ys" "set xs \<inter> set ys = {}"
  shows "\<exists>h' l' m'. Append h l m = Some (h', l', m') \<and> fl_rep (h', l') (xs @ ys) \<and> fl_rep (h', m') []"
proof -
  consider "ys = []" | "ys \<noteq> []" "xs = []" | "ys \<noteq> []" "xs \<noteq> []" by blast
  then show ?thesis
  proof cases
    case 1
    with assms show ?thesis by (simp add: Append_def fl_rep_IsEmpty)
  next
    case 2
    with assms show ?thesis
      by (simp add: Append_def fl_rep_IsEmpty) (simp add: fl_rep_def Reset_def)
  next
    case 3
    from assms have "chain (h(last xs := fl_head m)) (fl_head l) (xs @ ys)"
      by (intro chain_join) (auto simp: fl_rep_def 3)
    with 3 assms show ?thesis
      by (simp add: Append_def fl_rep_IsEmpty) (simp add: fl_rep_def Reset_def)
  qed
qed

lemma PushFront_rep:
  assumes "fl_rep (h, l) xs" "x \<notin> set xs" "h x = None"
  shows "fl_rep (PushFront x (h, l)) (x # xs)"
proof (cases "xs = []")
  case True
  with assms show ?thesis by (simp add: PushFront_def fl_rep_def IsEmpty_def)
next
  case False
  then obtain y ys where "xs = y # ys" by (cases xs) auto
  with assms show ?thesis by (auto simp: PushFront_def fl_rep_def IsEmpty_def)
qed

lemma ForEach_from_chain: "chain h p xs \<Longrightarrow> ForEach_from h p seen = Some (seen @ xs)"
proof (induction xs arbitrary: p seen)
  case Nil
  then show ?case by (simp add: ForEach_from.simps)
next
  case (Cons x xs)
  then show ?case by (subst ForEach_from.simps) simp
qed

lemma ForEach_rep: "fl_rep q xs \<Longrightarrow> ForEach q = Some xs"
  by (cases q) (auto simp: ForEach_def fl_rep_def dest: ForEach_from_chain [where seen = "[]"])

section \<open>The interface of the clients\<close>

text \<open>Pushing a sequence of nodes, and popping until \<open>PopFront\<close> returns \<open>nullptr\<close>.\<close>

primrec push_all :: "('n \<Rightarrow> 'q \<Rightarrow> 'q option) \<Rightarrow> 'n list \<Rightarrow> 'q \<Rightarrow> 'q option" where
  "push_all push [] q = Some q"
| "push_all push (x # xs) q = (case push x q of None \<Rightarrow> None | Some q' \<Rightarrow> push_all push xs q')"

fun pop_all :: "('q \<Rightarrow> 'n ptr \<times> 'q) \<Rightarrow> nat \<Rightarrow> 'q \<Rightarrow> ('n list \<times> 'q) option" where
  "pop_all pop 0 q = None"
| "pop_all pop (Suc fuel) q =
     (case pop q of
        (None, q') \<Rightarrow> Some ([], q')
      | (Some x, q') \<Rightarrow> map_option (map_prod (Cons x) id) (pop_all pop fuel q'))"

locale fifo =
  fixes rep :: "'q \<Rightarrow> 'n list \<Rightarrow> bool"
    and push :: "'n \<Rightarrow> 'q \<Rightarrow> 'q option"
    and pop :: "'q \<Rightarrow> 'n ptr \<times> 'q"
    and empty :: "'q \<Rightarrow> bool"
  assumes push_rep: "rep q xs \<Longrightarrow> x \<notin> set xs \<Longrightarrow> \<exists>q'. push x q = Some q' \<and> rep q' (xs @ [x])"
    and pop_nil: "rep q [] \<Longrightarrow> pop q = (None, q)"
    and pop_cons: "rep q (x # xs) \<Longrightarrow> \<exists>q'. pop q = (Some x, q') \<and> rep q' xs"
    and empty_rep: "rep q xs \<Longrightarrow> empty q \<longleftrightarrow> xs = []"
begin

lemma push_all_rep:
  "rep q xs \<Longrightarrow> distinct ys \<Longrightarrow> set xs \<inter> set ys = {} \<Longrightarrow>
     \<exists>q'. push_all push ys q = Some q' \<and> rep q' (xs @ ys)"
proof (induction ys arbitrary: q xs)
  case Nil
  then show ?case by simp
next
  case (Cons y ys)
  then obtain q' where p: "push y q = Some q'" and "rep q' (xs @ [y])"
    using push_rep [of q xs y] by auto
  with Cons.IH [of q' "xs @ [y]"] Cons.prems show ?case by auto
qed

lemma pop_all_rep:
  "rep q xs \<Longrightarrow> length xs < fuel \<Longrightarrow> \<exists>q'. pop_all pop fuel q = Some (xs, q') \<and> rep q' []"
proof (induction fuel arbitrary: q xs)
  case 0
  then show ?case by simp
next
  case (Suc fuel)
  show ?case
  proof (cases xs)
    case Nil
    with Suc.prems pop_nil show ?thesis by simp
  next
    case (Cons y ys)
    with Suc.prems obtain q' where "pop q = (Some y, q')" "rep q' ys"
      using pop_cons by blast
    with Suc.IH [of q' ys] Suc.prems Cons show ?thesis by auto
  qed
qed

lemma push_pop_all:
  assumes "rep q []" "distinct ys"
  shows "\<exists>q' q''. push_all push ys q = Some q' \<and> pop_all pop (Suc (length ys)) q' = Some (ys, q'')
    \<and> rep q'' []"
proof -
  from push_all_rep [OF assms] obtain q' where q': "push_all push ys q = Some q'" "rep q' ys" by auto
  have "\<exists>q''. pop_all pop (Suc (length ys)) q' = Some (ys, q'') \<and> rep q'' []"
    by (rule pop_all_rep [OF q'(2)]) simp
  with q' show ?thesis by blast
qed

end

interpretation linked: fifo fl_rep PushBack PopFront "\<lambda>q. IsEmpty (snd q)"
  by unfold_locales
    (auto dest: PushBack_rep PopFront_rep_Nil PopFront_rep_Cons fl_rep_IsEmpty)

section \<open>Plain lists\<close>

text \<open>The client models keep the abstract value of the list and use these operations on it.\<close>

definition list_PushBack :: "'n \<Rightarrow> 'n list \<Rightarrow> 'n list" where
  "list_PushBack x xs = xs @ [x]"

fun list_PopFront :: "'n list \<Rightarrow> 'n ptr \<times> 'n list" where
  "list_PopFront [] = (nullptr, [])"
| "list_PopFront (x # xs) = (Some x, xs)"

interpretation plain: fifo "(=)" "\<lambda>x q. Some (list_PushBack x q)" list_PopFront "\<lambda>q. q = []"
  by unfold_locales (auto simp: list_PushBack_def)

section \<open>Properties\<close>

text \<open>
  C33: on any store of \<open>next_\<close> fields, pushing distinct nodes on an empty intrusive list never
  dereferences a null pointer, and popping until the list reports empty returns exactly
  these nodes, in the order they were pushed.
\<close>

theorem forward_list_fifo:
  assumes "distinct nodes"
  shows "\<exists>q q'. push_all PushBack nodes (h, IntrusiveForwardList) = Some q \<and>
    pop_all PopFront (Suc (length nodes)) q = Some (nodes, q') \<and> IsEmpty (snd q')"
  using linked.push_pop_all [OF fl_rep_empty assms] linked.empty_rep by blast

theorem forward_list_fifo_witness:
  "distinct [3, 1, 2 :: nat] \<and>
   (\<exists>q q'. push_all PushBack [3, 1, 2] (\<lambda>n. Some 7, IntrusiveForwardList) = Some q \<and>
     pop_all PopFront 4 q = Some ([3, 1, 2 :: nat], q'))"
  using forward_list_fifo [of "[3, 1, 2 :: nat]" "\<lambda>n. Some 7"] by (auto simp: eval_nat_numeral)

text \<open>
  \<open>PushFront\<close> on an empty list leaves the \<open>next_\<close> field of the node as it was. With a
  node whose field is not null the list reports size one, but iterating visits a second node.
\<close>

lemma push_front_stale_next:
  "\<exists>q. PushFront (1 :: nat) ((\<lambda>_. None)(1 := Some 2), IntrusiveForwardList) = q \<and>
    Size (snd q) = 1 \<and> ForEach q = Some [1, 2]"
proof -
  have "chain ((\<lambda>_. None)(1 := Some 2)) (Some (1 :: nat)) [1, 2]" by simp
  from ForEach_from_chain [OF this, of "[]"] show ?thesis
    by (simp add: PushFront_def IntrusiveForwardList_def IsEmpty_def Size_def ForEach_def)
qed

end
