(* ===== verification/Blocking_Queue.thy ===== *)
theory Blocking_Queue
  imports Forward_List
begin

text \<open>
  \<open>thread/queue.hpp\<close>: the unbounded blocking queue of the compute thread pool.

  A step is one critical section of \<open>mutex_\<close>; \<open>CV.wait\<close> releases the mutex and falls asleep in
  the step that found its predicate false, and re-evaluates the predicate when woken, also
  spuriously. \<open>notify_one\<close> wakes one sleeping thread, if any, named by the event.
  \<open>bq_pushed\<close> and \<open>bq_popped\<close> are history: the items accepted and returned so far.
\<close>

datatype 't bq_pc = BQ_Out | BQ_Asleep | BQ_Notified | BQ_Got "'t option"

record 't bqueue =
  bq_queue :: "'t list"
  bq_closed :: bool
  bq_waiters :: nat
  bq_pcs :: "nat \<Rightarrow> 't bq_pc"
  bq_pushed :: "'t list"
  bq_popped :: "'t list"

datatype 't bq_ev = BQ_Push 't "nat option" | BQ_Pop nat | BQ_Resume nat | BQ_Spurious nat | BQ_Close

definition bq_init :: "'t bqueue" where
  "bq_init = \<lparr>bq_queue = [], bq_closed = False, bq_waiters = 0, bq_pcs = (\<lambda>_. BQ_Out),
     bq_pushed = [], bq_popped = []\<rparr>"

abbreviation bq_asleep :: "'t bqueue \<Rightarrow> nat set" where
  "bq_asleep s \<equiv> at_pc (bq_pcs s) BQ_Asleep"

abbreviation bq_notified :: "'t bqueue \<Rightarrow> nat set" where
  "bq_notified s \<equiv> at_pc (bq_pcs s) BQ_Notified"

definition bq_notify_one :: "nat option \<Rightarrow> 't bqueue \<Rightarrow> 't bqueue option" where
  "bq_notify_one choice s =
     (case choice of
        Some j \<Rightarrow> if bq_pcs s j = BQ_Asleep
                   then Some (s\<lparr>bq_pcs := (bq_pcs s)(j := BQ_Notified)\<rparr>) else None
      | None \<Rightarrow> if bq_asleep s = {} then Some s else None)"

definition bq_Push :: "'t \<Rightarrow> nat option \<Rightarrow> 't bqueue \<Rightarrow> 't bqueue option" where
  "bq_Push node choice s =
     (if bq_closed s then Some s
      else let s = s\<lparr>bq_queue := list_PushBack node (bq_queue s), bq_pushed := bq_pushed s @ [node]\<rparr>
           in if bq_waiters s > 0 then bq_notify_one choice s else Some s)"

text \<open>
  The predicate of \<open>CV.wait\<close> and, when it holds, the rest of \<open>Pop\<close>, in the same critical
  section.
\<close>

definition bq_check :: "nat \<Rightarrow> 't bqueue \<Rightarrow> 't bqueue" where
  "bq_check i s =
     (let stop = (bq_queue s \<noteq> [] \<or> bq_closed s)
      in if \<not> stop then s\<lparr>bq_pcs := (bq_pcs s)(i := BQ_Asleep)\<rparr>
         else let s = s\<lparr>bq_waiters := bq_waiters s - 1\<rparr>
              in if bq_closed s \<and> bq_queue s = []
                 then s\<lparr>bq_pcs := (bq_pcs s)(i := BQ_Got None)\<rparr>
                 else case list_PopFront (bq_queue s) of
                        (None, q) \<Rightarrow> s\<lparr>bq_pcs := (bq_pcs s)(i := BQ_Got None)\<rparr>
                      | (Some t, q) \<Rightarrow> s\<lparr>bq_queue := q, bq_popped := bq_popped s @ [t],
                                       bq_pcs := (bq_pcs s)(i := BQ_Got (Some t))\<rparr>)"

definition bq_Pop :: "nat \<Rightarrow> 't bqueue \<Rightarrow> 't bqueue" where
  "bq_Pop i s = bq_check i (s\<lparr>bq_waiters := bq_waiters s + 1\<rparr>)"

definition bq_Close :: "'t bqueue \<Rightarrow> 't bqueue" where
  "bq_Close s = s\<lparr>bq_closed := True,
     bq_pcs := (\<lambda>i. if bq_pcs s i = BQ_Asleep then BQ_Notified else bq_pcs s i)\<rparr>"

definition bq_inside :: "'t bqueue \<Rightarrow> nat \<Rightarrow> bool" where
  "bq_inside s i \<longleftrightarrow> bq_pcs s i = BQ_Asleep \<or> bq_pcs s i = BQ_Notified"

definition bq_step :: "'t bq_ev \<Rightarrow> 't bqueue \<Rightarrow> 't bqueue option" where
  "bq_step e s =
     (case e of
        BQ_Push t choice \<Rightarrow> bq_Push t choice s
      | BQ_Pop i \<Rightarrow> (if bq_inside s i then None else Some (bq_Pop i s))
      | BQ_Resume i \<Rightarrow> (if bq_pcs s i = BQ_Notified then Some (bq_check i s) else None)
      | BQ_Spurious i \<Rightarrow> (if bq_pcs s i = BQ_Asleep then Some (bq_check i s) else None)
      | BQ_Close \<Rightarrow> Some (bq_Close s))"

section \<open>Invariant\<close>

text \<open>
  While a thread sleeps there are at least as many notified threads as queued items, and a
  closed queue has no sleepers.
\<close>

definition bq_inv :: "'t bqueue \<Rightarrow> bool" where
  "bq_inv s \<longleftrightarrow>
     finite (bq_asleep s) \<and> finite (bq_notified s) \<and>
     bq_waiters s = card (bq_asleep s) + card (bq_notified s) \<and>
     (bq_asleep s \<noteq> {} \<longrightarrow> length (bq_queue s) \<le> card (bq_notified s) \<and> \<not> bq_closed s) \<and>
     bq_pushed s = bq_popped s @ bq_queue s"

lemma bq_notify_one_inv:
  assumes "finite (bq_asleep s)" "finite (bq_notified s)"
    "bq_waiters s = card (bq_asleep s) + card (bq_notified s)"
    "bq_asleep s \<noteq> {} \<longrightarrow> length (bq_queue s) \<le> Suc (card (bq_notified s)) \<and> \<not> bq_closed s"
    "bq_pushed s = bq_popped s @ bq_queue s"
    "bq_notify_one choice s = Some t"
  shows "bq_inv t"
proof (cases choice)
  case None
  with assms show ?thesis by (simp add: bq_notify_one_def bq_inv_def split: if_splits)
next
  case (Some j)
  with assms(6) have j: "bq_pcs s j = BQ_Asleep" and t: "t = s\<lparr>bq_pcs := (bq_pcs s)(j := BQ_Notified)\<rparr>"
    by (simp_all add: bq_notify_one_def split: if_splits)
  from j have jA: "j \<in> bq_asleep s" and jN: "j \<notin> bq_notified s" by (simp_all add: at_pc_iff)
  then have "bq_asleep s \<noteq> {}" "0 < card (bq_asleep s)"
    using assms(1) by (auto simp: card_gt_0_iff)
  with assms jA jN show ?thesis
    by (simp add: t bq_inv_def at_pc_upd)
qed

lemma bq_push_inv:
  assumes "bq_inv s" "bq_Push x choice s = Some t"
  shows "bq_inv t"
proof (cases "bq_closed s")
  case True
  with assms show ?thesis by (simp add: bq_Push_def)
next
  case False
  let ?s = "s\<lparr>bq_queue := list_PushBack x (bq_queue s), bq_pushed := bq_pushed s @ [x]\<rparr>"
  show ?thesis
  proof (cases "bq_waiters s > 0")
    case True
    with False assms(2) have "bq_notify_one choice ?s = Some t" by (simp add: bq_Push_def)
    then show ?thesis
      by (rule bq_notify_one_inv [rotated -1])
        (use assms(1) in \<open>simp_all add: bq_inv_def list_PushBack_def\<close>)
  next
    case w: False
    with assms(1) have "bq_asleep s = {}" by (simp add: bq_inv_def)
    with w False assms show ?thesis by (auto simp: bq_Push_def bq_inv_def list_PushBack_def)
  qed
qed

text \<open>
  One evaluation of the predicate by a thread already counted in \<open>waiters_\<close>; \<open>A\<close> and \<open>N\<close> are
  the other sleeping and notified threads.
\<close>

lemma bq_check_inv:
  assumes fin: "finite (bq_asleep s)" "finite (bq_notified s)"
    and cnt: "bq_waiters s = Suc (card (bq_asleep s - {i}) + card (bq_notified s - {i}))"
    and wake: "bq_asleep s - {i} \<noteq> {} \<longrightarrow> length (bq_queue s) \<le> Suc (card (bq_notified s - {i})) \<and> \<not> bq_closed s"
    and hist: "bq_pushed s = bq_popped s @ bq_queue s"
  shows "bq_inv (bq_check i s)"
proof (cases "bq_queue s")
  case Nil
  show ?thesis
  proof (cases "bq_closed s")
    case True
    with Nil assms show ?thesis by (simp add: bq_check_def bq_inv_def at_pc_upd)
  next
    case False
    have "card (insert i (bq_asleep s)) = Suc (card (bq_asleep s - {i}))"
      using fin by (simp add: card.insert_remove)
    with False Nil assms show ?thesis by (simp add: bq_check_def bq_inv_def at_pc_upd)
  qed
next
  case (Cons x xs)
  with assms show ?thesis by (simp add: bq_check_def bq_inv_def at_pc_upd)
qed

lemma bq_pop_inv:
  assumes "bq_inv s" "\<not> bq_inside s i"
  shows "bq_inv (bq_Pop i s)"
proof -
  from assms(2) have "bq_asleep s - {i} = bq_asleep s" "bq_notified s - {i} = bq_notified s"
    by (auto simp: bq_inside_def at_pc_def)
  with assms(1) show ?thesis
    unfolding bq_Pop_def by (intro bq_check_inv) (simp_all add: bq_inv_def le_SucI)
qed

lemma bq_resume_inv:
  assumes "bq_inv s" "bq_pcs s i = BQ_Notified"
  shows "bq_inv (bq_check i s)"
proof -
  from assms(2) have "bq_asleep s - {i} = bq_asleep s" and i: "i \<in> bq_notified s"
    by (auto simp: at_pc_def)
  moreover have "card (bq_notified s) = Suc (card (bq_notified s - {i}))"
    using i assms(1) by (intro card.remove) (simp_all add: bq_inv_def)
  ultimately show ?thesis
    using assms(1) by (intro bq_check_inv) (clarsimp simp: bq_inv_def)+
qed

lemma bq_spurious_inv:
  assumes "bq_inv s" "bq_pcs s i = BQ_Asleep"
  shows "bq_inv (bq_check i s)"
proof -
  from assms(2) have N: "bq_notified s - {i} = bq_notified s" and i: "i \<in> bq_asleep s"
    by (auto simp: at_pc_def)
  then have "bq_asleep s \<noteq> {}" by blast
  moreover have "card (bq_asleep s) = Suc (card (bq_asleep s - {i}))"
    using i assms(1) by (intro card.remove) (simp_all add: bq_inv_def)
  ultimately show ?thesis
    using assms(1) N by (intro bq_check_inv) (simp_all add: bq_inv_def le_SucI)
qed

lemma bq_close_inv:
  assumes "bq_inv s"
  shows "bq_inv (bq_Close s)"
proof -
  have "bq_asleep (bq_Close s) = {}" by (auto simp: bq_Close_def at_pc_def)
  moreover have "bq_notified (bq_Close s) = bq_asleep s \<union> bq_notified s"
    by (auto simp: bq_Close_def at_pc_def)
  moreover have "bq_asleep s \<inter> bq_notified s = {}" by (auto simp: at_pc_def)
  ultimately show ?thesis
    using assms by (simp add: bq_inv_def card_Un_disjoint) (simp add: bq_Close_def)
qed

lemma bq_inv_step:
  assumes "bq_inv s" "bq_step e s = Some t"
  shows "bq_inv t"
  using assms
  by (cases e)
    (auto simp: bq_step_def split: if_splits
      intro: bq_push_inv bq_pop_inv bq_resume_inv bq_spurious_inv bq_close_inv)

interpretation bq: transition_invariant bq_step bq_init bq_inv
proof
  show "bq_inv bq_init" by (simp add: bq_inv_def bq_init_def at_pc_const)
qed (rule bq_inv_step)

section \<open>Refinement of a closable FIFO\<close>

datatype 't cq_ev = CQ_Push 't | CQ_Pop | CQ_Close

fun closable_fifo_step :: "'t cq_ev \<Rightarrow> 't list \<times> bool \<Rightarrow> ('t list \<times> bool) option" where
  "closable_fifo_step (CQ_Push x) (q, closed) = (if closed then None else Some (q @ [x], False))"
| "closable_fifo_step CQ_Pop (q, closed) = (if q = [] then None else Some (tl q, closed))"
| "closable_fifo_step CQ_Close (q, closed) = Some (q, True)"

definition bq_abs :: "'t bqueue \<Rightarrow> 't list \<times> bool" where
  "bq_abs s = (bq_queue s, bq_closed s)"

lemma bq_check_abs: "bq_abs (bq_check i s) = bq_abs s \<or> closable_fifo_step CQ_Pop (bq_abs s) = Some (bq_abs (bq_check i s))"
  by (cases "bq_queue s") (auto simp: bq_check_def bq_abs_def)

lemma bq_Push_abs:
  "bq_Push x choice s = Some t \<Longrightarrow> bq_abs t = bq_abs s \<or> closable_fifo_step (CQ_Push x) (bq_abs s) = Some (bq_abs t)"
  by (auto simp: bq_Push_def bq_notify_one_def bq_abs_def list_PushBack_def Let_def split: if_splits option.splits)

interpretation bq_fifo: forward_simulation bq_step bq_init bq_inv closable_fifo_step "([], False)" bq_abs
proof
  fix s t :: "'a bqueue" and e
  assume "bq_step e s = Some t"
  then show "bq_abs t = bq_abs s \<or> (\<exists>f. closable_fifo_step f (bq_abs s) = Some (bq_abs t))"
  proof (cases e)
    case (BQ_Push x choice)
    with \<open>bq_step e s = Some t\<close> bq_Push_abs [of x choice s t] show ?thesis by (auto simp: bq_step_def)
  next
    case (BQ_Pop i)
    have "bq_abs (s\<lparr>bq_waiters := bq_waiters s + 1\<rparr>) = bq_abs s" by (simp add: bq_abs_def)
    with BQ_Pop \<open>bq_step e s = Some t\<close> bq_check_abs [of i "s\<lparr>bq_waiters := bq_waiters s + 1\<rparr>"] show ?thesis
      by (auto simp: bq_step_def bq_Pop_def split: if_splits)
  next
    case (BQ_Resume i)
    with \<open>bq_step e s = Some t\<close> bq_check_abs [of i s] show ?thesis by (auto simp: bq_step_def split: if_splits)
  next
    case (BQ_Spurious i)
    with \<open>bq_step e s = Some t\<close> bq_check_abs [of i s] show ?thesis by (auto simp: bq_step_def split: if_splits)
  next
    case BQ_Close
    with \<open>bq_step e s = Some t\<close> have "closable_fifo_step CQ_Close (bq_abs s) = Some (bq_abs t)"
      by (auto simp: bq_step_def bq_Close_def bq_abs_def)
    then show ?thesis by blast
  qed
qed (simp add: bq_abs_def bq_init_def)

section \<open>Properties\<close>

text \<open>
  C29: the blocking queue is FIFO and loses no wakeup. In every reachable state the items accepted
  by \<open>Push\<close> are, in order, the items returned by \<open>Pop\<close> followed by the queued ones, the queue is in
  a state of a FIFO that accepts no item once it is closed, and a thread
  can be asleep in \<open>Pop\<close> only while the queue is open and every queued item has a notified
  consumer of its own on its way.
\<close>

theorem blocking_queue_fifo_no_lost_wakeup:
  assumes "reachable bq_step bq_init s"
  shows "bq_pushed s = bq_popped s @ bq_queue s \<and> reachable closable_fifo_step ([], False) (bq_queue s, bq_closed s) \<and>
    (bq_pcs s i = BQ_Asleep \<longrightarrow>
       \<not> bq_closed s \<and> length (bq_queue s) \<le> card {j. bq_pcs s j = BQ_Notified})"
proof -
  from assms have inv: "bq_inv s" by (rule bq.reachable_inv)
  moreover have "bq_pcs s i = BQ_Asleep \<Longrightarrow> bq_asleep s \<noteq> {}" by (auto simp: at_pc_def)
  moreover have "reachable closable_fifo_step ([], False) (bq_queue s, bq_closed s)"
    using bq_fifo.reachable_abs [OF assms] by (simp add: bq_abs_def)
  ultimately show ?thesis by (simp add: bq_inv_def flip: at_pc_def)
qed

theorem blocking_queue_fifo_no_lost_wakeup_witness:
  "\<exists>s. reachable bq_step bq_init s \<and> bq_pcs s 0 = BQ_Asleep \<and> bq_queue s = [7::nat] \<and>
       bq_pushed s = bq_popped s @ [7] \<and> 1 \<le> card {j. bq_pcs s j = BQ_Notified}"
proof -
  obtain s :: "nat bqueue" where s: "exec bq_step bq_init [BQ_Pop 0, BQ_Pop 1, BQ_Push 7 (Some 1)] = Some s"
    "bq_pcs s 0 = BQ_Asleep" "bq_queue s = [7]"
    by (simp add: bq_step_def bq_init_def bq_Pop_def bq_check_def bq_Push_def bq_notify_one_def
      bq_inside_def list_PushBack_def)
  from s(1) have r: "reachable bq_step bq_init s" by (rule exec_reachable)
  from blocking_queue_fifo_no_lost_wakeup [OF r, of 0] r s(2,3) show ?thesis
    by (intro exI [of _ s]) simp
qed

text \<open>
  \<open>Close\<close> drains. Once the queue is closed nobody sleeps in \<open>Pop\<close>, \<open>Push\<close> drops its item
  without a trace, and a \<open>Pop\<close> returns at once: the oldest queued item, or \<open>nullopt\<close> exactly
  when the queue is empty.
\<close>

lemma blocking_queue_close_drains:
  assumes "reachable bq_step bq_init s" "bq_closed s" "\<not> bq_inside s i"
  shows "bq_pcs s j \<noteq> BQ_Asleep \<and> bq_step (BQ_Push x choice) s = Some s \<and>
    (\<exists>t. bq_step (BQ_Pop i) s = Some t \<and> bq_queue t = tl (bq_queue s) \<and> bq_waiters t = bq_waiters s \<and>
         bq_pcs t i = BQ_Got (if bq_queue s = [] then None else Some (hd (bq_queue s))))"
proof -
  from assms(1) have inv: "bq_inv s" by (rule bq.reachable_inv)
  with assms(2) have "bq_asleep s = {}" by (simp add: bq_inv_def)
  then have "bq_pcs s j \<noteq> BQ_Asleep" by (auto simp: at_pc_def)
  then show ?thesis
    using assms(2,3)
    by (cases "bq_queue s") (simp_all add: bq_step_def bq_Push_def bq_Pop_def bq_check_def)
qed

end
