(* ===== verification/Compute_Pool.thy ===== *)
theory Compute_Pool
  imports Blocking_Queue
begin

text \<open>
  \<open>sched/tp/compute/thread_pool.{hpp,cpp}\<close>: the thread pool whose workers share one blocking
  queue.

  The pool is composed of the blocking queue's machine and of one program counter per worker.
  A task's body is the interval between \<open>TW_Run t\<close> and the event \<open>TP_Return\<close>; whatever it
  submits in between are \<open>TP_Submit\<close> events. \<open>tp_ran\<close> lists the tasks whose \<open>Run\<close> has returned.
  \<open>tp_threads\<close> is the size of \<open>threads_\<close>: zero until \<open>Start\<close>, which is called at most once and
  not after \<open>Stop\<close>. A task that throws reaches \<open>std::abort\<close>, after which nothing happens.
\<close>

datatype 't tw_pc = TW_NotStarted | TW_Loop | TW_Pop | TW_Run 't | TW_Return

datatype tp_stop_pc = Stop_NotCalled | Stop_Join nat | Stop_Done

record 't cpool =
  n_threads :: nat
  tp_threads :: nat
  task_queue :: "'t bqueue"
  tp_workers :: "nat \<Rightarrow> 't tw_pc"
  tp_stop :: tp_stop_pc
  tp_stopped :: bool
  tp_aborted :: bool
  tp_ran :: "'t list"

datatype 't tp_ev =
    TP_Start
  | TP_Submit 't "nat option"
  | TP_Pop nat
  | TP_Wake nat
  | TP_Return nat
  | TP_Throw nat
  | TP_Stop
  | TP_Join

definition ComputePool :: "nat \<Rightarrow> 't cpool" where
  "ComputePool threads = \<lparr>n_threads = threads, tp_threads = 0, task_queue = bq_init, tp_workers = (\<lambda>_. TW_NotStarted),
     tp_stop = Stop_NotCalled, tp_stopped = False, tp_aborted = False, tp_ran = []\<rparr>"

definition cp_Start :: "'t cpool \<Rightarrow> 't cpool" where
  "cp_Start s = s\<lparr>tp_threads := n_threads s,
     tp_workers := (\<lambda>i. if i < n_threads s then TW_Loop else tp_workers s i)\<rparr>"

definition cp_Submit :: "'t \<Rightarrow> nat option \<Rightarrow> 't cpool \<Rightarrow> 't cpool option" where
  "cp_Submit task choice s =
     (case bq_step (BQ_Push task choice) (task_queue s) of
        None \<Rightarrow> None | Some q \<Rightarrow> Some (s\<lparr>task_queue := q\<rparr>))"

text \<open>What the worker lambda does with the outcome of its call of \<open>Pop\<close>.\<close>

definition worker_after_pop :: "nat \<Rightarrow> 't bqueue \<Rightarrow> 't cpool \<Rightarrow> 't cpool" where
  "worker_after_pop i q s =
     s\<lparr>task_queue := q, tp_workers := (tp_workers s)(i :=
        (case bq_pcs q i of
           BQ_Got None \<Rightarrow> TW_Return
         | BQ_Got (Some t) \<Rightarrow> TW_Run t
         | _ \<Rightarrow> TW_Pop))\<rparr>"

definition worker_pop :: "nat \<Rightarrow> 't bq_ev \<Rightarrow> 't cpool \<Rightarrow> 't cpool option" where
  "worker_pop i e s = map_option (\<lambda>q. worker_after_pop i q s) (bq_step e (task_queue s))"

definition worker_task_done :: "nat \<Rightarrow> 't cpool \<Rightarrow> 't cpool option" where
  "worker_task_done i s =
     (case tp_workers s i of
        TW_Run t \<Rightarrow> Some (s\<lparr>tp_workers := (tp_workers s)(i := TW_Loop), tp_ran := tp_ran s @ [t]\<rparr>)
      | _ \<Rightarrow> None)"

definition cp_Stop_close :: "'t cpool \<Rightarrow> 't cpool option" where
  "cp_Stop_close s =
     (if tp_stop s = Stop_NotCalled
      then Some (s\<lparr>task_queue := bq_Close (task_queue s), tp_stop := Stop_Join 0\<rparr>) else None)"

definition cp_Stop_join :: "'t cpool \<Rightarrow> 't cpool option" where
  "cp_Stop_join s =
     (case tp_stop s of
        Stop_Join k \<Rightarrow>
          if k < tp_threads s
          then if tp_workers s k = TW_Return then Some (s\<lparr>tp_stop := Stop_Join (k + 1)\<rparr>) else None
          else Some (s\<lparr>tp_stop := Stop_Done, tp_stopped := True\<rparr>)
      | _ \<Rightarrow> None)"

definition cp_step :: "'t tp_ev \<Rightarrow> 't cpool \<Rightarrow> 't cpool option" where
  "cp_step e s =
     (if tp_aborted s then None else
      case e of
        TP_Start \<Rightarrow> if tp_stop s = Stop_NotCalled \<and> tp_threads s = 0
                     then Some (cp_Start s) else None
      | TP_Submit t choice \<Rightarrow> cp_Submit t choice s
      | TP_Pop i \<Rightarrow> if tp_workers s i = TW_Loop then worker_pop i (BQ_Pop i) s else None
      | TP_Wake i \<Rightarrow> if tp_workers s i = TW_Pop
                      then worker_pop i (if bq_pcs (task_queue s) i = BQ_Notified
                                         then BQ_Resume i else BQ_Spurious i) s
                      else None
      | TP_Return i \<Rightarrow> worker_task_done i s
      | TP_Throw i \<Rightarrow> (case tp_workers s i of TW_Run t \<Rightarrow> Some (s\<lparr>tp_aborted := True\<rparr>) | _ \<Rightarrow> None)
      | TP_Stop \<Rightarrow> cp_Stop_close s
      | TP_Join \<Rightarrow> cp_Stop_join s)"

text \<open>The destructor's assertion.\<close>

definition cp_destroy :: "'t cpool \<Rightarrow> unit option" where
  "cp_destroy s = (if tp_stopped s then Some () else None)"

section \<open>Invariant\<close>

fun tw_tasks :: "'t tw_pc \<Rightarrow> 't multiset" where
  "tw_tasks (TW_Run t) = {#t#}"
| "tw_tasks _ = {#}"

definition tp_running :: "'t cpool \<Rightarrow> 't multiset" where
  "tp_running s = (\<Sum>i<tp_threads s. tw_tasks (tp_workers s i))"

fun cp_stop_inv :: "tp_stop_pc \<Rightarrow> 't cpool \<Rightarrow> bool" where
  "cp_stop_inv Stop_NotCalled s \<longleftrightarrow> \<not> tp_stopped s"
| "cp_stop_inv (Stop_Join k) s \<longleftrightarrow> \<not> tp_stopped s \<and> bq_closed (task_queue s) \<and>
     k \<le> tp_threads s \<and> (\<forall>i<k. tp_workers s i = TW_Return)"
| "cp_stop_inv Stop_Done s \<longleftrightarrow> bq_closed (task_queue s) \<and> (\<forall>i<tp_threads s. tp_workers s i = TW_Return)"

definition cp_inv :: "'t cpool \<Rightarrow> bool" where
  "cp_inv s \<longleftrightarrow>
     bq_inv (task_queue s) \<and>
     (\<forall>i. bq_inside (task_queue s) i \<longleftrightarrow> tp_workers s i = TW_Pop) \<and>
     (\<forall>i. tp_workers s i = TW_Return \<longrightarrow> bq_closed (task_queue s) \<and> bq_queue (task_queue s) = []) \<and>
     (\<forall>i. tp_threads s \<le> i \<longrightarrow> tp_workers s i = TW_NotStarted) \<and>
     (tp_threads s = 0 \<or> tp_threads s = n_threads s) \<and>
     mset (bq_popped (task_queue s)) = mset (tp_ran s) + tp_running s \<and>
     cp_stop_inv (tp_stop s) s"

text \<open>What the queue's operations leave alone.\<close>

lemma bq_push_frame:
  assumes "bq_Push x choice q = Some q'"
  shows "bq_inside q' = bq_inside q" "bq_popped q' = bq_popped q" "bq_closed q' = bq_closed q"
    "bq_closed q \<Longrightarrow> bq_queue q' = bq_queue q"
  using assms
  by (auto simp: bq_Push_def bq_notify_one_def bq_inside_def Let_def fun_eq_iff split: if_splits option.splits)

lemma bq_close_frame:
  "bq_inside (bq_Close q) = bq_inside q" "bq_popped (bq_Close q) = bq_popped q"
  "bq_closed (bq_Close q)" "bq_queue (bq_Close q) = bq_queue q"
  by (auto simp: bq_Close_def bq_inside_def fun_eq_iff)

lemma bq_check_frame:
  "bq_closed (bq_check i q) = bq_closed q" "j \<noteq> i \<Longrightarrow> bq_pcs (bq_check i q) j = bq_pcs q j"
  by (simp_all add: bq_check_def Let_def split: option.splits prod.splits)

lemma bq_check_outcome:
  obtains (sleep) "bq_pcs (bq_check i q) i = BQ_Asleep" "\<not> bq_closed q"
      "bq_popped (bq_check i q) = bq_popped q" "bq_queue (bq_check i q) = bq_queue q"
  | (empty) "bq_pcs (bq_check i q) i = BQ_Got None" "bq_closed q" "bq_queue q = []"
      "bq_popped (bq_check i q) = bq_popped q" "bq_queue (bq_check i q) = []"
  | (item) t where "bq_pcs (bq_check i q) i = BQ_Got (Some t)" "bq_queue q = t # bq_queue (bq_check i q)"
      "bq_popped (bq_check i q) = bq_popped q @ [t]"
  by (cases "bq_queue q"; cases "bq_closed q") (simp_all add: bq_check_def)

lemma bq_step_pop_check:
  assumes "bq_step e q = Some q'" "e \<in> {BQ_Pop i, BQ_Resume i, BQ_Spurious i}"
  obtains w where "q' = bq_check i (q\<lparr>bq_waiters := w\<rparr>)"
  using assms that [of "Suc (bq_waiters q)"] that [of "bq_waiters q"]
  by (auto simp: bq_step_def bq_Pop_def split: if_splits)

lemma tp_running_upd:
  assumes "i < tp_threads s"
  shows "tp_running (s\<lparr>task_queue := q, tp_workers := (tp_workers s)(i := p)\<rparr>) + tw_tasks (tp_workers s i)
    = tp_running s + tw_tasks p"
  using sum_fun_upd [OF assms, of tw_tasks "tp_workers s" p] by (simp add: tp_running_def)

lemma cp_stop_inv_queue:
  assumes "cp_stop_inv p s" "bq_closed (task_queue s) \<longrightarrow> bq_closed q"
  shows "cp_stop_inv p (s\<lparr>task_queue := q\<rparr>)"
  using assms by (cases p) auto

lemma cp_stop_inv_worker:
  assumes "cp_stop_inv p s" "tp_workers s i \<noteq> TW_Return" "bq_closed (task_queue s) \<longrightarrow> bq_closed q"
  shows "cp_stop_inv p (s\<lparr>task_queue := q, tp_workers := (tp_workers s)(i := w)\<rparr>)"
  using assms by (cases p) (auto simp: nat_less_le)

lemma cp_submit_inv:
  assumes "cp_inv s" "cp_Submit x choice s = Some t"
  shows "cp_inv t"
proof -
  from assms(2) obtain q where q: "bq_Push x choice (task_queue s) = Some q" and t: "t = s\<lparr>task_queue := q\<rparr>"
    by (auto simp: cp_Submit_def bq_step_def split: option.splits)
  have "bq_inv q" using assms(1) q by (auto simp: cp_inv_def intro: bq_push_inv)
  then show ?thesis
    using assms(1) bq_push_frame [OF q] cp_stop_inv_queue [of "tp_stop s" s q]
    by (auto simp: cp_inv_def t tp_running_def)
qed

lemma cp_close_inv:
  assumes "cp_inv s" "cp_Stop_close s = Some t"
  shows "cp_inv t"
  using assms by (auto simp: cp_Stop_close_def cp_inv_def bq_close_frame bq_close_inv tp_running_def split: if_splits)

lemma cp_join_inv:
  assumes "cp_inv s" "cp_Stop_join s = Some t"
  shows "cp_inv t"
  using assms
  by (auto simp: cp_Stop_join_def cp_inv_def tp_running_def less_Suc_eq split: if_splits tp_stop_pc.splits)

lemma cp_start_inv:
  assumes "cp_inv s" "tp_threads s = 0" "tp_stop s = Stop_NotCalled"
  shows "cp_inv (cp_Start s)"
  using assms by (auto simp: cp_inv_def cp_Start_def tp_running_def)

lemma cp_task_done_inv:
  assumes "cp_inv s" "worker_task_done i s = Some t"
  shows "cp_inv t"
proof -
  from assms(2) obtain x where x: "tp_workers s i = TW_Run x"
    and t: "t = s\<lparr>tp_workers := (tp_workers s)(i := TW_Loop), tp_ran := tp_ran s @ [x]\<rparr>"
    by (auto simp: worker_task_done_def split: tw_pc.splits)
  have i: "i < tp_threads s"
  proof (rule ccontr)
    assume "\<not> i < tp_threads s"
    with assms(1) have "tp_workers s i = TW_NotStarted" by (simp add: cp_inv_def)
    with x show False by simp
  qed
  have "tp_running t + {#x#} = tp_running s"
    using tp_running_upd [OF i, where q = "task_queue s" and p = TW_Loop] by (simp add: x t tp_running_def)
  moreover have "cp_stop_inv (tp_stop t) t"
    using assms(1) cp_stop_inv_worker [of "tp_stop s" s i "task_queue s" TW_Loop]
    by (cases "tp_stop s") (auto simp: cp_inv_def t x)
  moreover have "bq_inside (task_queue s) i \<longleftrightarrow> False" using assms(1) x by (simp add: cp_inv_def)
  ultimately show ?thesis
    using assms(1) i by (auto simp: cp_inv_def t)
qed

lemma worker_pop_inv:
  assumes inv: "cp_inv s" and w: "tp_workers s i = TW_Loop \<or> tp_workers s i = TW_Pop"
    and e: "e \<in> {BQ_Pop i, BQ_Resume i, BQ_Spurious i}" and "worker_pop i e s = Some t"
  shows "cp_inv t"
proof -
  from assms(4) obtain q where q: "bq_step e (task_queue s) = Some q" and t: "t = worker_after_pop i q s"
    by (auto simp: worker_pop_def)
  from inv q have qinv: "bq_inv q" by (auto simp: cp_inv_def intro: bq_inv_step)
  from q e obtain n where q': "q = bq_check i (task_queue s\<lparr>bq_waiters := n\<rparr>)" by (rule bq_step_pop_check)
  have closed: "bq_closed q = bq_closed (task_queue s)"
    and others: "\<And>j. j \<noteq> i \<Longrightarrow> bq_inside q j = bq_inside (task_queue s) j"
    by (simp_all add: q' bq_check_frame bq_inside_def)
  have i: "i < tp_threads s" using inv w by (auto simp: cp_inv_def not_less [symmetric])
  have run: "tp_running (s\<lparr>task_queue := q, tp_workers := (tp_workers s)(i := p)\<rparr>) = tp_running s + tw_tasks p" for p
    using tp_running_upd [OF i, where q = q and p = p] w by auto
  have stop: "cp_stop_inv (tp_stop s) (s\<lparr>task_queue := q, tp_workers := (tp_workers s)(i := p)\<rparr>)" for p
    using inv w closed by (intro cp_stop_inv_worker) (auto simp: cp_inv_def)
  show ?thesis
  proof (rule bq_check_outcome [of i "task_queue s\<lparr>bq_waiters := n\<rparr>"], fold q')
    assume *: "bq_pcs q i = BQ_Asleep" "bq_popped q = bq_popped (task_queue s\<lparr>bq_waiters := n\<rparr>)"
      "bq_queue q = bq_queue (task_queue s\<lparr>bq_waiters := n\<rparr>)"
    then have "bq_inside q i" by (simp add: bq_inside_def)
    with * inv qinv closed others run [of TW_Pop] stop [of TW_Pop] i show ?thesis
      by (auto simp: t worker_after_pop_def cp_inv_def)
  next
    assume *: "bq_pcs q i = BQ_Got None" "bq_closed (task_queue s\<lparr>bq_waiters := n\<rparr>)"
      "bq_popped q = bq_popped (task_queue s\<lparr>bq_waiters := n\<rparr>)" "bq_queue q = []"
    then have "\<not> bq_inside q i" by (simp add: bq_inside_def)
    with * inv qinv closed others run [of TW_Return] stop [of TW_Return] i show ?thesis
      by (auto simp: t worker_after_pop_def cp_inv_def)
  next
    fix x assume *: "bq_pcs q i = BQ_Got (Some x)"
      "bq_queue (task_queue s\<lparr>bq_waiters := n\<rparr>) = x # bq_queue q"
      "bq_popped q = bq_popped (task_queue s\<lparr>bq_waiters := n\<rparr>) @ [x]"
    then have "\<not> bq_inside q i" by (simp add: bq_inside_def)
    with * inv qinv closed others run [of "TW_Run x"] stop [of "TW_Run x"] i show ?thesis
      by (auto simp: t worker_after_pop_def cp_inv_def)
  qed
qed

lemma cp_inv_step:
  assumes "cp_inv s" "cp_step e s = Some t"
  shows "cp_inv t"
proof (cases e)
  case (TP_Throw i)
  then have "t = s\<lparr>tp_aborted := True\<rparr>"
    using assms(2) by (auto simp: cp_step_def split: if_splits tw_pc.splits)
  moreover have "cp_stop_inv p (s\<lparr>tp_aborted := True\<rparr>) = cp_stop_inv p s" for p by (cases p) auto
  ultimately show ?thesis using assms(1) by (simp add: cp_inv_def tp_running_def)
qed (use assms in \<open>auto simp: cp_step_def split: if_splits
      intro: cp_submit_inv cp_close_inv cp_join_inv cp_start_inv cp_task_done_inv worker_pop_inv\<close>)

interpretation cpool: transition_invariant cp_step "ComputePool n" cp_inv
proof
  show "cp_inv (ComputePool n)"
    by (simp add: cp_inv_def ComputePool_def tp_running_def bq_init_def bq_inside_def bq_inv_def at_pc_const)
qed (rule cp_inv_step)

section \<open>Properties\<close>

text \<open>
  C28: stopping the compute pool runs every accepted task exactly once. When \<open>Stop\<close> of a started
  pool with at least one worker has returned, the queue is empty, every worker has left its
  loop, and the multiset of tasks that ran is the multiset of tasks the queue accepted.
\<close>

theorem compute_pool_stop_runs_all:
  assumes "reachable cp_step (ComputePool n) s" "tp_stop s = Stop_Done" "0 < tp_threads s"
  shows "bq_queue (task_queue s) = [] \<and> (\<forall>i. i < tp_threads s \<longrightarrow> tp_workers s i = TW_Return) \<and>
    mset (tp_ran s) = mset (bq_pushed (task_queue s))"
proof -
  from assms(1) have inv: "cp_inv s" by (rule cpool.reachable_inv)
  with assms(2) have ret: "\<And>i. i < tp_threads s \<Longrightarrow> tp_workers s i = TW_Return" by (simp add: cp_inv_def)
  with assms(3) have "tp_workers s 0 = TW_Return" by simp
  with inv have empty: "bq_queue (task_queue s) = []" by (auto simp: cp_inv_def)
  have "tp_running s = {#}" by (simp add: tp_running_def ret)
  with inv empty ret show ?thesis by (simp add: cp_inv_def bq_inv_def)
qed

theorem compute_pool_stop_runs_all_witness:
  "\<exists>s. reachable cp_step (ComputePool 2) s \<and> tp_stop s = Stop_Done \<and>
       mset (tp_ran s) = {#5, 6::nat#} \<and> mset (tp_ran s) = mset (bq_pushed (task_queue s))"
proof -
  obtain s :: "nat cpool" where s: "exec cp_step (ComputePool 2)
      [TP_Start, TP_Pop 0, TP_Submit 5 (Some 0), TP_Submit 6 None, TP_Pop 1, TP_Wake 0, TP_Return 0,
       TP_Return 1, TP_Pop 1, TP_Stop, TP_Wake 1, TP_Pop 0, TP_Join, TP_Join, TP_Join] = Some s"
    "tp_stop s = Stop_Done" "0 < tp_threads s" "bq_pushed (task_queue s) = [5, 6]"
    by (simp add: cp_step_def ComputePool_def cp_Start_def cp_Submit_def worker_pop_def worker_after_pop_def
        worker_task_done_def cp_Stop_close_def cp_Stop_join_def bq_step_def bq_init_def bq_Push_def
        bq_Pop_def bq_check_def bq_Close_def bq_notify_one_def bq_inside_def list_PushBack_def at_pc_def)
  from s(1) have r: "reachable cp_step (ComputePool 2) s" by (rule exec_reachable)
  from r s(2,4) compute_pool_stop_runs_all [OF r s(2,3)] show ?thesis by (intro exI [of _ s]) simp
qed

text \<open>
  The tasks a single worker has taken, in order, are the tasks that ran and the one running.
\<close>

fun tw_task_list :: "'t tw_pc \<Rightarrow> 't list" where
  "tw_task_list (TW_Run t) = [t]"
| "tw_task_list _ = []"

definition cp_single_inv :: "'t cpool \<Rightarrow> bool" where
  "cp_single_inv s \<longleftrightarrow> cp_inv s \<and> n_threads s = 1 \<and>
     bq_popped (task_queue s) = tp_ran s @ tw_task_list (tp_workers s 0)"

lemma cp_running_worker:
  assumes "cp_inv s" "tp_workers s i \<noteq> TW_NotStarted"
  shows "i < n_threads s"
  using assms by (auto simp: cp_inv_def not_less [symmetric])

lemma cp_single_pop:
  assumes "bq_popped (task_queue s) = tp_ran s @ tw_task_list (tp_workers s i)"
    "tp_workers s i = TW_Loop \<or> tp_workers s i = TW_Pop"
    "e \<in> {BQ_Pop i, BQ_Resume i, BQ_Spurious i}" "worker_pop i e s = Some t"
  shows "bq_popped (task_queue t) = tp_ran t @ tw_task_list (tp_workers t i) \<and> n_threads t = n_threads s"
proof -
  from assms(4) obtain q where q: "bq_step e (task_queue s) = Some q" and t: "t = worker_after_pop i q s"
    by (auto simp: worker_pop_def)
  from q assms(3) obtain n where q': "q = bq_check i (task_queue s\<lparr>bq_waiters := n\<rparr>)" by (rule bq_step_pop_check)
  show ?thesis
    by (rule bq_check_outcome [of i "task_queue s\<lparr>bq_waiters := n\<rparr>"], fold q')
      (use assms(1,2) in \<open>auto simp: t worker_after_pop_def\<close>)
qed

lemma cp_single_step:
  assumes "cp_single_inv s" "cp_step e s = Some t"
  shows "cp_single_inv t"
proof -
  from assms have inv: "cp_inv s" and inv': "cp_inv t"
    by (auto simp: cp_single_inv_def intro: cp_inv_step)
  have zero: "tp_workers s i \<noteq> TW_NotStarted \<Longrightarrow> i = 0" for i
    using cp_running_worker [OF inv, of i] assms(1) by (auto simp: cp_single_inv_def)
  have "n_threads t = 1 \<and> bq_popped (task_queue t) = tp_ran t @ tw_task_list (tp_workers t 0)"
  proof (cases e)
    case (TP_Submit x choice)
    with assms show ?thesis
      by (auto simp: cp_step_def cp_Submit_def bq_step_def cp_single_inv_def bq_push_frame
          split: if_splits option.splits)
  next
    case (TP_Pop i)
    with zero [of i] assms cp_single_pop [of s 0 "BQ_Pop 0" t] show ?thesis
      by (auto simp: cp_step_def cp_single_inv_def split: if_splits)
  next
    case (TP_Wake i)
    with zero [of i] assms cp_single_pop [of s 0 "BQ_Resume 0" t] cp_single_pop [of s 0 "BQ_Spurious 0" t]
    show ?thesis by (auto simp: cp_step_def cp_single_inv_def split: if_splits)
  next
    case (TP_Return i)
    with zero [of i] assms show ?thesis
      by (auto simp: cp_step_def worker_task_done_def cp_single_inv_def split: if_splits tw_pc.splits)
  next
    case TP_Start
    with inv assms show ?thesis by (auto simp: cp_step_def cp_Start_def cp_single_inv_def cp_inv_def split: if_splits)
  next
    case (TP_Throw i)
    with assms show ?thesis by (auto simp: cp_step_def cp_single_inv_def split: if_splits tw_pc.splits)
  qed (use assms in \<open>auto simp: cp_step_def cp_Stop_close_def cp_Stop_join_def cp_single_inv_def bq_close_frame
          split: if_splits tp_stop_pc.splits\<close>)
  with inv' show ?thesis by (simp add: cp_single_inv_def)
qed

interpretation cpool1: transition_invariant cp_step "ComputePool 1" cp_single_inv
proof
  show "cp_single_inv (ComputePool 1)"
    using cpool.inv_init [of 1] by (simp add: cp_single_inv_def ComputePool_def bq_init_def)
qed (rule cp_single_step)

text \<open>
  a compute pool with one worker is a serial executor: in every reachable state the tasks
  that ran, followed by the running and the queued ones, are the accepted tasks in submission
  order.
\<close>

lemma compute_pool_single_worker_fifo:
  assumes "reachable cp_step (ComputePool 1) s"
  shows "bq_pushed (task_queue s) =
    tp_ran s @ tw_task_list (tp_workers s 0) @ bq_queue (task_queue s)"
  using cpool1.reachable_inv [OF assms] by (simp add: cp_single_inv_def cp_inv_def bq_inv_def)

end
