(* ===== verification/Work_Stealing_Queue.thy ===== *)
theory Work_Stealing_Queue
  imports Prelude
begin

text \<open>
  \<open>sched/tp/fast/queues/work_stealing_queue.hpp\<close>: the single-producer, multi-consumer ring
  buffer of a fast-pool worker.

  Every atomic load, store, \<open>fetch_add\<close> and \<open>compare_exchange_strong\<close> is one step of the thread
  that makes it; the computation on local variables up to the next atomic operation belongs to
  the step. The counters are 64-bit words. \<open>C\<close> is the template argument \<open>Capacity\<close>.
  \<open>wq_pushed\<close> and \<open>wq_taken\<close> are history: the tasks published by \<open>fetch_add\<close> on \<open>tail_\<close>, and the
  pointers handed out by the calls whose exchange of \<open>head_\<close> succeeded.
\<close>

datatype 't push_pc =
    WP_Idle "bool option"
  | WP_Head 't u64
  | WP_Store 't u64
  | WP_Add 't

datatype 't take_pc =
    WC_Idle "'t ptr list"
  | Pop_Tail u64
  | Pop_Read u64
  | Pop_Cas u64 "'t ptr"
  | Grab_Tail "'t ptr list"
  | Grab_Head "'t ptr list" u64
  | Grab_Read "'t ptr list" u64 u64 nat nat
  | Grab_Cas "'t ptr list" u64 u64 nat

record 't wsq =
  wq_head :: u64
  wq_tail :: u64
  wq_buffer :: "nat \<Rightarrow> 't ptr"
  wq_producer :: "'t push_pc"
  wq_consumers :: "nat \<Rightarrow> 't take_pc"
  wq_pushed :: "'t list"
  wq_taken :: "'t ptr list"

datatype 't wsq_ev =
    WQ_TryPush 't | WQ_Producer
  | WQ_TryPop nat | WQ_Grab nat "'t ptr list" | WQ_Consumer nat

definition wsq_init :: "'t wsq" where
  "wsq_init = \<lparr>wq_head = 0, wq_tail = 0, wq_buffer = (\<lambda>_. nullptr), wq_producer = WP_Idle None,
     wq_consumers = (\<lambda>_. WC_Idle []), wq_pushed = [], wq_taken = []\<rparr>"

section \<open>Producer\<close>

text \<open>\<open>TryPush\<close>: the first load, then the steps after it.\<close>

definition wsq_TryPush :: "'t \<Rightarrow> 't wsq \<Rightarrow> 't wsq option" where
  "wsq_TryPush task s =
     (case wq_producer s of
        WP_Idle _ \<Rightarrow> Some (s\<lparr>wq_producer := WP_Head task (wq_tail s)\<rparr>)
      | _ \<Rightarrow> None)"

definition wsq_TryPush_step :: "nat \<Rightarrow> 't wsq \<Rightarrow> 't wsq option" where
  "wsq_TryPush_step C s =
     (case wq_producer s of
        WP_Idle _ \<Rightarrow> None
      | WP_Head task current_tail \<Rightarrow>
          if unat (current_tail - wq_head s) = C
          then Some (s\<lparr>wq_producer := WP_Idle (Some False)\<rparr>)
          else Some (s\<lparr>wq_producer := WP_Store task current_tail\<rparr>)
      | WP_Store task current_tail \<Rightarrow>
          Some (s\<lparr>wq_buffer := (wq_buffer s)(unat current_tail mod C := Some task),
                  wq_producer := WP_Add task\<rparr>)
      | WP_Add task \<Rightarrow>
          Some (s\<lparr>wq_tail := wq_tail s + 1, wq_producer := WP_Idle (Some True),
                  wq_pushed := wq_pushed s @ [task]\<rparr>))"

section \<open>Consumers\<close>

definition wc_goto :: "nat \<Rightarrow> 't take_pc \<Rightarrow> 't wsq \<Rightarrow> 't wsq" where
  "wc_goto i p s = s\<lparr>wq_consumers := (wq_consumers s)(i := p)\<rparr>"

definition wsq_TryPop :: "nat \<Rightarrow> 't wsq \<Rightarrow> 't wsq option" where
  "wsq_TryPop i s =
     (case wq_consumers s i of
        WC_Idle _ \<Rightarrow> Some (wc_goto i (Pop_Tail (wq_head s)) s)
      | _ \<Rightarrow> None)"

text \<open>The loop of \<open>Grab\<close> is entered with the caller's \<open>out_buffer\<close>.\<close>

definition wsq_Grab :: "nat \<Rightarrow> 't ptr list \<Rightarrow> 't wsq \<Rightarrow> 't wsq option" where
  "wsq_Grab i out_buffer s =
     (case wq_consumers s i of
        WC_Idle _ \<Rightarrow> Some (wc_goto i (Grab_Tail out_buffer) s)
      | _ \<Rightarrow> None)"

text \<open>From the load of \<open>head_\<close> to the first buffer read: lines 60 to 66.\<close>

definition grab_plan :: "'t ptr list \<Rightarrow> u64 \<Rightarrow> u64 \<Rightarrow> 't take_pc" where
  "grab_plan out_buffer new_head old_head =
     (let max_grab = min (of_nat (length out_buffer)) (new_head - old_head);
          new_head = min new_head (old_head + max_grab)
      in if max_grab = 0 then WC_Idle [] else Grab_Read out_buffer old_head new_head (unat max_grab) 0)"

text \<open>The entry to the exchange loop: with \<open>old_head >= new_head\<close> the outer loop restarts.\<close>

definition grab_enter_cas :: "'t ptr list \<Rightarrow> u64 \<Rightarrow> u64 \<Rightarrow> nat \<Rightarrow> 't take_pc" where
  "grab_enter_cas out_buffer old_head new_head max_grab =
     (if old_head < new_head then Grab_Cas out_buffer old_head new_head max_grab
      else Grab_Tail out_buffer)"

text \<open>The in-place shift of lines 84 to 86.\<close>

fun grab_shift :: "nat \<Rightarrow> nat \<Rightarrow> nat \<Rightarrow> 'a list \<Rightarrow> 'a list" where
  "grab_shift off i 0 out = out"
| "grab_shift off i (Suc n) out = grab_shift off (Suc i) n (out[i := out ! (off + i)])"

text \<open>One step of a consumer inside \<open>TryPop\<close> or \<open>Grab\<close>.\<close>

definition wsq_take_step :: "nat \<Rightarrow> nat \<Rightarrow> 't wsq \<Rightarrow> 't wsq option" where
  "wsq_take_step C i s =
     (case wq_consumers s i of
        WC_Idle _ \<Rightarrow> None
      | Pop_Tail old_head \<Rightarrow>
          Some (wc_goto i (if wq_tail s = old_head then WC_Idle [] else Pop_Read old_head) s)
      | Pop_Read old_head \<Rightarrow>
          Some (wc_goto i (Pop_Cas old_head (wq_buffer s (unat old_head mod C))) s)
      | Pop_Cas old_head task \<Rightarrow>
          if wq_head s = old_head
          then Some (wc_goto i (WC_Idle [task])
                      (s\<lparr>wq_head := old_head + 1, wq_taken := wq_taken s @ [task]\<rparr>))
          else Some (wc_goto i (Pop_Tail (wq_head s)) s)
      | Grab_Tail out_buffer \<Rightarrow> Some (wc_goto i (Grab_Head out_buffer (wq_tail s)) s)
      | Grab_Head out_buffer new_head \<Rightarrow> Some (wc_goto i (grab_plan out_buffer new_head (wq_head s)) s)
      | Grab_Read out_buffer old_head new_head max_grab k \<Rightarrow>
          let out_buffer = out_buffer[k := wq_buffer s (unat (old_head + of_nat k) mod C)]
          in Some (wc_goto i (if Suc k < max_grab
                              then Grab_Read out_buffer old_head new_head max_grab (Suc k)
                              else grab_enter_cas out_buffer old_head new_head max_grab) s)
      | Grab_Cas out_buffer old_head new_head max_grab \<Rightarrow>
          if wq_head s = old_head
          then let grabbed = unat (new_head - old_head);
                   out_buffer = grab_shift (max_grab - grabbed) 0 grabbed out_buffer
               in Some (wc_goto i (WC_Idle (take grabbed out_buffer))
                         (s\<lparr>wq_head := new_head, wq_taken := wq_taken s @ take grabbed out_buffer\<rparr>))
          else Some (wc_goto i (grab_enter_cas out_buffer (wq_head s) new_head max_grab) s))"

definition wsq_step :: "nat \<Rightarrow> 't wsq_ev \<Rightarrow> 't wsq \<Rightarrow> 't wsq option" where
  "wsq_step C e s =
     (case e of
        WQ_TryPush task \<Rightarrow> wsq_TryPush task s
      | WQ_Producer \<Rightarrow> wsq_TryPush_step C s
      | WQ_TryPop i \<Rightarrow> wsq_TryPop i s
      | WQ_Grab i out_buffer \<Rightarrow> wsq_Grab i out_buffer s
      | WQ_Consumer i \<Rightarrow> wsq_take_step C i s)"

text \<open>\<open>SizeEstimate\<close>, with the two loads taken in states \<open>s\<close> and \<open>t\<close>.\<close>

definition wsq_SizeEstimate :: "'t wsq \<Rightarrow> 't wsq \<Rightarrow> u64" where
  "wsq_SizeEstimate s t = wq_tail t - wq_head s"

section \<open>Invariant\<close>

text \<open>
  What a consumer knows of the history \<open>P\<close> of pushed tasks when the current head is \<open>H\<close>. A value
  read from the buffer is right for every position that is still at or after the head.
\<close>

definition grab_reads :: "nat \<Rightarrow> 't list \<Rightarrow> 't ptr list \<Rightarrow> nat \<Rightarrow> nat \<Rightarrow> bool" where
  "grab_reads H P out from k \<longleftrightarrow>
     (\<forall>j<k. H \<le> from + j \<longrightarrow> from + j < length P \<longrightarrow> out ! j = Some (P ! (from + j)))"

fun take_ok :: "nat \<Rightarrow> 't list \<Rightarrow> 't take_pc \<Rightarrow> bool" where
  "take_ok H P (WC_Idle _) \<longleftrightarrow> True"
| "take_ok H P (Pop_Tail oh) \<longleftrightarrow> unat oh \<le> H"
| "take_ok H P (Pop_Read oh) \<longleftrightarrow> unat oh \<le> H \<and> unat oh < length P"
| "take_ok H P (Pop_Cas oh v) \<longleftrightarrow> unat oh \<le> H \<and> unat oh < length P \<and>
     (unat oh = H \<longrightarrow> v = Some (P ! H))"
| "take_ok H P (Grab_Tail out) \<longleftrightarrow> True"
| "take_ok H P (Grab_Head out nh) \<longleftrightarrow> unat nh \<le> length P"
| "take_ok H P (Grab_Read out oh nh mg k) \<longleftrightarrow> unat oh \<le> H \<and> unat nh \<le> length P \<and>
     mg \<le> length out \<and> k < mg \<and>
     (oh < nh \<longrightarrow> unat nh = unat oh + mg \<and> grab_reads H P out (unat oh) k)"
| "take_ok H P (Grab_Cas out oh nh mg) \<longleftrightarrow> unat oh \<le> H \<and> unat nh \<le> length P \<and> oh < nh \<and>
     mg \<le> length out \<and> mg \<le> unat nh \<and> unat nh - mg \<le> unat oh \<and> grab_reads H P out (unat nh - mg) mg"

fun push_ok :: "nat \<Rightarrow> 't wsq \<Rightarrow> 't push_pc \<Rightarrow> bool" where
  "push_ok C s (WP_Idle _) \<longleftrightarrow> True"
| "push_ok C s (WP_Head t ct) \<longleftrightarrow> ct = wq_tail s"
| "push_ok C s (WP_Store t ct) \<longleftrightarrow> ct = wq_tail s \<and> unat (wq_tail s) < unat (wq_head s) + C"
| "push_ok C s (WP_Add t) \<longleftrightarrow> unat (wq_tail s) < unat (wq_head s) + C \<and>
     wq_buffer s (unat (wq_tail s) mod C) = Some t"

definition wsq_ok :: "nat \<Rightarrow> 't wsq \<Rightarrow> bool" where
  "wsq_ok C s \<longleftrightarrow>
     unat (wq_tail s) = length (wq_pushed s) \<and>
     unat (wq_head s) \<le> unat (wq_tail s) \<and>
     unat (wq_tail s) \<le> unat (wq_head s) + C \<and>
     wq_taken s = map Some (take (unat (wq_head s)) (wq_pushed s)) \<and>
     (\<forall>p. unat (wq_head s) \<le> p \<longrightarrow> p < unat (wq_tail s) \<longrightarrow> wq_buffer s (p mod C) = Some (wq_pushed s ! p)) \<and>
     push_ok C s (wq_producer s) \<and>
     (\<forall>i. take_ok (unat (wq_head s)) (wq_pushed s) (wq_consumers s i))"

text \<open>Fewer than \<open>2^64\<close> tasks were pushed, so that the counters have not wrapped around.\<close>

definition wsq_inv :: "nat \<Rightarrow> 't wsq \<Rightarrow> bool" where
  "wsq_inv C s \<longleftrightarrow> (length (wq_pushed s) < 2 ^ 64 \<longrightarrow> wsq_ok C s)"

lemma u64_unat_inc: "unat (w :: u64) + 1 < 2 ^ 64 \<Longrightarrow> unat (w + 1) = unat w + 1"
  by (simp add: unat_word_ariths)

lemma u64_unat_add_of_nat: "unat (w :: u64) + n < 2 ^ 64 \<Longrightarrow> unat (w + of_nat n) = unat w + n"
  by (simp add: unat_word_ariths unat_of_nat)

lemma grab_reads_mono:
  "grab_reads H P out from k \<Longrightarrow> H \<le> H' \<Longrightarrow> from + k \<le> length P \<Longrightarrow> grab_reads H' (P @ Q) out from k"
  by (auto simp: grab_reads_def nth_append)

text \<open>Other threads move the head forward and append to the history.\<close>

lemma take_ok_mono:
  assumes "take_ok H P pc" "H \<le> H'" "H' \<le> length P"
  shows "take_ok H' (P @ Q) pc"
proof (cases pc)
  case (Pop_Cas oh v)
  show ?thesis
  proof (cases "unat oh = H'")
    case True
    with assms Pop_Cas have "H = H'" by simp
    with assms(1) Pop_Cas show ?thesis by (simp add: nth_append)
  next
    case False
    with assms Pop_Cas show ?thesis by simp
  qed
next
  case (Grab_Read out oh nh mg k)
  with assms grab_reads_mono [of H P out "unat oh" k H' Q] show ?thesis by clarsimp
next
  case (Grab_Cas out oh nh mg)
  with assms grab_reads_mono [of H P out "unat nh - mg" mg H' Q] show ?thesis by clarsimp
qed (use assms in \<open>simp_all add: nth_append\<close>)

lemma take_ok_grab_plan:
  assumes "unat nh \<le> length P" "unat oh = H"
  shows "take_ok H P (grab_plan out nh oh)"
proof -
  define mg where "mg = min (of_nat (length out)) (nh - oh)"
  have "unat (of_nat (length out) :: u64) \<le> length out" by (simp add: unat_of_nat)
  moreover have "unat mg \<le> unat (of_nat (length out) :: u64)" by (simp add: mg_def flip: word_le_nat_alt)
  ultimately have len: "unat mg \<le> length out" by linarith
  have plan: "grab_plan out nh oh =
      (if mg = 0 then WC_Idle [] else Grab_Read out oh (min nh (oh + mg)) (unat mg) 0)"
    by (simp add: grab_plan_def mg_def Let_def)
  have nh: "unat (min nh (oh + mg)) \<le> length P"
    using assms(1) min.cobounded1 [of nh "oh + mg"] unfolding word_le_nat_alt by linarith
  have "unat (min nh (oh + mg)) = unat oh + unat mg" if "oh < min nh (oh + mg)"
  proof -
    from that have "oh < nh" by simp
    then have "unat (nh - oh) = unat nh - unat oh" "unat oh < unat nh"
      by (simp_all add: unat_sub order_less_imp_le word_less_nat_alt)
    moreover have "unat mg \<le> unat (nh - oh)" by (simp add: mg_def flip: word_le_nat_alt)
    moreover have "unat nh < 2 ^ 64" using unsigned_less [of nh] by simp
    ultimately have sum: "unat (oh + mg) = unat oh + unat mg" and le: "unat (oh + mg) \<le> unat nh"
      by (simp_all add: unat_word_ariths)
    from le have "min nh (oh + mg) = oh + mg" by (simp add: min_absorb2 word_le_nat_alt)
    with sum show ?thesis by simp
  qed
  moreover have "mg \<noteq> 0 \<Longrightarrow> 0 < unat mg" by (simp add: unat_gt_0)
  ultimately show ?thesis
    using assms(2) len nh unfolding plan by (simp add: grab_reads_def)
qed

lemma grab_shift_take:
  assumes "off + i + n \<le> length out"
  shows "length (grab_shift off i n out) = length out \<and>
    take (i + n) (grab_shift off i n out) = take i out @ take n (drop (off + i) out)"
  using assms
proof (induction n arbitrary: i out)
  case (Suc n)
  let ?out = "out[i := out ! (off + i)]"
  have "take (Suc i) ?out = take i out @ [out ! (off + i)]"
    using Suc.prems by (simp add: take_Suc_conv_app_nth)
  moreover have "drop (off + Suc i) ?out = drop (off + Suc i) out" by simp
  moreover have "take (Suc n) (drop (off + i) out) = out ! (off + i) # take n (drop (off + Suc i) out)"
    using Suc.prems by (simp add: hd_drop_nth)
  ultimately show ?case using Suc.IH [of "Suc i" ?out] Suc.prems by simp
qed simp

lemma push_ok_goto [simp]: "push_ok C (wc_goto i p s) q = push_ok C s q"
  by (cases q) (simp_all add: wc_goto_def)

lemma wsq_ok_goto:
  assumes "wsq_ok C s" "take_ok (unat (wq_head s)) (wq_pushed s) p"
  shows "wsq_ok C (wc_goto i p s)"
  using assms push_ok_goto [of C i p s "wq_producer s"] by (simp add: wsq_ok_def wc_goto_def)

text \<open>A successful exchange of the head that hands out the next \<open>h - head\<close> tasks.\<close>

lemma wsq_ok_advance:
  assumes "wsq_ok C s" "unat (wq_head s) \<le> unat h" "unat h \<le> length (wq_pushed s)"
    and "vs = map Some (take (unat h - unat (wq_head s)) (drop (unat (wq_head s)) (wq_pushed s)))"
  shows "wsq_ok C (s\<lparr>wq_head := h, wq_taken := wq_taken s @ vs\<rparr>)"
proof -
  let ?t = "s\<lparr>wq_head := h, wq_taken := wq_taken s @ vs\<rparr>"
  have "push_ok C s (wq_producer s)" using assms(1) by (simp add: wsq_ok_def)
  then have push: "push_ok C ?t (wq_producer s)"
    using assms(2) by (cases "wq_producer s") simp_all
  have consumers: "take_ok (unat h) (wq_pushed s) (wq_consumers s i)" for i
    using assms take_ok_mono [of "unat (wq_head s)" "wq_pushed s" "wq_consumers s i" "unat h" "[]"]
    by (simp add: wsq_ok_def)
  have "take (unat h) (wq_pushed s) = take (unat (wq_head s)) (wq_pushed s) @
      take (unat h - unat (wq_head s)) (drop (unat (wq_head s)) (wq_pushed s))"
    using assms(2) by (metis le_add_diff_inverse take_add)
  then have taken: "wq_taken ?t = map Some (take (unat h) (wq_pushed s))"
    using assms(1,4) by (simp add: wsq_ok_def)
  show ?thesis
    using assms push consumers taken by (simp add: wsq_ok_def)
qed

lemma wsq_store_ok:
  assumes "wsq_ok C s" "wq_producer s = WP_Store task ct"
  shows "wsq_ok C (s\<lparr>wq_buffer := (wq_buffer s)(unat ct mod C := Some task), wq_producer := WP_Add task\<rparr>)"
proof -
  from assms have ct: "ct = wq_tail s" and room: "unat (wq_tail s) < unat (wq_head s) + C"
    by (simp_all add: wsq_ok_def)
  have "p mod C \<noteq> unat ct mod C" if "unat (wq_head s) \<le> p" "p < unat (wq_tail s)" for p
    using mod_inj_window [of p C "unat ct"] that room ct by auto
  with assms ct room show ?thesis by (simp add: wsq_ok_def)
qed

lemma wsq_add_ok:
  assumes "wsq_ok C s" "wq_producer s = WP_Add task" "length (wq_pushed s) + 1 < 2 ^ 64"
  shows "wsq_ok C (s\<lparr>wq_tail := wq_tail s + 1, wq_producer := WP_Idle (Some True),
                     wq_pushed := wq_pushed s @ [task]\<rparr>)"
proof -
  from assms have T: "unat (wq_tail s + 1) = Suc (length (wq_pushed s))" "unat (wq_tail s) = length (wq_pushed s)"
    using u64_unat_inc [of "wq_tail s"] by (simp_all add: wsq_ok_def)
  have le: "unat (wq_head s) \<le> length (wq_pushed s)" using assms(1) T(2) by (simp add: wsq_ok_def)
  have "take_ok (unat (wq_head s)) (wq_pushed s @ [task]) (wq_consumers s i)" for i
    using assms(1) le by (intro take_ok_mono) (auto simp: wsq_ok_def)
  with assms T le show ?thesis by (auto simp: wsq_ok_def nth_append less_Suc_eq)
qed

lemma wsq_producer_ok:
  assumes "wsq_ok C s" "wsq_TryPush_step C s = Some t" "length (wq_pushed t) < 2 ^ 64"
  shows "wsq_ok C t"
proof (cases "wq_producer s")
  case (WP_Head task ct)
  with assms(1) have ct: "ct = wq_tail s" and "unat (wq_head s) \<le> unat (wq_tail s)" by (simp_all add: wsq_ok_def)
  then have "unat (ct - wq_head s) = unat (wq_tail s) - unat (wq_head s)"
    by (simp add: unat_sub word_le_nat_alt)
  with assms WP_Head ct show ?thesis by (auto simp: wsq_TryPush_step_def wsq_ok_def split: if_splits)
next
  case (WP_Store task ct)
  with assms wsq_store_ok [of C s task ct] show ?thesis by (simp add: wsq_TryPush_step_def)
next
  case (WP_Add task)
  with assms wsq_add_ok [of C s task] show ?thesis by (auto simp: wsq_TryPush_step_def)
qed (use assms(2) in \<open>simp add: wsq_TryPush_step_def\<close>)

lemma wsq_okD:
  assumes "wsq_ok C s"
  shows "unat (wq_tail s) = length (wq_pushed s)" "unat (wq_head s) \<le> length (wq_pushed s)"
    "take_ok (unat (wq_head s)) (wq_pushed s) (wq_consumers s i)"
    "unat (wq_head s) \<le> p \<Longrightarrow> p < length (wq_pushed s) \<Longrightarrow> wq_buffer s (p mod C) = Some (wq_pushed s ! p)"
  using assms by (simp_all add: wsq_ok_def)

lemma grab_reads_step:
  assumes "grab_reads H P out from k" "k < length out"
    and "H \<le> from + k \<Longrightarrow> from + k < length P \<Longrightarrow> v = Some (P ! (from + k))"
  shows "grab_reads H P (out[k := v]) from (Suc k)"
  using assms by (auto simp: grab_reads_def less_Suc_eq)

lemma wsq_grab_read_ok:
  assumes ok: "wsq_ok C s" and pc: "wq_consumers s i = Grab_Read out oh nh mg k"
    and v: "v = wq_buffer s (unat (oh + of_nat k) mod C)"
  shows "take_ok (unat (wq_head s)) (wq_pushed s)
    (if Suc k < mg then Grab_Read (out[k := v]) oh nh mg (Suc k) else grab_enter_cas (out[k := v]) oh nh mg)"
proof -
  note pc_ok = wsq_okD(3) [OF ok, of i, unfolded pc, simplified]
  show ?thesis
  proof (cases "oh < nh")
    case True
    with pc_ok have nh: "unat nh = unat oh + mg" "grab_reads (unat (wq_head s)) (wq_pushed s) out (unat oh) k"
      "k < mg" "mg \<le> length out" "unat nh \<le> length (wq_pushed s)" by blast+
    moreover have "unat nh < 2 ^ 64" using unsigned_less [of nh] by simp
    ultimately have "unat (oh + of_nat k) = unat oh + k" by (intro u64_unat_add_of_nat) linarith
    then have "grab_reads (unat (wq_head s)) (wq_pushed s) (out[k := v]) (unat oh) (Suc k)"
      using nh by (intro grab_reads_step) (simp_all add: v wsq_okD(4) [OF ok])
    with True pc_ok nh show ?thesis
      by (cases "Suc k = mg") (simp_all add: grab_enter_cas_def)
  next
    case False
    with pc_ok show ?thesis by (simp add: grab_enter_cas_def)
  qed
qed

lemma wsq_grab_values:
  assumes "grab_reads H P out (nh - mg) mg" "nh - mg \<le> H" "H \<le> nh" "mg \<le> nh" "nh \<le> length P" "mg \<le> length out"
  shows "take (nh - H) (drop (mg - (nh - H)) out) = map Some (take (nh - H) (drop H P))"
proof (rule nth_equalityI)
  show "length (take (nh - H) (drop (mg - (nh - H)) out)) = length (map Some (take (nh - H) (drop H P)))"
    using assms by simp
  fix j assume "j < length (take (nh - H) (drop (mg - (nh - H)) out))"
  then have j: "j < nh - H" by simp
  with assms have "out ! (mg - (nh - H) + j) = Some (P ! (nh - mg + (mg - (nh - H) + j)))"
    unfolding grab_reads_def by (elim allE [where x = "mg - (nh - H) + j"]) simp
  moreover have "nh - mg + (mg - (nh - H) + j) = H + j" using assms j by simp
  ultimately show "take (nh - H) (drop (mg - (nh - H)) out) ! j = map Some (take (nh - H) (drop H P)) ! j"
    using assms j by (simp add: add.commute)
qed

lemma wsq_grab_cas_ok:
  assumes ok: "wsq_ok C s" and pc: "wq_consumers s i = Grab_Cas out oh nh mg" and head: "wq_head s = oh"
  defines "n \<equiv> unat (nh - oh)"
  defines "vs \<equiv> take n (grab_shift (mg - n) 0 n out)"
  shows "wsq_ok C (s\<lparr>wq_head := nh, wq_taken := wq_taken s @ vs\<rparr>)"
proof -
  note pc_ok = wsq_okD(3) [OF ok, of i, unfolded pc, simplified]
  then have lt: "unat oh < unat nh" by (simp add: word_less_nat_alt)
  have n: "n = unat nh - unat oh" using pc_ok by (simp add: n_def unat_sub order_less_imp_le)
  with pc_ok have "mg - n + 0 + n \<le> length out" by linarith
  from grab_shift_take [OF this] have "vs = take n (drop (mg - n) out)" by (simp add: vs_def)
  also have "\<dots> = map Some (take n (drop (unat oh) (wq_pushed s)))"
    using wsq_grab_values [of "unat oh" "wq_pushed s" out "unat nh" mg] pc_ok lt unfolding n head by simp
  finally show ?thesis
    using lt pc_ok by (intro wsq_ok_advance ok) (simp_all add: head n)
qed

lemma wsq_pop_cas_ok:
  assumes ok: "wsq_ok C s" and pc: "wq_consumers s i = Pop_Cas oh v" and head: "wq_head s = oh"
    and bound: "length (wq_pushed s) < 2 ^ 64"
  shows "wsq_ok C (s\<lparr>wq_head := oh + 1, wq_taken := wq_taken s @ [v]\<rparr>)"
proof -
  note pc_ok = wsq_okD(3) [OF ok, of i, unfolded pc, simplified]
  then have "unat (oh + 1) = unat oh + 1" using bound by (intro u64_unat_inc) linarith
  moreover have "take 1 (drop (unat oh) (wq_pushed s)) = [wq_pushed s ! unat oh]"
    using pc_ok by (simp add: hd_drop_nth)
  ultimately show ?thesis
    using pc_ok by (intro wsq_ok_advance ok) (simp_all add: head)
qed

lemma wsq_consumer_ok:
  assumes ok: "wsq_ok C s" and st: "wsq_take_step C i s = Some t" and bound: "length (wq_pushed s) < 2 ^ 64"
  shows "wsq_ok C t"
proof (cases "wq_consumers s i")
  case (Pop_Tail oh)
  with wsq_okD(3) [OF ok, of i] have "unat oh \<le> unat (wq_head s)" by simp
  then have "wq_tail s \<noteq> oh \<Longrightarrow> unat oh < length (wq_pushed s)"
    using wsq_okD(1,2) [OF ok] by (metis le_neq_implies_less order_trans word_unat_eq_iff)
  with Pop_Tail st ok wsq_okD(3) [OF ok, of i] show ?thesis
    by (auto simp: wsq_take_step_def intro!: wsq_ok_goto)
next
  case (Pop_Read oh)
  with st ok wsq_okD(3) [OF ok, of i] wsq_okD(4) [OF ok, of "unat (wq_head s)"] show ?thesis
    by (auto simp: wsq_take_step_def intro!: wsq_ok_goto)
next
  case (Pop_Cas oh v)
  with st ok wsq_pop_cas_ok [OF ok Pop_Cas _ bound] show ?thesis
    by (auto simp: wsq_take_step_def intro!: wsq_ok_goto split: if_splits)
next
  case (Grab_Tail out)
  with st ok wsq_okD(1) [OF ok] show ?thesis
    by (auto simp: wsq_take_step_def intro!: wsq_ok_goto)
next
  case (Grab_Head out nh)
  with st ok wsq_okD(3) [OF ok, of i] show ?thesis
    by (auto simp: wsq_take_step_def intro!: wsq_ok_goto take_ok_grab_plan)
next
  case (Grab_Read out oh nh mg k)
  with st ok wsq_grab_read_ok [OF ok Grab_Read refl] show ?thesis
    by (auto simp: wsq_take_step_def Let_def intro!: wsq_ok_goto)
next
  case (Grab_Cas out oh nh mg)
  with wsq_okD(3) [OF ok, of i] have "take_ok (unat (wq_head s)) (wq_pushed s) (grab_enter_cas out (wq_head s) nh mg)"
    by (simp add: grab_enter_cas_def)
  with st ok Grab_Cas wsq_grab_cas_ok [OF ok Grab_Cas] show ?thesis
    by (auto simp: wsq_take_step_def Let_def intro!: wsq_ok_goto split: if_splits)
qed (use st in \<open>simp add: wsq_take_step_def\<close>)

lemma wsq_pushed_mono:
  assumes "wsq_step C e s = Some t"
  shows "length (wq_pushed s) \<le> length (wq_pushed t)"
  using assms
  by (auto simp: wsq_step_def wsq_TryPush_def wsq_TryPush_step_def wsq_TryPop_def wsq_Grab_def
      wsq_take_step_def wc_goto_def Let_def split: wsq_ev.splits push_pc.splits take_pc.splits if_splits)

lemma wsq_start_push_ok:
  assumes "wsq_ok C s" "wsq_TryPush task s = Some t"
  shows "wsq_ok C t"
  using assms by (simp add: wsq_TryPush_def wsq_ok_def split: push_pc.splits) auto

lemma wsq_start_take_ok:
  assumes "wsq_ok C s"
  shows "wsq_TryPop i s = Some t \<Longrightarrow> wsq_ok C t" "wsq_Grab i out s = Some t \<Longrightarrow> wsq_ok C t"
  using wsq_ok_goto [OF assms]
  by (auto simp: wsq_TryPop_def wsq_Grab_def split: take_pc.splits)

lemma wsq_ok_step:
  assumes "wsq_ok C s" "wsq_step C e s = Some t" "length (wq_pushed t) < 2 ^ 64"
  shows "wsq_ok C t"
  using assms wsq_pushed_mono [OF assms(2)]
  by (cases e) (auto simp: wsq_step_def intro: wsq_start_push_ok wsq_start_take_ok wsq_producer_ok wsq_consumer_ok)

lemma wsq_inv_step:
  assumes "wsq_inv C s" "wsq_step C e s = Some t"
  shows "wsq_inv C t"
  using assms wsq_pushed_mono [OF assms(2)] wsq_ok_step [OF _ assms(2)] by (simp add: wsq_inv_def)

interpretation wsq: transition_invariant "wsq_step C" wsq_init "wsq_inv C"
proof
  show "wsq_inv C (wsq_init :: 'a wsq)" by (simp add: wsq_inv_def wsq_ok_def wsq_init_def)
qed (rule wsq_inv_step)

section \<open>Refinement of a bounded FIFO\<close>

datatype 't fifo_ev = AQ_Push 't | AQ_Take nat

fun bounded_fifo_step :: "nat \<Rightarrow> 't fifo_ev \<Rightarrow> 't list \<Rightarrow> 't list option" where
  "bounded_fifo_step C (AQ_Push x) q = (if length q < C then Some (q @ [x]) else None)"
| "bounded_fifo_step C (AQ_Take n) q = (if n \<le> length q then Some (drop n q) else None)"

text \<open>The published tasks that nobody has taken.\<close>

definition wsq_abs :: "'t wsq \<Rightarrow> 't list" where
  "wsq_abs s = drop (length (wq_taken s)) (wq_pushed s)"

lemma wsq_abs_ok:
  assumes "wsq_ok C s"
  shows "wsq_abs s = drop (unat (wq_head s)) (wq_pushed s)" "length (wq_taken s) = unat (wq_head s)"
    "length (wsq_abs s) = unat (wq_tail s) - unat (wq_head s)"
    "wq_taken s = map Some (take (length (wq_taken s)) (wq_pushed s))"
  using assms by (simp_all add: wsq_ok_def wsq_abs_def)

lemma wsq_taken_abs:
  assumes "wsq_ok C s" "wsq_ok C t" "wq_pushed t = wq_pushed s" "wq_taken t = wq_taken s @ vs"
  shows "bounded_fifo_step C (AQ_Take (length vs)) (wsq_abs s) = Some (wsq_abs t) \<and>
    vs = map Some (take (length vs) (wsq_abs s))"
proof -
  have len: "length (wq_taken s) + length vs \<le> length (wq_pushed s)"
    using wsq_abs_ok(2) [OF assms(2)] wsq_okD(2) [OF assms(2)] assms(3,4) by simp
  have t: "wq_taken s @ vs = map Some (take (length (wq_taken s) + length vs) (wq_pushed s))"
    using wsq_abs_ok(4) [OF assms(2)] by (simp add: assms(3,4))
  have "vs = drop (length (wq_taken s)) (wq_taken s @ vs)" by simp
  also have "\<dots> = map Some (take (length vs) (wsq_abs s))"
    unfolding t by (simp add: wsq_abs_def drop_map drop_take)
  finally have "vs = map Some (take (length vs) (wsq_abs s))" .
  with len assms(3,4) show ?thesis by (simp add: wsq_abs_def add.commute)
qed

lemma wsq_take_step_history:
  assumes "wsq_take_step C i s = Some t"
  shows "wq_pushed t = wq_pushed s \<and>
    (wq_taken t = wq_taken s \<or> (\<exists>vs. wq_taken t = wq_taken s @ vs \<and> wq_consumers t i = WC_Idle vs))"
  using assms
  by (cases "wq_consumers s i") (auto simp: wsq_take_step_def wc_goto_def Let_def split: if_splits)

lemma wsq_producer_abs:
  assumes "wsq_ok C s" "wsq_TryPush_step C s = Some t"
  shows "(wsq_abs t = wsq_abs s \<or> (\<exists>x. bounded_fifo_step C (AQ_Push x) (wsq_abs s) = Some (wsq_abs t))) \<and>
    (wq_producer t = WP_Idle (Some False) \<longrightarrow> length (wsq_abs s) = C) \<and> wq_taken t = wq_taken s"
proof (cases "wq_producer s")
  case (WP_Head x ct)
  with assms(1) have "unat (ct - wq_head s) = length (wsq_abs s)"
    using wsq_abs_ok(3) [OF assms(1)] by (simp add: wsq_ok_def unat_sub word_le_nat_alt)
  with WP_Head assms(2) show ?thesis by (auto simp: wsq_TryPush_step_def wsq_abs_def split: if_splits)
next
  case (WP_Add x)
  then have "length (wsq_abs s) < C" using assms(1) wsq_abs_ok(3) [OF assms(1)] by (auto simp: wsq_ok_def)
  moreover have "length (wq_taken s) \<le> length (wq_pushed s)"
    using wsq_abs_ok(2) [OF assms(1)] wsq_okD(2) [OF assms(1)] by simp
  ultimately show ?thesis using WP_Add assms(2) by (auto simp: wsq_TryPush_step_def wsq_abs_def)
qed (use assms(2) in \<open>auto simp: wsq_TryPush_step_def wsq_abs_def\<close>)

section \<open>Properties\<close>

lemmas wsq_eval = wsq_step_def wsq_TryPush_def wsq_TryPush_step_def wsq_TryPop_def wsq_Grab_def
  wsq_take_step_def wc_goto_def grab_plan_def grab_enter_cas_def wsq_init_def Let_def

text \<open>
  C8: no task of a work-stealing queue is lost, duplicated or reordered, under any interleaving
  of the producer with any number of \<open>TryPop\<close> and \<open>Grab\<close> calls, as long as fewer than \<open>2^64\<close>
  tasks were pushed: the pointers handed out so far are exactly the oldest pushed tasks in
  order, at most \<open>Capacity\<close> tasks are outstanding, and each of those is in its slot.
\<close>

theorem wsq_each_task_taken_once:
  assumes "reachable (wsq_step C) wsq_init s" "length (wq_pushed s) < 2 ^ 64"
  shows "wq_taken s = map Some (take (length (wq_taken s)) (wq_pushed s)) \<and>
    length (wq_pushed s) \<le> length (wq_taken s) + C \<and>
    (\<forall>k. length (wq_taken s) \<le> k \<and> k < length (wq_pushed s) \<longrightarrow>
         wq_buffer s (k mod C) = Some (wq_pushed s ! k))"
proof -
  from wsq.reachable_inv [OF assms(1)] assms(2) have ok: "wsq_ok C s" by (simp add: wsq_inv_def)
  from ok wsq_abs_ok(2) [OF ok] show ?thesis
    by (simp add: wsq_abs_ok(4) [OF ok, symmetric]) (simp add: wsq_ok_def)
qed

theorem wsq_each_task_taken_once_witness:
  "\<exists>s. reachable (wsq_step 2) wsq_init s \<and> length (wq_pushed s) < 2 ^ 64 \<and>
       wq_pushed s = [5, 6::nat] \<and> length (wq_taken s) = 1 \<and> wq_taken s = map Some (take 1 [5, 6])"
proof -
  obtain s :: "nat wsq" where s: "exec (wsq_step 2) wsq_init
      [WQ_TryPush 5, WQ_Producer, WQ_Producer, WQ_TryPop 0, WQ_Producer, WQ_TryPush 6, WQ_Producer,
       WQ_Consumer 0, WQ_Producer, WQ_Producer, WQ_Consumer 0, WQ_Consumer 0] = Some s"
    "wq_pushed s = [5, 6]" "length (wq_taken s) = 1"
    by (simp add: wsq_eval)
  from s(1) have r: "reachable (wsq_step 2) wsq_init s" by (rule exec_reachable)
  have b: "length (wq_pushed s) < 2 ^ 64" by (simp add: s(2))
  from r b s(2,3) wsq_each_task_taken_once [OF r b] show ?thesis by (intro exI [of _ s]) simp
qed

text \<open>
  C19: the ring buffer refines a FIFO bounded by \<open>Capacity\<close>. Each step of the implementation is
  invisible, or appends one task to a queue that is not full, or removes the first \<open>n\<close> tasks and
  returns exactly those to the consumer that made the step; \<open>TryPush\<close> answers false only when
  the queue is full, and \<open>TryPop\<close> answers \<open>nullptr\<close> only when it is empty.
\<close>

theorem wsq_refines_bounded_fifo:
  assumes "reachable (wsq_step C) wsq_init s" "wsq_step C e s = Some t" "length (wq_pushed t) < 2 ^ 64"
  shows "(wsq_abs t = wsq_abs s \<or>
      (e = WQ_Producer \<and> (\<exists>x. bounded_fifo_step C (AQ_Push x) (wsq_abs s) = Some (wsq_abs t))) \<or>
      (\<exists>i n. e = WQ_Consumer i \<and> bounded_fifo_step C (AQ_Take n) (wsq_abs s) = Some (wsq_abs t) \<and>
         wq_consumers t i = WC_Idle (map Some (take n (wsq_abs s))))) \<and>
    (e = WQ_Producer \<and> wq_producer t = WP_Idle (Some False) \<longrightarrow> length (wsq_abs s) = C) \<and>
    (\<forall>i oh. e = WQ_Consumer i \<and> wq_consumers s i = Pop_Tail oh \<and> wq_consumers t i = WC_Idle [] \<longrightarrow>
       wsq_abs s = [])"
proof -
  have b: "length (wq_pushed s) < 2 ^ 64" using wsq_pushed_mono [OF assms(2)] assms(3) by simp
  then have ok: "wsq_ok C s" using wsq.reachable_inv [OF assms(1)] by (simp add: wsq_inv_def)
  have ok': "wsq_ok C t" by (rule wsq_ok_step [OF ok assms(2,3)])
  show ?thesis
  proof (cases e)
    case WQ_Producer
    with assms(2) wsq_producer_abs [OF ok, of t] show ?thesis by (auto simp: wsq_step_def)
  next
    case (WQ_Consumer i)
    then have st: "wsq_take_step C i s = Some t" using assms(2) by (simp add: wsq_step_def)
    have empty: "wsq_abs s = []" if "wq_consumers s i = Pop_Tail oh" "wq_consumers t i = WC_Idle []" for oh
      using that st wsq_okD(1,2) [OF ok] wsq_okD(3) [OF ok, of i] wsq_abs_ok(1) [OF ok]
      by (auto simp: wsq_take_step_def wc_goto_def split: if_splits)
    from wsq_take_step_history [OF st]
    show ?thesis
    proof (elim conjE disjE exE)
      assume "wq_pushed t = wq_pushed s" "wq_taken t = wq_taken s"
      then have "wsq_abs t = wsq_abs s" by (simp add: wsq_abs_def)
      with WQ_Consumer empty show ?thesis by auto
    next
      fix vs assume h: "wq_pushed t = wq_pushed s" "wq_taken t = wq_taken s @ vs" "wq_consumers t i = WC_Idle vs"
      from wsq_taken_abs [OF ok ok' h(1,2)]
      have "\<exists>n. bounded_fifo_step C (AQ_Take n) (wsq_abs s) = Some (wsq_abs t) \<and>
          wq_consumers t i = WC_Idle (map Some (take n (wsq_abs s)))"
        using h(3) by (intro exI [of _ "length vs"]) simp
      with WQ_Consumer empty show ?thesis by blast
    qed
  qed (use assms(2) in \<open>auto simp: wsq_step_def wsq_TryPush_def wsq_TryPop_def wsq_Grab_def wc_goto_def
        wsq_abs_def split: push_pc.splits take_pc.splits\<close>)
qed

theorem wsq_refines_bounded_fifo_witness:
  "\<exists>s t. reachable (wsq_step 1) wsq_init s \<and> wsq_step 1 WQ_Producer s = Some t \<and>
       wq_producer t = WP_Idle (Some False) \<and> length (wsq_abs s) = 1 \<and> wsq_abs s = [5::nat]"
proof -
  obtain s t :: "nat wsq" where s: "exec (wsq_step 1) wsq_init
      [WQ_TryPush 5, WQ_Producer, WQ_Producer, WQ_Producer, WQ_TryPush 6] = Some s"
    "wsq_step 1 WQ_Producer s = Some t" "wq_producer t = WP_Idle (Some False)"
    "length (wq_pushed t) = 1" "wsq_abs s = [5]"
    by (simp add: wsq_eval wsq_abs_def)
  from s(1) have r: "reachable (wsq_step 1) wsq_init s" by (rule exec_reachable)
  have b: "length (wq_pushed t) < 2 ^ 64" by (simp add: s(4))
  from r s(2,3,5) wsq_refines_bounded_fifo [OF r s(2) b] show ?thesis by blast
qed

end
