(* ===== verification/Sched.thy ===== *)
theory Sched
  imports Forward_List
begin

text \<open>
  \<open>sched/task\<close>, \<open>sched/run_loop\<close>, \<open>sched/inline\<close>: tasks, the scheduler hints, the
  single-threaded run loop and the inline scheduler.

  A task is an identity of type \<open>'t\<close>. What \<open>Run()\<close> does is the user's code, so it is a
  parameter \<open>run\<close>: it transforms the world \<open>'w\<close> and names the tasks it submits back to the
  same scheduler, in order; \<open>None\<close> is a crash of the task. The loop counters of the source
  are \<open>size_t\<close>; they stay below the limit they are compared with, so they are \<open>nat\<close> here.
\<close>

datatype SchedulerHint = UpToYou | Next | Yield

type_synonym ('t, 'w) task_run = "'t \<Rightarrow> 'w \<Rightarrow> ('w \<times> 't list) option"

section \<open>RunLoop\<close>

definition RunLoop_Submit :: "'t \<Rightarrow> SchedulerHint \<Rightarrow> 't list \<Rightarrow> 't list" where
  "RunLoop_Submit task hint q = list_PushBack task q"

definition submit_all :: "'t list \<Rightarrow> 't list \<Rightarrow> 't list" where
  "submit_all ts q = fold (\<lambda>t. RunLoop_Submit t UpToYou) ts q"

function RunAtMost_loop ::
    "('t, 'w) task_run \<Rightarrow> nat \<Rightarrow> nat \<Rightarrow> 'w \<Rightarrow> 't list \<Rightarrow> (nat \<times> 'w \<times> 't list) option" where
  "RunAtMost_loop run limit runs w q =
     (if runs < limit \<and> q \<noteq> [] then
        (case list_PopFront q of
           (None, _) \<Rightarrow> None
         | (Some t, q') \<Rightarrow>
             (case run t w of
                None \<Rightarrow> None
              | Some (w', subs) \<Rightarrow> RunAtMost_loop run limit (Suc runs) w' (submit_all subs q')))
      else Some (runs, w, q))"
  by pat_completeness auto
termination
  by (relation "measure (\<lambda>(run, limit, runs, w, q). limit - runs)") auto

declare RunAtMost_loop.simps [simp del]

definition RunAtMost :: "('t, 'w) task_run \<Rightarrow> nat \<Rightarrow> 'w \<Rightarrow> 't list \<Rightarrow> (nat \<times> 'w \<times> 't list) option" where
  "RunAtMost run limit w q = RunAtMost_loop run limit 0 w q"

definition RunNext :: "('t, 'w) task_run \<Rightarrow> 'w \<Rightarrow> 't list \<Rightarrow> (bool \<times> 'w \<times> 't list) option" where
  "RunNext run w q = map_option (\<lambda>(n, r). (n = 1, r)) (RunAtMost run 1 w q)"

text \<open>\<open>Run()\<close> has no bound: tasks may submit forever, and then it does not return.\<close>

partial_function (option) Run_loop ::
    "('t, 'w) task_run \<Rightarrow> nat \<Rightarrow> 'w \<Rightarrow> 't list \<Rightarrow> (nat \<times> 'w \<times> 't list) option" where
  "Run_loop run runs w q =
     (case list_PopFront q of
        (None, _) \<Rightarrow> Some (runs, w, q)
      | (Some t, q') \<Rightarrow>
          (case run t w of
             None \<Rightarrow> None
           | Some (w', subs) \<Rightarrow> Run_loop run (Suc runs) w' (submit_all subs q')))"

definition Run :: "('t, 'w) task_run \<Rightarrow> 'w \<Rightarrow> 't list \<Rightarrow> (nat \<times> 'w \<times> 't list) option" where
  "Run run w q = Run_loop run 0 w q"

section \<open>FunctionTask, task::Submit and the inline scheduler\<close>

text \<open>
  A \<open>FunctionTask\<close> lives on the heap until it has run: \<open>Run\<close> calls the function and then
  \<open>delete this\<close>. Running a task that is not there would be a use after free: \<open>None\<close>.
\<close>

type_synonym ('t, 'w) task_heap = "'t \<rightharpoonup> ('w \<Rightarrow> 'w \<times> 't list)"

definition FunctionTask_New :: "'t \<Rightarrow> ('w \<Rightarrow> 'w \<times> 't list) \<Rightarrow> ('t, 'w) task_heap \<Rightarrow> ('t, 'w) task_heap" where
  "FunctionTask_New task f heap = heap(task \<mapsto> f)"

definition FunctionTask_Run :: "('t, ('t, 'w) task_heap \<times> 'w) task_run" where
  "FunctionTask_Run task = (\<lambda>(heap, w).
     case heap task of
       None \<Rightarrow> None
     | Some f \<Rightarrow> (let (w', subs) = f w in Some ((heap(task := None), w'), subs)))"

definition task_Submit ::
    "'t \<Rightarrow> ('w \<Rightarrow> 'w \<times> 't list) \<Rightarrow> ('t, 'w) task_heap \<times> 't list \<Rightarrow> ('t, 'w) task_heap \<times> 't list" where
  "task_Submit task f = (\<lambda>(heap, q). (FunctionTask_New task f heap, RunLoop_Submit task UpToYou q))"

text \<open>The inline scheduler runs the task before \<open>Submit\<close> returns, and drops the hint.\<close>

definition Inline_Submit :: "('t, 'w) task_run \<Rightarrow> 't \<Rightarrow> SchedulerHint \<Rightarrow> 'w \<Rightarrow> ('w \<times> 't list) option" where
  "Inline_Submit run task hint w = run task w"

section \<open>Lemmas\<close>

lemma submit_all_append: "submit_all ts q = q @ ts"
  by (induction ts arbitrary: q) (auto simp: submit_all_def RunLoop_Submit_def list_PushBack_def)

text \<open>Running a sequence of tasks: the world after them and what they submitted, in order.\<close>

fun run_seq :: "('t, 'w) task_run \<Rightarrow> 't list \<Rightarrow> 'w \<Rightarrow> ('w \<times> 't list) option" where
  "run_seq run [] w = Some (w, [])"
| "run_seq run (t # ts) w =
     (case run t w of
        None \<Rightarrow> None
      | Some (w', subs) \<Rightarrow> map_option (map_prod id ((@) subs)) (run_seq run ts w'))"

lemma RunAtMost_loop_stop: "limit \<le> runs \<Longrightarrow> RunAtMost_loop run limit runs w q = Some (runs, w, q)"
  by (simp add: RunAtMost_loop.simps)

lemma RunAtMost_loop_Nil: "RunAtMost_loop run limit runs w [] = Some (runs, w, [])"
  by (simp add: RunAtMost_loop.simps)

lemma RunAtMost_loop_Cons:
  "runs < limit \<Longrightarrow> RunAtMost_loop run limit runs w (t # q) =
     (case run t w of None \<Rightarrow> None
      | Some (w', subs) \<Rightarrow> RunAtMost_loop run limit (Suc runs) w' (q @ subs))"
  by (subst RunAtMost_loop.simps) (auto simp: submit_all_append split: option.splits)

lemma RunAtMost_loop_fifo:
  "runs + length ts = limit \<Longrightarrow> run_seq run ts w = Some (w', subs) \<Longrightarrow>
     RunAtMost_loop run limit runs w (ts @ q) = Some (limit, w', q @ subs)"
proof (induction ts arbitrary: runs w q subs)
  case Nil
  then show ?case by (simp add: RunAtMost_loop_stop)
next
  case (Cons t ts)
  then obtain w1 s1 s2 where r: "run t w = Some (w1, s1)" "run_seq run ts w1 = Some (w', s2)" "subs = s1 @ s2"
    by (auto split: option.splits)
  have "RunAtMost_loop run limit (Suc runs) w1 (ts @ (q @ s1)) = Some (limit, w', (q @ s1) @ s2)"
    using Cons.prems r by (intro Cons.IH) auto
  with Cons.prems r show ?case by (simp add: RunAtMost_loop_Cons)
qed

lemma RunAtMost_loop_bound:
  "RunAtMost_loop run limit runs w q = Some (n, w', q') \<Longrightarrow> runs \<le> limit \<Longrightarrow>
     runs \<le> n \<and> n \<le> limit \<and> (n < limit \<longrightarrow> q' = [])"
proof (induction "limit - runs" arbitrary: runs w q)
  case 0
  then show ?case by (simp add: RunAtMost_loop_stop)
next
  case (Suc k)
  show ?case
  proof (cases q)
    case Nil
    with Suc.prems show ?thesis by (simp add: RunAtMost_loop_Nil)
  next
    case (Cons t ts)
    with Suc.prems Suc.hyps(2) obtain w1 s1 where
      "RunAtMost_loop run limit (Suc runs) w1 (ts @ s1) = Some (n, w', q')"
      by (auto simp: RunAtMost_loop_Cons split: option.splits)
    then have "Suc runs \<le> n \<and> n \<le> limit \<and> (n < limit \<longrightarrow> q' = [])"
      by (rule Suc.hyps(1) [rotated]) (use Suc.hyps(2) in auto)
    then show ?thesis by simp
  qed
qed

lemma Run_loop_Nil: "Run_loop run runs w [] = Some (runs, w, [])"
  by (simp add: Run_loop.simps)

lemma Run_loop_Cons:
  "Run_loop run runs w (t # q) =
     (case run t w of None \<Rightarrow> None | Some (w', subs) \<Rightarrow> Run_loop run (Suc runs) w' (q @ subs))"
  by (subst Run_loop.simps) (auto simp: submit_all_append split: option.splits)

lemma Run_loop_of_RunAtMost:
  "RunAtMost_loop run limit runs w q = Some (n, w', []) \<Longrightarrow> Run_loop run runs w q = Some (n, w', [])"
proof (induction "limit - runs" arbitrary: runs w q)
  case 0
  then show ?case by (auto simp: RunAtMost_loop_stop Run_loop_Nil)
next
  case (Suc k)
  show ?case
  proof (cases q)
    case Nil
    with Suc.prems show ?thesis by (simp add: RunAtMost_loop_Nil Run_loop_Nil)
  next
    case (Cons t ts)
    with Suc.prems Suc.hyps(2) obtain w1 s1 where r: "run t w = Some (w1, s1)"
      "RunAtMost_loop run limit (Suc runs) w1 (ts @ s1) = Some (n, w', [])"
      by (auto simp: RunAtMost_loop_Cons split: option.splits)
    from Suc.hyps(1) [OF _ r(2)] Suc.hyps(2) r(1) Cons show ?thesis
      by (auto simp: Run_loop_Cons)
  qed
qed

lemma RunAtMost_of_Run_loop:
  fixes run :: "('t, 'w) task_run"
  assumes "Run_loop run runs w q = Some (n, w', q')"
  shows "q' = [] \<and> runs \<le> n \<and> RunAtMost_loop run n runs w q = Some (n, w', [])"
proof -
  let ?P = "\<lambda>run runs w q r. case r of (n, w', q') \<Rightarrow>
    q' = [] \<and> runs \<le> n \<and> RunAtMost_loop run n runs w q = Some (n, w', [])"
  have "?P run runs w q (n, w', q')"
  proof (rule Run_loop.raw_induct [where P = ?P, OF _ assms])
    fix f :: "('t, 'w) task_run \<Rightarrow> nat \<Rightarrow> 'w \<Rightarrow> 't list \<Rightarrow> (nat \<times> 'w \<times> 't list) option"
      and run :: "('t, 'w) task_run" and runs w q and r :: "nat \<times> 'w \<times> 't list"
    assume IH: "\<And>run runs w q r. f run runs w q = Some r \<Longrightarrow> ?P run runs w q r"
      and eq: "(case list_PopFront q of (None, _) \<Rightarrow> Some (runs, w, q)
        | (Some t, q') \<Rightarrow> (case run t w of None \<Rightarrow> None
            | Some (w', subs) \<Rightarrow> f run (Suc runs) w' (submit_all subs q'))) = Some r"
    show "?P run runs w q r"
    proof (cases q)
      case Nil
      with eq show ?thesis by (auto simp: RunAtMost_loop_Nil)
    next
      case (Cons t ts)
      with eq obtain w1 s1 where "run t w = Some (w1, s1)"
        "f run (Suc runs) w1 (submit_all s1 ts) = Some r"
        by (auto split: option.splits)
      with IH [OF this(2)] Cons show ?thesis
        by (auto simp: RunAtMost_loop_Cons submit_all_append)
    qed
  qed
  then show ?thesis by simp
qed

lemma run_seq_FunctionTask:
  assumes "distinct ts" and "\<And>t. t \<in> set ts \<Longrightarrow> heap t = Some (\<lambda>w. (f t w, []))"
  shows "run_seq FunctionTask_Run ts (heap, w) =
    Some ((\<lambda>t. if t \<in> set ts then None else heap t, fold f ts w), [])"
  using assms
proof (induction ts arbitrary: heap w)
  case Nil
  then show ?case by simp
next
  case (Cons t ts)
  have "run_seq FunctionTask_Run ts (heap(t := None), f t w) =
    Some ((\<lambda>u. if u \<in> set ts then None else (heap(t := None)) u, fold f ts (f t w)), [])"
    using Cons.prems by (intro Cons.IH) auto
  moreover have "(\<lambda>u. if u \<in> set ts then None else (heap(t := None)) u) =
    (\<lambda>u. if u \<in> set (t # ts) then None else heap u)" by auto
  moreover have "FunctionTask_Run t (heap, w) = Some ((heap(t := None), f t w), [])"
    using Cons.prems by (simp add: FunctionTask_Run_def)
  ultimately show ?case by simp
qed

lemma fold_task_Submit:
  "distinct (map fst jobs) \<Longrightarrow>
   fold (\<lambda>(t, f). task_Submit t (\<lambda>w. (f w, []))) jobs (heap, q) =
     (\<lambda>t. case map_of jobs t of None \<Rightarrow> heap t | Some f \<Rightarrow> Some (\<lambda>w. (f w, [])), q @ map fst jobs)"
proof (induction jobs arbitrary: heap q)
  case Nil
  then show ?case by simp
next
  case (Cons j jobs)
  obtain t f where j: "j = (t, f)" by fastforce
  have "fold (\<lambda>(t, f). task_Submit t (\<lambda>w. (f w, []))) (j # jobs) (heap, q) =
    fold (\<lambda>(t, f). task_Submit t (\<lambda>w. (f w, []))) jobs (heap(t \<mapsto> \<lambda>w. (f w, [])), q @ [t])"
    by (simp add: j task_Submit_def FunctionTask_New_def RunLoop_Submit_def list_PushBack_def)
  also have "\<dots> = (\<lambda>u. case map_of jobs u of None \<Rightarrow> (heap(t \<mapsto> \<lambda>w. (f w, []))) u
      | Some f \<Rightarrow> Some (\<lambda>w. (f w, [])), (q @ [t]) @ map fst jobs)"
    using Cons.prems by (intro Cons.IH) simp
  also have "(\<lambda>u. case map_of jobs u of None \<Rightarrow> (heap(t \<mapsto> \<lambda>w. (f w, []))) u
      | Some f \<Rightarrow> Some (\<lambda>w. (f w, []))) =
    (\<lambda>u. case map_of (j # jobs) u of None \<Rightarrow> heap u | Some f \<Rightarrow> Some (\<lambda>w. (f w, [])))"
  proof
    fix u
    from Cons.prems have "map_of jobs t = None" by (simp add: j map_of_eq_None_iff)
    then show "(case map_of jobs u of None \<Rightarrow> (heap(t \<mapsto> \<lambda>w. (f w, []))) u
        | Some f \<Rightarrow> Some (\<lambda>w. (f w, []))) =
      (case map_of (j # jobs) u of None \<Rightarrow> heap u | Some f \<Rightarrow> Some (\<lambda>w. (f w, [])))"
      by (cases "u = t") (simp_all add: j split: option.splits)
  qed
  finally show ?case by (simp add: j)
qed

section \<open>Properties\<close>

text \<open>
  \<open>RunAtMost(limit)\<close> is first in, first out: with at least \<open>limit\<close> queued tasks it runs
  exactly the first \<open>limit\<close> of them in order, reports \<open>limit\<close>, and leaves the other queued
  tasks followed by those the executed ones submitted, in submission order.
\<close>

lemma run_at_most_fifo:
  assumes "limit \<le> length q" and "run_seq run (take limit q) w = Some (w', subs)"
  shows "RunAtMost run limit w q = Some (limit, w', drop limit q @ subs)"
  using RunAtMost_loop_fifo [of 0 "take limit q" limit run w w' subs "drop limit q"] assms
  by (simp add: RunAtMost_def)

definition echo :: "(nat, nat list) task_run" where
  "echo t w = Some (w @ [t], [t + 10])"

text \<open>
  \<open>Run()\<close> returns exactly when some bounded run empties the queue; then it leaves the
  queue empty and its count and effects are those of the bounded run. Runs with a bound
  never exceed it and stop early only on an empty queue.
\<close>

lemma run_iff_bounded:
  "Run run w q = Some (n, w', q') \<longleftrightarrow>
     q' = [] \<and> (\<exists>limit. RunAtMost run limit w q = Some (n, w', []) \<and> n \<le> limit)"
  unfolding Run_def RunAtMost_def
  using RunAtMost_of_Run_loop [of run 0 w q n w' q'] Run_loop_of_RunAtMost [of run _ 0 w q n w']
  by auto

text \<open>
  functions given to \<open>task::Submit\<close> under fresh task objects are each called exactly
  once by \<open>RunLoop::Run\<close>, in submission order; \<open>Run\<close> returns their number, leaves the queue
  empty, and every task object has been deleted, none used after it was freed.
\<close>

lemma submitted_functions_run_once:
  assumes "distinct (map fst jobs)"
    and "fold (\<lambda>(t, f). task_Submit t (\<lambda>w. (f w, []))) jobs (Map.empty, []) = (heap, q)"
  shows "Run FunctionTask_Run (heap, w) q =
    Some (length jobs, (Map.empty, fold (\<lambda>(t, f). f) jobs w), [])"
proof -
  from assms fold_task_Submit [OF assms(1), of Map.empty "[]"]
  have h: "heap = (\<lambda>t. case map_of jobs t of None \<Rightarrow> None | Some f \<Rightarrow> Some (\<lambda>w. (f w, [])))"
    and q: "q = map fst jobs" by auto
  have "run_seq FunctionTask_Run q (heap, w) = Some ((\<lambda>t. if t \<in> set q then None else heap t,
      fold (\<lambda>t. the (map_of jobs t)) q w), [])"
    by (rule run_seq_FunctionTask)
      (use assms(1) in \<open>auto simp: q h split: option.splits\<close>)
  moreover have "(\<lambda>t. if t \<in> set q then None else heap t) = Map.empty"
    by (auto simp: q h fun_eq_iff split: option.splits dest!: map_of_SomeD intro: rev_image_eqI)
  moreover have "fold (\<lambda>t. the (map_of jobs t)) q w = fold (\<lambda>(t, f). f) jobs w"
    unfolding q fold_map using assms(1)
    by (intro fold_cong) auto
  ultimately have "RunAtMost_loop FunctionTask_Run (length q) 0 (heap, w) (q @ []) =
      Some (length q, (Map.empty, fold (\<lambda>(t, f). f) jobs w), [] @ [])"
    by (intro RunAtMost_loop_fifo) simp_all
  then show ?thesis
    by (simp add: Run_def Run_loop_of_RunAtMost q)
qed

end
