(* ===== verification/Fast_Pool.thy ===== *)
theory Fast_Pool
  imports Work_Stealing_Queue Sched
begin

text \<open>
  \<open>sched/tp/fast/{worker,thread_pool,coordinator}.{hpp,cpp}\<close> and \<open>queues/global_queue.hpp\<close>: the
  work-stealing thread pool with its parking protocol.

  A step is one operation on shared state: an atomic access, a critical section of a spin lock,
  or an operation of a local queue, which is a bounded FIFO by the refinement proved in
  \<open>Work_Stealing_Queue\<close>. \<open>SizeEstimate\<close> may answer anything and \<open>Grab\<close> may take any number of
  tasks up to what it was offered, none included; both are choices of the event. A worker is the
  only thread that waits on its own \<open>wakeups_\<close>, so \<open>Wake\<close> is one step and \<open>futex::Wait\<close> is a guard.
  Loads of \<open>wakeups_\<close> are taken modulo \<open>2^32\<close>; the field itself counts every wakeup.
  \<open>fp_submitted\<close> and \<open>fp_ran\<close> are history.

  Threads \<open>i < fp_threads\<close> are the workers, larger numbers below \<open>fp_clients\<close> are other threads
  that submit.
\<close>

section \<open>Global queue\<close>

definition gq_PushOne :: "'t \<Rightarrow> 't list \<Rightarrow> 't list" where
  "gq_PushOne task q = list_PushBack task q"

definition gq_PushMany :: "'t list \<Rightarrow> 't list \<Rightarrow> 't list" where
  "gq_PushMany buffer q = (let buf_list = fold list_PushBack buffer [] in q @ buf_list)"

definition gq_TryPopOne :: "'t list \<Rightarrow> 't ptr \<times> 't list" where
  "gq_TryPopOne q = list_PopFront q"

fun gq_Grab_loop :: "nat \<Rightarrow> 't list \<Rightarrow> 't ptr list \<times> 't list" where
  "gq_Grab_loop 0 q = ([], q)"
| "gq_Grab_loop (Suc n) q =
     (let (t, q) = list_PopFront q; (out, q) = gq_Grab_loop n q in (t # out, q))"

definition gq_Grab :: "nat \<Rightarrow> 't list \<Rightarrow> 't ptr list \<times> 't list" where
  "gq_Grab out_size q = gq_Grab_loop (min out_size (length q)) q"

lemma gq_PushMany_append [simp]: "gq_PushMany ts q = q @ ts"
proof -
  have "fold list_PushBack ts acc = acc @ ts" for acc :: "'a list"
    by (induction ts arbitrary: acc) (simp_all add: list_PushBack_def)
  then show ?thesis by (simp add: gq_PushMany_def)
qed

lemma gq_Grab_prefix: "gq_Grab n q = (map Some (take n q), drop n q)"
proof -
  have "m \<le> length q \<Longrightarrow> gq_Grab_loop m q = (map Some (take m q), drop m q)" for m
  proof (induction m arbitrary: q)
    case (Suc m)
    then show ?case by (cases q) simp_all
  qed simp
  then show ?thesis by (simp add: gq_Grab_def min_def)
qed

section \<open>State\<close>

text \<open>
  Who called \<open>TryPickTask\<close>: \<open>PickTask\<close>, which goes on to \<open>TryPickTaskBeforePark\<close>, or the recheck
  after parking, which returns to the run loop.
\<close>

datatype pick_from = Pick_Fresh | Pick_Recheck

text \<open>
  A worker's position. \<open>FW_Steal\<close> carries the victims left and, on the final attempt after the
  worker has enlisted as a waiter, the value of \<open>wakeups_\<close> it read before.
\<close>

datatype 't fw_pc =
    FW_NotStarted
  | FW_Top
  | FW_Global61 pick_from
  | FW_Lifo pick_from
  | FW_Local pick_from
  | FW_Global pick_from
  | FW_SpinInc
  | FW_Steal "nat option" "nat list"
  | FW_StealPush "nat option" "'t list" 't
  | FW_StolenSpinDec 't
  | FW_WakePop nat 't
  | FW_WakeDo nat nat 't
  | FW_LoadWakeups
  | FW_PushWaiter nat
  | FW_SpinDec nat
  | FW_Global2 nat
  | FW_ParkInc nat
  | FW_Ready nat
  | FW_SetStop
  | FW_Signal
  | FW_StopStore nat
  | FW_StopWake nat
  | FW_ChkStopped nat
  | FW_Wait nat
  | FW_ParkDec
  | FW_Run 't
  | FW_Exit

datatype 't fs_pc =
    FS_Idle
  | FS_Push 't SchedulerHint
  | FS_TryPush 't
  | FS_Grab 't
  | FS_PushMany "'t list"
  | FS_Spin
  | FS_Pop
  | FS_Wake nat

datatype fstop_pc = FST_Idle | FST_Load | FST_Wait | FST_Store | FST_WorkerStop nat | FST_Wake nat | FST_Join nat | FST_Done

record 't fpool =
  fp_threads :: nat
  fp_clients :: nat
  fp_cap :: nat
  fp_global :: "'t list"
  fp_local :: "nat \<Rightarrow> 't list"
  fp_lifo :: "nat \<Rightarrow> 't ptr"
  fp_iter :: "nat \<Rightarrow> u64"
  fp_wakeups :: "nat \<Rightarrow> nat"
  fp_wstop :: "nat \<Rightarrow> bool"
  fp_pc :: "nat \<Rightarrow> 't fw_pc"
  fp_sub :: "nat \<Rightarrow> 't fs_pc"
  fp_spinning :: nat
  fp_parked :: nat
  fp_waiters :: "nat list"
  fp_ready :: bool
  fp_stopped :: bool
  fp_stop :: fstop_pc
  fp_aborted :: bool
  fp_submitted :: "'t multiset"
  fp_ran :: "'t multiset"

definition FastPool :: "nat \<Rightarrow> nat \<Rightarrow> nat \<Rightarrow> 't fpool" where
  "FastPool threads clients cap = \<lparr>fp_threads = threads, fp_clients = clients, fp_cap = cap,
     fp_global = [], fp_local = (\<lambda>_. []), fp_lifo = (\<lambda>_. nullptr), fp_iter = (\<lambda>_. 0),
     fp_wakeups = (\<lambda>_. 0), fp_wstop = (\<lambda>_. False), fp_pc = (\<lambda>_. FW_NotStarted),
     fp_sub = (\<lambda>_. FS_Idle), fp_spinning = 0, fp_parked = 0, fp_waiters = [], fp_ready = False,
     fp_stopped = False, fp_stop = FST_Idle, fp_aborted = False, fp_submitted = {#}, fp_ran = {#}\<rparr>"

definition fw_goto :: "nat \<Rightarrow> 't fw_pc \<Rightarrow> 't fpool \<Rightarrow> 't fpool" where
  "fw_goto i p s = s\<lparr>fp_pc := (fp_pc s)(i := p)\<rparr>"

definition fs_goto :: "nat \<Rightarrow> 't fs_pc \<Rightarrow> 't fpool \<Rightarrow> 't fpool" where
  "fs_goto i p s = s\<lparr>fp_sub := (fp_sub s)(i := p)\<rparr>"

section \<open>Parking lot\<close>

definition fp_load_wakeups :: "nat \<Rightarrow> 't fpool \<Rightarrow> nat" where
  "fp_load_wakeups i s = fp_wakeups s i mod 2 ^ 32"

definition fp_Wake :: "nat \<Rightarrow> 't fpool \<Rightarrow> 't fpool" where
  "fp_Wake j s = s\<lparr>fp_wakeups := (fp_wakeups s)(j := fp_wakeups s j + 1)\<rparr>"

text \<open>\<open>StoppingWake\<close> is the store to \<open>worker_stop_\<close>, in a step of its own, followed by \<open>Wake\<close>.\<close>

definition fp_StoppingWake_store :: "nat \<Rightarrow> 't fpool \<Rightarrow> 't fpool" where
  "fp_StoppingWake_store j s = s\<lparr>fp_wstop := (fp_wstop s)(j := True)\<rparr>"

definition fp_PushWaiter :: "nat \<Rightarrow> 't fpool \<Rightarrow> 't fpool" where
  "fp_PushWaiter idx s = s\<lparr>fp_waiters := fp_waiters s @ [idx]\<rparr>"

definition fp_PopWaiter :: "'t fpool \<Rightarrow> nat option \<times> 't fpool" where
  "fp_PopWaiter s =
     (case fp_waiters s of
        [] \<Rightarrow> (None, s)
      | w # ws \<Rightarrow> (Some w, s\<lparr>fp_waiters := ws\<rparr>))"

definition fp_SignalStop :: "'t fpool \<Rightarrow> 't fpool" where
  "fp_SignalStop s = (if fp_ready s then s\<lparr>fp_stopped := True\<rparr> else s)"

section \<open>Worker\<close>

text \<open>The start of \<open>TryPickTask\<close>: every 61st iteration polls the global queue first.\<close>

definition TryPickTask_start :: "nat \<Rightarrow> pick_from \<Rightarrow> 't fpool \<Rightarrow> 't fw_pc" where
  "TryPickTask_start i from s = (if unat (fp_iter s i) mod 61 = 0 then FW_Global61 from else FW_Lifo from)"

text \<open>
  \<open>TryPickTaskFromGlobalQueue\<close>, \<open>TryPickTaskFromLifoSlot\<close> and \<open>TryPickTaskFromLocalQueue\<close>, going to
  \<open>found\<close> with a task and to \<open>next\<close> without.
\<close>

definition pick_global :: "nat \<Rightarrow> ('t \<Rightarrow> 't fw_pc) \<Rightarrow> 't fw_pc \<Rightarrow> 't fpool \<Rightarrow> 't fpool" where
  "pick_global i found next s =
     (case gq_TryPopOne (fp_global s) of
        (Some t, q) \<Rightarrow> fw_goto i (found t) (s\<lparr>fp_global := q\<rparr>)
      | (None, q) \<Rightarrow> fw_goto i next s)"

definition pick_lifo :: "nat \<Rightarrow> 't fw_pc \<Rightarrow> 't fpool \<Rightarrow> 't fpool" where
  "pick_lifo i next s =
     (case fp_lifo s i of
        Some t \<Rightarrow> fw_goto i (FW_Run t) (s\<lparr>fp_lifo := (fp_lifo s)(i := nullptr)\<rparr>)
      | None \<Rightarrow> fw_goto i next s)"

definition pick_local :: "nat \<Rightarrow> 't fw_pc \<Rightarrow> 't fpool \<Rightarrow> 't fpool" where
  "pick_local i next s =
     (case list_PopFront (fp_local s i) of
        (Some t, q) \<Rightarrow> fw_goto i (FW_Run t) (s\<lparr>fp_local := (fp_local s)(i := q)\<rparr>)
      | (None, q) \<Rightarrow> fw_goto i next s)"

text \<open>
  The choices of a worker step: the shuffled stealing order, the size estimate of the victim's
  queue and the number of tasks \<open>Grab\<close> obtains.
\<close>

record fw_choice =
  ch_order :: "nat list"
  ch_estimate :: nat
  ch_grab :: nat

definition stealing_order_ok :: "nat list \<Rightarrow> 't fpool \<Rightarrow> bool" where
  "stealing_order_ok order s \<longleftrightarrow> mset order = mset [0..<fp_threads s - 1]"

definition TryStealTasks_start :: "nat option \<Rightarrow> nat list \<Rightarrow> 't fpool \<Rightarrow> 't fw_pc" where
  "TryStealTasks_start old order s = FW_Steal old (if fp_threads s \<le> 1 then [] else order)"

definition steal_victim :: "nat \<Rightarrow> nat \<Rightarrow> 't fpool \<Rightarrow> nat" where
  "steal_victim i v s = (if v = i then fp_threads s - 1 else v)"

text \<open>\<open>StealTasks\<close> of the victim: at most half of its tasks and half of the buffer.\<close>

definition StealTasks_limit :: "nat \<Rightarrow> 't fpool \<Rightarrow> nat" where
  "StealTasks_limit estimate s = min ((estimate + 1) div 2) (fp_cap s div 2)"

definition try_steal_from :: "nat \<Rightarrow> nat option \<Rightarrow> nat \<Rightarrow> nat list \<Rightarrow> fw_choice \<Rightarrow> 't fpool \<Rightarrow> 't fpool option" where
  "try_steal_from i old victim rest ch s =
     (let n_stolen = ch_grab ch; stolen = take n_stolen (fp_local s victim)
      in if n_stolen \<le> min (StealTasks_limit (ch_estimate ch) s) (length (fp_local s victim))
         then if n_stolen = 0 then Some (fw_goto i (FW_Steal old rest) s)
              else Some (fw_goto i (FW_StealPush old (butlast stolen) (last stolen))
                     (s\<lparr>fp_local := (fp_local s)(victim := drop n_stolen (fp_local s victim))\<rparr>))
         else None)"

text \<open>The pushes of the stolen tasks but the last into the thief's own queue.\<close>

definition steal_push :: "nat \<Rightarrow> nat option \<Rightarrow> 't list \<Rightarrow> 't \<Rightarrow> 't fpool \<Rightarrow> 't fpool" where
  "steal_push i old ts t s =
     (case ts of
        [] \<Rightarrow> fw_goto i (case old of None \<Rightarrow> FW_StolenSpinDec t | Some _ \<Rightarrow> FW_WakePop 6 t) s
      | x # xs \<Rightarrow>
          if length (fp_local s i) < fp_cap s
          then fw_goto i (FW_StealPush old xs t) (s\<lparr>fp_local := (fp_local s)(i := fp_local s i @ [x])\<rparr>)
          else s\<lparr>fp_aborted := True\<rparr>)"

text \<open>\<open>TryWakeOneWorker\<close> pops and wakes up to three waiters; two calls in a row make six.\<close>

definition wake_pop :: "nat \<Rightarrow> nat \<Rightarrow> 't \<Rightarrow> 't fpool \<Rightarrow> 't fpool" where
  "wake_pop i k t s =
     (case k of
        0 \<Rightarrow> fw_goto i (FW_Run t) s
      | Suc k \<Rightarrow>
          (case fp_PopWaiter s of
             (None, s) \<Rightarrow> fw_goto i (FW_WakePop k t) s
           | (Some j, s) \<Rightarrow> fw_goto i (FW_WakeDo j k t) s))"

text \<open>
  \<open>Work\<close>, \<open>PickTask\<close>, \<open>TryPickTask\<close>, \<open>TryStealTasks\<close> and \<open>TryPickTaskBeforePark\<close>, one shared access
  per step.
\<close>

fun worker_at :: "'t fw_pc \<Rightarrow> nat \<Rightarrow> fw_choice \<Rightarrow> 't fpool \<Rightarrow> 't fpool option" where
  "worker_at FW_NotStarted i ch s = None"
| "worker_at FW_Top i ch s =
     (if fp_wstop s i then Some (fw_goto i FW_Exit s)
      else let s = s\<lparr>fp_iter := (fp_iter s)(i := fp_iter s i + 1)\<rparr>
           in Some (fw_goto i (TryPickTask_start i Pick_Fresh s) s))"
| "worker_at (FW_Global61 from) i ch s = Some (pick_global i FW_Run (FW_Lifo from) s)"
| "worker_at (FW_Lifo from) i ch s = Some (pick_lifo i (FW_Local from) s)"
| "worker_at (FW_Local from) i ch s = Some (pick_local i (FW_Global from) s)"
| "worker_at (FW_Global from) i ch s =
     Some (pick_global i FW_Run (case from of Pick_Fresh \<Rightarrow> FW_SpinInc | Pick_Recheck \<Rightarrow> FW_Top) s)"
| "worker_at FW_SpinInc i ch s =
     (if stealing_order_ok (ch_order ch) s
      then Some (fw_goto i (TryStealTasks_start None (ch_order ch) s)
                  (s\<lparr>fp_spinning := fp_spinning s + 1\<rparr>))
      else None)"
| "worker_at (FW_Steal old order) i ch s =
     (case order of
        [] \<Rightarrow> Some (fw_goto i (case old of None \<Rightarrow> FW_LoadWakeups | Some w \<Rightarrow> FW_ParkInc w) s)
      | v # rest \<Rightarrow> try_steal_from i old (steal_victim i v s) rest ch s)"
| "worker_at (FW_StealPush old ts t) i ch s = Some (steal_push i old ts t s)"
| "worker_at (FW_StolenSpinDec t) i ch s =
     Some (fw_goto i (FW_WakePop 3 t) (s\<lparr>fp_spinning := fp_spinning s - 1\<rparr>))"
| "worker_at (FW_WakePop k t) i ch s = Some (wake_pop i k t s)"
| "worker_at (FW_WakeDo j k t) i ch s = Some (fw_goto i (FW_WakePop k t) (fp_Wake j s))"
| "worker_at FW_LoadWakeups i ch s = Some (fw_goto i (FW_PushWaiter (fp_load_wakeups i s)) s)"
| "worker_at (FW_PushWaiter old) i ch s = Some (fw_goto i (FW_SpinDec old) (fp_PushWaiter i s))"
| "worker_at (FW_SpinDec old) i ch s =
     Some (fw_goto i (FW_Global2 old) (s\<lparr>fp_spinning := fp_spinning s - 1\<rparr>))"
| "worker_at (FW_Global2 old) i ch s =
     (if stealing_order_ok (ch_order ch) s
      then Some (pick_global i (FW_WakePop 6) (TryStealTasks_start (Some old) (ch_order ch) s) s)
      else None)"
| "worker_at (FW_ParkInc old) i ch s =
     (let s = s\<lparr>fp_parked := fp_parked s + 1\<rparr>
      in Some (fw_goto i (if fp_parked s = fp_threads s then FW_Ready old else FW_ChkStopped old) s))"
| "worker_at (FW_Ready old) i ch s =
     Some (fw_goto i (if fp_ready s then FW_SetStop else FW_ChkStopped old) s)"
| "worker_at FW_SetStop i ch s = Some (fw_goto i FW_Signal (s\<lparr>fp_wstop := (fp_wstop s)(i := True)\<rparr>))"
| "worker_at FW_Signal i ch s = Some (fw_goto i (FW_StopStore 0) (fp_SignalStop s))"
| "worker_at (FW_StopStore k) i ch s =
     (if k < fp_threads s then Some (fw_goto i (FW_StopWake k) (fp_StoppingWake_store k s))
      else Some (fw_goto i FW_Top s))"
| "worker_at (FW_StopWake k) i ch s = Some (fw_goto i (FW_StopStore (k + 1)) (fp_Wake k s))"
| "worker_at (FW_ChkStopped old) i ch s =
     (if fp_stopped s then Some (fw_goto i FW_Top (s\<lparr>fp_wstop := (fp_wstop s)(i := True)\<rparr>))
      else Some (fw_goto i (FW_Wait old) s))"
| "worker_at (FW_Wait old) i ch s =
     (if fp_load_wakeups i s = old then None else Some (fw_goto i FW_ParkDec s))"
| "worker_at FW_ParkDec i ch s =
     (let s = s\<lparr>fp_parked := fp_parked s - 1\<rparr>
      in Some (fw_goto i (TryPickTask_start i Pick_Recheck s) s))"
| "worker_at (FW_Run t) i ch s =
     (if fp_sub s i = FS_Idle then Some (fw_goto i FW_Top (s\<lparr>fp_ran := add_mset t (fp_ran s)\<rparr>)) else None)"
| "worker_at FW_Exit i ch s = None"

section \<open>Submission\<close>

text \<open>The beginning of \<open>ThreadPool::Submit\<close> and of \<open>Worker::Push\<close>, up to \<open>TryPush\<close>.\<close>

definition submit_push :: "nat \<Rightarrow> 't \<Rightarrow> SchedulerHint \<Rightarrow> 't fpool \<Rightarrow> 't fpool" where
  "submit_push i task hint s =
     (if \<not> i < fp_threads s \<or> hint = Yield
      then fs_goto i FS_Spin (s\<lparr>fp_global := gq_PushOne task (fp_global s)\<rparr>)
      else if hint = Next
      then let s' = s\<lparr>fp_lifo := (fp_lifo s)(i := Some task)\<rparr>
           in case fp_lifo s i of
                None \<Rightarrow> fs_goto i FS_Spin s'
              | Some old_task \<Rightarrow> fs_goto i (FS_TryPush old_task) s'
      else fs_goto i (FS_TryPush task) s)"

text \<open>\<open>OffloadTasksToGlobalQueue\<close>: the grab; the push follows as its own step.\<close>

definition offload_grab :: "nat \<Rightarrow> 't \<Rightarrow> nat \<Rightarrow> 't fpool \<Rightarrow> 't fpool option" where
  "offload_grab i task n_grab s =
     (if n_grab \<le> min (fp_cap s div 2) (length (fp_local s i))
      then Some (fs_goto i (FS_PushMany (take n_grab (fp_local s i) @ [task]))
                  (s\<lparr>fp_local := (fp_local s)(i := drop n_grab (fp_local s i))\<rparr>))
      else None)"

fun submit_at :: "'t fs_pc \<Rightarrow> nat \<Rightarrow> nat \<Rightarrow> 't fpool \<Rightarrow> 't fpool option" where
  "submit_at FS_Idle i n_grab s = None"
| "submit_at (FS_Push task hint) i n_grab s = Some (submit_push i task hint s)"
| "submit_at (FS_TryPush task) i n_grab s =
     (if length (fp_local s i) < fp_cap s
      then Some (fs_goto i FS_Spin (s\<lparr>fp_local := (fp_local s)(i := fp_local s i @ [task])\<rparr>))
      else Some (fs_goto i (FS_Grab task) s))"
| "submit_at (FS_Grab task) i n_grab s = offload_grab i task n_grab s"
| "submit_at (FS_PushMany ts) i n_grab s =
     Some (fs_goto i FS_Spin (s\<lparr>fp_global := gq_PushMany ts (fp_global s)\<rparr>))"
| "submit_at FS_Spin i n_grab s = Some (fs_goto i (if fp_spinning s = 0 then FS_Pop else FS_Idle) s)"
| "submit_at FS_Pop i n_grab s =
     (case fp_PopWaiter s of
        (None, s) \<Rightarrow> Some (fs_goto i FS_Idle s)
      | (Some j, s) \<Rightarrow> Some (fs_goto i (FS_Wake j) s))"
| "submit_at (FS_Wake j) i n_grab s = Some (fs_goto i FS_Idle (fp_Wake j s))"

fun fw_running :: "'t fw_pc \<Rightarrow> bool" where
  "fw_running (FW_Run t) = True"
| "fw_running _ = False"

definition submit_begin :: "nat \<Rightarrow> 't \<Rightarrow> SchedulerHint \<Rightarrow> 't fpool \<Rightarrow> 't fpool option" where
  "submit_begin i task hint s =
     (if i < fp_clients s \<and> fp_sub s i = FS_Idle \<and>
         (i < fp_threads s \<longrightarrow> fw_running (fp_pc s i))
      then Some (fs_goto i (FS_Push task hint) (s\<lparr>fp_submitted := add_mset task (fp_submitted s)\<rparr>))
      else None)"

section \<open>Start and Stop\<close>

definition fp_Start :: "'t fpool \<Rightarrow> 't fpool option" where
  "fp_Start s =
     (if \<forall>i<fp_threads s. fp_pc s i = FW_NotStarted
      then Some (s\<lparr>fp_pc := (\<lambda>i. if i < fp_threads s then FW_Top else fp_pc s i)\<rparr>) else None)"

fun fp_Stop :: "fstop_pc \<Rightarrow> 't fpool \<Rightarrow> 't fpool option" where
  "fp_Stop FST_Idle s = Some (s\<lparr>fp_ready := True, fp_stop := FST_Load\<rparr>)"
| "fp_Stop FST_Load s = Some (s\<lparr>fp_stop := (if fp_parked s \<noteq> fp_threads s then FST_Wait else FST_Store)\<rparr>)"
| "fp_Stop FST_Wait s = (if fp_stopped s then Some (s\<lparr>fp_stop := FST_WorkerStop 0\<rparr>) else None)"
| "fp_Stop FST_Store s = Some (s\<lparr>fp_stopped := True, fp_stop := FST_WorkerStop 0\<rparr>)"
| "fp_Stop (FST_WorkerStop k) s =
     (if k < fp_threads s then Some (fp_StoppingWake_store k s\<lparr>fp_stop := FST_Wake k\<rparr>)
      else Some (s\<lparr>fp_stop := FST_Join 0\<rparr>))"
| "fp_Stop (FST_Wake k) s = Some (fp_Wake k s\<lparr>fp_stop := FST_WorkerStop (k + 1)\<rparr>)"
| "fp_Stop (FST_Join k) s =
     (if k < fp_threads s
      then if fp_pc s k = FW_Exit then Some (s\<lparr>fp_stop := FST_Join (k + 1)\<rparr>) else None
      else Some (s\<lparr>fp_stop := FST_Done\<rparr>))"
| "fp_Stop FST_Done s = None"

datatype 't fp_ev =
    FE_Start
  | FE_Worker nat fw_choice
  | FE_Submit nat 't SchedulerHint
  | FE_Submitter nat nat
  | FE_Stop

definition fp_step :: "'t fp_ev \<Rightarrow> 't fpool \<Rightarrow> 't fpool option" where
  "fp_step e s =
     (if fp_aborted s then None else
      case e of
        FE_Start \<Rightarrow> fp_Start s
      | FE_Worker i ch \<Rightarrow> worker_at (fp_pc s i) i ch s
      | FE_Submit i task hint \<Rightarrow> submit_begin i task hint s
      | FE_Submitter i n_grab \<Rightarrow> submit_at (fp_sub s i) i n_grab s
      | FE_Stop \<Rightarrow> fp_Stop (fp_stop s) s)"

end
