(* ===== verification/Fast_Pool_Parking.thy ===== *)
theory Fast_Pool_Parking
  imports Fast_Pool
begin

text \<open>
  The invariants of the fast pool's parking protocol: a parked worker has no task of its own,
  every enlisted worker can be found by a waker, and a task in the global queue always has an
  awake worker or a submitter about to wake one.
\<close>

section \<open>What a program point says\<close>

text \<open>The worker is counted in \<open>n_spinning_\<close>.\<close>

fun fw_spins :: "'t fw_pc \<Rightarrow> nat" where
  "fw_spins (FW_Steal None _) = 1"
| "fw_spins (FW_StealPush None _ _) = 1"
| "fw_spins (FW_StolenSpinDec _) = 1"
| "fw_spins FW_LoadWakeups = 1"
| "fw_spins (FW_PushWaiter _) = 1"
| "fw_spins (FW_SpinDec _) = 1"
| "fw_spins _ = 0"

text \<open>The worker has found its LIFO slot and its local queue empty.\<close>

fun fw_drained :: "'t fw_pc \<Rightarrow> bool" where
  "fw_drained (FW_Global _) = True"
| "fw_drained FW_SpinInc = True"
| "fw_drained (FW_Steal _ _) = True"
| "fw_drained FW_LoadWakeups = True"
| "fw_drained (FW_PushWaiter _) = True"
| "fw_drained (FW_SpinDec _) = True"
| "fw_drained (FW_Global2 _) = True"
| "fw_drained (FW_ParkInc _) = True"
| "fw_drained (FW_Ready _) = True"
| "fw_drained (FW_ChkStopped _) = True"
| "fw_drained (FW_Wait _) = True"
| "fw_drained FW_ParkDec = True"
| "fw_drained _ = False"

text \<open>The worker has passed its last look at the global queue, with this value of \<open>wakeups_\<close>.\<close>

fun fw_committed :: "'t fw_pc \<Rightarrow> nat option" where
  "fw_committed (FW_Steal old _) = old"
| "fw_committed (FW_ParkInc w) = Some w"
| "fw_committed (FW_Ready w) = Some w"
| "fw_committed (FW_ChkStopped w) = Some w"
| "fw_committed (FW_Wait w) = Some w"
| "fw_committed _ = None"

text \<open>The worker has enlisted as a waiter after reading this value of \<open>wakeups_\<close>.\<close>

fun fw_enlisted :: "'t fw_pc \<Rightarrow> nat option" where
  "fw_enlisted (FW_SpinDec w) = Some w"
| "fw_enlisted (FW_Global2 w) = Some w"
| "fw_enlisted p = fw_committed p"

fun fs_waking :: "'t fs_pc \<Rightarrow> bool" where
  "fs_waking FS_Spin = True"
| "fs_waking FS_Pop = True"
| "fs_waking (FS_Wake _) = True"
| "fs_waking _ = False"

definition fw_awake :: "'t fpool \<Rightarrow> nat \<Rightarrow> bool" where
  "fw_awake s i \<longleftrightarrow> fw_committed (fp_pc s i) \<noteq> Some (fp_wakeups s i)"

definition fp_pending :: "'t fpool \<Rightarrow> nat \<Rightarrow> bool" where
  "fp_pending s j \<longleftrightarrow> (\<exists>x. fp_sub s x = FS_Wake j) \<or> (\<exists>x k t. fp_pc s x = FW_WakeDo j k t)"

definition fp_bounded :: "'t fpool \<Rightarrow> bool" where
  "fp_bounded s \<longleftrightarrow> (\<forall>i. fp_wakeups s i < 2 ^ 32)"

section \<open>Frame of a worker's step\<close>

lemmas fw_defs = fw_goto_def pick_global_def pick_lifo_def pick_local_def gq_TryPopOne_def
  TryPickTask_start_def TryStealTasks_start_def try_steal_from_def steal_push_def wake_pop_def
  fp_PopWaiter_def fp_PushWaiter_def fp_Wake_def fp_StoppingWake_store_def fp_SignalStop_def Let_def

lemmas fw_splits = if_splits option.splits list.splits prod.splits nat.splits pick_from.splits

lemma list_PopFront_cases:
  "list_PopFront q = (case q of [] \<Rightarrow> (None, []) | x # xs \<Rightarrow> (Some x, xs))"
  by (cases q) simp_all

lemma worker_pc_upd:
  assumes "worker_at p i ch s = Some t"
  shows "fp_pc t = (fp_pc s)(i := fp_pc t i) \<and> fp_sub t = fp_sub s \<and> fp_threads t = fp_threads s \<and>
    fp_clients t = fp_clients s \<and> fp_cap t = fp_cap s \<and> fp_ready t = fp_ready s \<and> fp_stop t = fp_stop s \<and>
    fp_submitted t = fp_submitted s"
  using assms by (cases p) (clarsimp simp: fw_defs list_PopFront_cases split: fw_splits)+

lemma fp_step_cases:
  assumes "fp_step e s = Some t"
  obtains (start) "e = FE_Start" "fp_Start s = Some t"
  | (worker) i ch where "e = FE_Worker i ch" "worker_at (fp_pc s i) i ch s = Some t"
  | (submit) i x h where "e = FE_Submit i x h" "submit_begin i x h s = Some t"
  | (submitter) i k where "e = FE_Submitter i k" "submit_at (fp_sub s i) i k s = Some t"
  | (stop) "e = FE_Stop" "fp_Stop (fp_stop s) s = Some t"
  using assms by (cases e) (auto simp: fp_step_def split: if_splits)

section \<open>Spinning workers\<close>

definition inv_spin :: "'t fpool \<Rightarrow> bool" where
  "inv_spin s \<longleftrightarrow> fp_spinning s = (\<Sum>i<fp_threads s. fw_spins (fp_pc s i)) \<and>
     (\<forall>i. \<not> i < fp_threads s \<longrightarrow> fp_pc s i = FW_NotStarted)"

lemma worker_spins:
  assumes "worker_at p i ch s = Some t" "fp_pc s i = p" "fw_spins p \<le> fp_spinning s"
  shows "fp_spinning t + fw_spins p = fp_spinning s + fw_spins (fp_pc t i)"
  using assms by (cases p) (clarsimp simp: fw_defs list_PopFront_cases split: fw_splits)+

lemma inv_spin_worker:
  assumes "inv_spin s" "worker_at (fp_pc s i) i ch s = Some t"
  shows "inv_spin t"
proof -
  from assms have i: "i < fp_threads s" by (cases "i < fp_threads s") (auto simp: inv_spin_def)
  note upd = worker_pc_upd [OF assms(2)]
  have "fw_spins (fp_pc s i) \<le> (\<Sum>k<fp_threads s. fw_spins (fp_pc s k))"
    using i by (intro member_le_sum) auto
  with assms have "fp_spinning t + fw_spins (fp_pc s i) = fp_spinning s + fw_spins (fp_pc t i)"
    by (intro worker_spins) (auto simp: inv_spin_def)
  moreover have "(\<Sum>k<fp_threads s. fw_spins (fp_pc t k)) + fw_spins (fp_pc s i) =
      (\<Sum>k<fp_threads s. fw_spins (fp_pc s k)) + fw_spins (fp_pc t i)"
    using sum_fun_upd [OF i, of fw_spins "fp_pc s" "fp_pc t i"] upd by metis
  moreover have "\<not> k < fp_threads s \<Longrightarrow> fp_pc t k = FW_NotStarted" for k
    using assms(1) upd i by (metis fun_upd_other inv_spin_def)
  ultimately show ?thesis using assms(1) upd by (simp add: inv_spin_def)
qed

text \<open>A submitter's step leaves the workers where they are.\<close>

lemmas fs_defs = fs_goto_def submit_push_def offload_grab_def fp_PopWaiter_def fp_Wake_def Let_def

lemma submit_frame:
  assumes "submit_at p i k s = Some t"
  shows "fp_sub t = (fp_sub s)(i := fp_sub t i) \<and> fp_pc t = fp_pc s \<and> fp_threads t = fp_threads s \<and>
    fp_clients t = fp_clients s \<and> fp_cap t = fp_cap s \<and> fp_ready t = fp_ready s \<and> fp_stop t = fp_stop s \<and>
    fp_spinning t = fp_spinning s \<and> fp_wstop t = fp_wstop s \<and> fp_stopped t = fp_stopped s \<and>
    fp_submitted t = fp_submitted s \<and> fp_ran t = fp_ran s \<and> fp_aborted t = fp_aborted s"
  using assms by (cases p) (clarsimp simp: fs_defs split: if_splits option.splits list.splits)+

text \<open>\<open>Start\<close>, \<open>Stop\<close> and the beginning of \<open>Submit\<close> do not touch the queues.\<close>

lemma stop_frame:
  assumes "fp_Stop p s = Some t"
  shows "fp_sub t = fp_sub s \<and> fp_pc t = fp_pc s \<and> fp_threads t = fp_threads s \<and> fp_clients t = fp_clients s \<and>
    fp_cap t = fp_cap s \<and> fp_spinning t = fp_spinning s \<and> fp_waiters t = fp_waiters s \<and>
    fp_local t = fp_local s \<and> fp_lifo t = fp_lifo s \<and> fp_global t = fp_global s \<and> fp_aborted t = fp_aborted s \<and>
    fp_submitted t = fp_submitted s \<and> fp_ran t = fp_ran s"
  using assms by (cases p) (auto simp: fp_StoppingWake_store_def fp_Wake_def split: if_splits)

lemma inv_spin_step:
  assumes "inv_spin s" "fp_step e s = Some t"
  shows "inv_spin t"
  using assms(2)
proof (cases rule: fp_step_cases)
  case start
  with assms(1) show ?thesis by (auto simp: fp_Start_def inv_spin_def split: if_splits)
next
  case (worker i ch)
  from assms(1) worker(2) show ?thesis by (rule inv_spin_worker)
next
  case (submit i x h)
  with assms(1) show ?thesis by (auto simp: submit_begin_def fs_goto_def inv_spin_def split: if_splits)
next
  case (submitter i k)
  from assms(1) submit_frame [OF submitter(2)] show ?thesis by (simp add: inv_spin_def)
next
  case stop
  from assms(1) stop_frame [OF stop(2)] show ?thesis by (simp add: inv_spin_def)
qed

section \<open>Local queues\<close>

definition inv_local :: "'t fpool \<Rightarrow> bool" where
  "inv_local s \<longleftrightarrow> (\<forall>i.
     (fw_drained (fp_pc s i) \<longrightarrow> fp_local s i = [] \<and> fp_lifo s i = None) \<and>
     (\<forall>from. fp_pc s i = FW_Local from \<longrightarrow> fp_lifo s i = None) \<and>
     (\<forall>old ts x. fp_pc s i = FW_StealPush old ts x \<longrightarrow> length (fp_local s i) + length ts < fp_cap s) \<and>
     length (fp_local s i) \<le> fp_cap s) \<and> \<not> fp_aborted s"

text \<open>A submission by a worker happens while it runs a task; only workers reach \<open>TryPush\<close>.\<close>

fun fs_ok :: "nat \<Rightarrow> 't fw_pc \<Rightarrow> nat \<Rightarrow> 't fs_pc \<Rightarrow> bool" where
  "fs_ok n p i FS_Idle = True"
| "fs_ok n p i (FS_TryPush _) = (i < n \<and> fw_running p)"
| "fs_ok n p i (FS_Grab _) = (i < n \<and> fw_running p)"
| "fs_ok n p i (FS_PushMany _) = (i < n \<and> fw_running p)"
| "fs_ok n p i (FS_Wake j) = (j < n \<and> (i < n \<longrightarrow> fw_running p))"
| "fs_ok n p i _ = (i < n \<longrightarrow> fw_running p)"

definition inv_sub :: "'t fpool \<Rightarrow> bool" where
  "inv_sub s \<longleftrightarrow> (\<forall>i. fs_ok (fp_threads s) (fp_pc s i) i (fp_sub s i)) \<and>
     set (fp_waiters s) \<subseteq> {..<fp_threads s} \<and>
     (\<forall>i. \<not> i < fp_threads s \<longrightarrow> fp_pc s i = FW_NotStarted)"

lemma inv_subD:
  assumes "inv_sub s"
  shows "i < fp_threads s \<Longrightarrow> fp_sub s i \<noteq> FS_Idle \<Longrightarrow> fw_running (fp_pc s i)"
    "\<not> i < fp_threads s \<Longrightarrow> fp_pc s i = FW_NotStarted"
    "set (fp_waiters s) \<subseteq> {..<fp_threads s}"
    "fs_ok (fp_threads s) (fp_pc s i) i (fp_sub s i)"
    "\<not> i < fp_threads s \<Longrightarrow> fp_sub s i \<noteq> FS_TryPush x \<and> fp_sub s i \<noteq> FS_Grab x"
proof -
  show ok: "fs_ok (fp_threads s) (fp_pc s i) i (fp_sub s i)" using assms by (simp add: inv_sub_def)
  show "i < fp_threads s \<Longrightarrow> fp_sub s i \<noteq> FS_Idle \<Longrightarrow> fw_running (fp_pc s i)"
    using ok by (cases "fp_sub s i") simp_all
  show "\<not> i < fp_threads s \<Longrightarrow> fp_sub s i \<noteq> FS_TryPush x \<and> fp_sub s i \<noteq> FS_Grab x"
    using ok by (cases "fp_sub s i") simp_all
qed (use assms in \<open>simp_all add: inv_sub_def\<close>)

text \<open>A thief only shortens the queue of its victim.\<close>

lemma worker_local_others:
  assumes "worker_at p i ch s = Some t" "fp_pc s i = p" "j \<noteq> i"
  shows "\<exists>n. fp_local t j = drop n (fp_local s j)"  "fp_lifo t j = fp_lifo s j"
  using assms by (cases p; clarsimp simp: fw_defs list_PopFront_cases split: fw_splits; metis drop_0)+

definition local_ok :: "'t fpool \<Rightarrow> nat \<Rightarrow> bool" where
  "local_ok s i \<longleftrightarrow>
     (fw_drained (fp_pc s i) \<longrightarrow> fp_local s i = [] \<and> fp_lifo s i = None) \<and>
     (\<forall>from. fp_pc s i = FW_Local from \<longrightarrow> fp_lifo s i = None) \<and>
     (\<forall>old ts x. fp_pc s i = FW_StealPush old ts x \<longrightarrow> length (fp_local s i) + length ts < fp_cap s) \<and>
     length (fp_local s i) \<le> fp_cap s"

lemma inv_local_iff: "inv_local s \<longleftrightarrow> (\<forall>i. local_ok s i) \<and> \<not> fp_aborted s"
  by (simp add: inv_local_def local_ok_def)

lemma local_ok_other:
  assumes "local_ok s j" "fp_pc t j = fp_pc s j" "fp_cap t = fp_cap s"
    "fp_lifo t j = fp_lifo s j" "fp_local t j = drop n (fp_local s j)"
  shows "local_ok t j"
  using assms unfolding local_ok_def by (auto simp: less_imp_diff_less)

lemma local_ok_self:
  assumes "worker_at p i ch s = Some t" "fp_pc s i = p" "local_ok s i"
  shows "local_ok t i"
proof (cases p)
  case (FW_Steal old order)
  have "n \<le> StealTasks_limit m s \<Longrightarrow> 0 < n \<Longrightarrow> n - Suc 0 < fp_cap s" for n m
    by (simp add: StealTasks_limit_def) linarith
  with FW_Steal assms show ?thesis
    by (clarsimp simp: local_ok_def fw_defs list_PopFront_cases split: fw_splits)
qed (use assms in \<open>clarsimp simp: local_ok_def fw_defs list_PopFront_cases split: fw_splits\<close>)+

lemma worker_not_aborted:
  assumes "worker_at p i ch s = Some t" "fp_pc s i = p" "local_ok s i" "\<not> fp_aborted s"
  shows "\<not> fp_aborted t"
  using assms
  by (cases p) (clarsimp simp: local_ok_def fw_defs list_PopFront_cases split: fw_splits)+

lemma inv_local_worker:
  assumes "inv_local s" "worker_at (fp_pc s i) i ch s = Some t"
  shows "inv_local t"
proof -
  note upd = worker_pc_upd [OF assms(2)]
  have "local_ok t j" for j
  proof (cases "j = i")
    case True
    with assms local_ok_self [OF assms(2) refl] show ?thesis by (simp add: inv_local_iff)
  next
    case False
    with worker_local_others(1) [OF assms(2) refl False] obtain n where
      "fp_local t j = drop n (fp_local s j)" by blast
    moreover have "fp_pc t j = fp_pc s j" using upd False by (metis fun_upd_other)
    ultimately show ?thesis
      using assms(1) upd worker_local_others(2) [OF assms(2) refl False]
      by (intro local_ok_other [of s j t n]) (auto simp: inv_local_iff)
  qed
  moreover have "\<not> fp_aborted t"
    using assms worker_not_aborted [OF assms(2) refl] by (simp add: inv_local_iff)
  ultimately show ?thesis by (simp add: inv_local_iff)
qed

text \<open>A submitter pushes into its own local queue only, and only while it runs a task.\<close>

lemmas fs_splits = if_splits option.splits list.splits

lemma submit_local:
  assumes "submit_at p i k s = Some t"
  shows "p \<noteq> FS_Idle \<and> (\<forall>j. j \<noteq> i \<longrightarrow> fp_local t j = fp_local s j \<and> fp_lifo t j = fp_lifo s j) \<and>
    (length (fp_local s i) \<le> fp_cap s \<longrightarrow> length (fp_local t i) \<le> fp_cap s)"
  using assms by (cases p) (clarsimp simp: fs_defs le_trans [OF diff_le_self] split: fs_splits)+

lemma submit_local_outside:
  assumes "submit_at p i k s = Some t" "\<not> i < fp_threads s"
    "\<forall>x. p \<noteq> FS_TryPush x" "\<forall>x. p \<noteq> FS_Grab x"
  shows "fp_local t i = fp_local s i \<and> fp_lifo t i = fp_lifo s i"
  using assms by (cases p) (clarsimp simp: fs_defs split: fs_splits)+

lemma inv_local_submit:
  assumes "inv_local s" "inv_sub s" "submit_at (fp_sub s i) i k s = Some t"
  shows "inv_local t"
proof -
  note frame = submit_frame [OF assms(3)]
  have "local_ok t j" for j
  proof (cases "j = i")
    case False
    with assms frame submit_local [OF assms(3)] show ?thesis
      by (intro local_ok_other [of s j t 0]) (auto simp: inv_local_iff)
  next
    case True
    have len: "length (fp_local t i) \<le> fp_cap s"
      using assms(1) submit_local [OF assms(3)] by (simp add: inv_local_def)
    show ?thesis
    proof (cases "i < fp_threads s")
      case i: True
      have "fw_running (fp_pc s i)"
        using inv_subD(1) [OF assms(2) i] submit_local [OF assms(3)] by simp
      then show ?thesis using len frame True
        by (cases "fp_pc s i") (simp_all add: local_ok_def)
    next
      case i: False
      have "fp_local t i = fp_local s i \<and> fp_lifo t i = fp_lifo s i"
        using inv_subD(5) [OF assms(2) i] by (intro submit_local_outside [OF assms(3) i]) simp_all
      with True assms(1) frame show ?thesis
        by (intro local_ok_other [of s j t 0]) (auto simp: inv_local_iff)
    qed
  qed
  with assms(1) frame show ?thesis by (simp add: inv_local_iff)
qed

lemma local_ok_cong:
  assumes "fp_pc t i = fp_pc s i" "fp_local t i = fp_local s i" "fp_lifo t i = fp_lifo s i" "fp_cap t = fp_cap s"
  shows "local_ok t i = local_ok s i"
  by (simp add: local_ok_def assms)

lemma inv_local_step:
  assumes "inv_local s" "inv_sub s" "fp_step e s = Some t"
  shows "inv_local t"
  using assms(3)
proof (cases rule: fp_step_cases)
  case start
  with assms(1) show ?thesis by (auto simp: fp_Start_def inv_local_def split: if_splits)
next
  case (worker i ch)
  from assms(1) worker(2) show ?thesis by (rule inv_local_worker)
next
  case (submit i x h)
  then have "local_ok t j = local_ok s j" "fp_aborted t = fp_aborted s" for j
    by (auto simp: submit_begin_def fs_goto_def local_ok_def split: if_splits)
  with assms(1) show ?thesis by (simp add: inv_local_iff)
next
  case (submitter i k)
  from assms(1,2) submitter(2) show ?thesis by (rule inv_local_submit)
next
  case stop
  note stop_frame [OF stop(2)]
  moreover from this have "local_ok t j = local_ok s j" for j by (intro local_ok_cong) simp_all
  ultimately show ?thesis using assms(1) by (simp add: inv_local_iff)
qed

section \<open>Submitters and waiters\<close>

lemma worker_waiters:
  assumes "worker_at p i ch s = Some t" "fp_pc s i = p"
  shows "set (fp_waiters t) \<subseteq> insert i (set (fp_waiters s)) \<and> p \<noteq> FW_NotStarted \<and>
    (fw_running p \<longrightarrow> fp_sub s i = FS_Idle)"
  using assms by (cases p) (clarsimp simp: fw_defs list_PopFront_cases split: fw_splits; blast?)+

lemma inv_sub_worker:
  assumes "inv_sub s" "worker_at (fp_pc s i) i ch s = Some t"
  shows "inv_sub t"
proof -
  note upd = worker_pc_upd [OF assms(2)]
  note w = worker_waiters [OF assms(2) refl]
  have i: "i < fp_threads s" using w inv_subD(2) [OF assms(1), of i] by argo
  have idle: "fp_sub s i = FS_Idle" using w i inv_subD(1) [OF assms(1), of i] by argo
  have pc: "j \<noteq> i \<Longrightarrow> fp_pc t j = fp_pc s j" for j using upd by (metis fun_upd_other)
  have "fs_ok (fp_threads s) (fp_pc t j) j (fp_sub s j)" for j
    using inv_subD(4) [OF assms(1), of j] idle pc [of j] by (cases "j = i") simp_all
  moreover have "fp_pc t j = FW_NotStarted" if "\<not> j < fp_threads s" for j
    using that inv_subD(2) [OF assms(1), of j] i pc [of j] by (cases "j = i") simp_all
  moreover have "set (fp_waiters t) \<subseteq> {..<fp_threads s}"
    using w i inv_subD(3) [OF assms(1)] by (meson insert_subset lessThan_iff subset_trans)
  ultimately show ?thesis using upd by (simp add: inv_sub_def)
qed

lemma submit_ok_self:
  assumes "submit_at p i k s = Some t" "fs_ok (fp_threads s) (fp_pc s i) i p"
    "set (fp_waiters s) \<subseteq> {..<fp_threads s}"
  shows "fs_ok (fp_threads s) (fp_pc s i) i (fp_sub t i) \<and> set (fp_waiters t) \<subseteq> {..<fp_threads s}"
  using assms by (cases p) (clarsimp simp: fs_defs split: fs_splits)+

lemma inv_sub_submit:
  assumes "inv_sub s" "submit_at (fp_sub s i) i k s = Some t"
  shows "inv_sub t"
proof -
  note frame = submit_frame [OF assms(2)]
  note self = submit_ok_self [OF assms(2) inv_subD(4,3) [OF assms(1)]]
  have others: "j \<noteq> i \<Longrightarrow> fp_sub t j = fp_sub s j" for j using frame by (metis fun_upd_other)
  have "fs_ok (fp_threads s) (fp_pc s j) j (fp_sub t j)" for j
    using inv_subD(4) [OF assms(1), of j] self others [of j] by (cases "j = i") simp_all
  with self frame inv_subD(2) [OF assms(1)] show ?thesis by (simp add: inv_sub_def)
qed

lemma inv_sub_step:
  assumes "inv_sub s" "fp_step e s = Some t"
  shows "inv_sub t"
  using assms(2)
proof (cases rule: fp_step_cases)
  case start
  then have t: "t = s\<lparr>fp_pc := (\<lambda>i. if i < fp_threads s then FW_Top else fp_pc s i)\<rparr>"
    and ns: "\<And>i. i < fp_threads s \<Longrightarrow> fp_pc s i = FW_NotStarted"
    by (auto simp: fp_Start_def split: if_splits)
  have "i < fp_threads s \<Longrightarrow> fp_sub s i = FS_Idle" for i
    using inv_subD(1) [OF assms(1), of i] ns [of i] by (cases "fp_sub s i") simp_all
  then have "fs_ok (fp_threads s) (fp_pc t i) i (fp_sub s i)" for i
    using inv_subD(4) [OF assms(1), of i] by (cases "i < fp_threads s") (simp_all add: t)
  with inv_subD(2,3) [OF assms(1)] show ?thesis by (simp add: t inv_sub_def)
next
  case (worker i ch)
  from assms(1) worker(2) show ?thesis by (rule inv_sub_worker)
next
  case (submit i x h)
  with assms(1) show ?thesis by (auto simp: submit_begin_def fs_goto_def inv_sub_def split: if_splits)
next
  case (submitter i k)
  from assms(1) submitter(2) show ?thesis by (rule inv_sub_submit)
next
  case stop
  from assms(1) stop_frame [OF stop(2)] show ?thesis by (simp add: inv_sub_def)
qed

section \<open>Enlisted workers can be found\<close>

definition wait_ok :: "'t fpool \<Rightarrow> nat \<Rightarrow> bool" where
  "wait_ok s i \<longleftrightarrow>
     (\<forall>w. fp_pc s i = FW_PushWaiter w \<or> fw_enlisted (fp_pc s i) = Some w \<longrightarrow> w \<le> fp_wakeups s i) \<and>
     (fw_enlisted (fp_pc s i) = Some (fp_wakeups s i) \<longrightarrow> i \<in> set (fp_waiters s) \<or> fp_pending s i)"

definition inv_wait :: "'t fpool \<Rightarrow> bool" where
  "inv_wait s \<longleftrightarrow> (fp_bounded s \<longrightarrow> (\<forall>i. wait_ok s i))"

lemma wait_ok_other:
  assumes "wait_ok s j" "fp_pc t j = fp_pc s j" "fp_wakeups s j \<le> fp_wakeups t j"
    "j \<in> set (fp_waiters s) \<Longrightarrow> j \<in> set (fp_waiters t) \<or> fp_pending t j"
    "fp_pending s j \<Longrightarrow> fp_pending t j \<or> fp_wakeups s j < fp_wakeups t j"
  shows "wait_ok t j"
proof -
  have le: "w \<le> fp_wakeups s j" if "fp_pc s j = FW_PushWaiter w \<or> fw_enlisted (fp_pc s j) = Some w" for w
    using assms(1) that by (auto simp: wait_ok_def)
  have "j \<in> set (fp_waiters t) \<or> fp_pending t j" if "fw_enlisted (fp_pc s j) = Some (fp_wakeups t j)"
  proof -
    from that le have eq: "fp_wakeups t j = fp_wakeups s j" using assms(3) by (simp add: le_antisym)
    with that assms(1) have "j \<in> set (fp_waiters s) \<or> fp_pending s j" by (simp add: wait_ok_def)
    with assms(4,5) eq show ?thesis by auto
  qed
  with le assms(2,3) show ?thesis by (auto simp: wait_ok_def intro: le_trans)
qed

lemma worker_wakes:
  assumes "worker_at p i ch s = Some t" "fp_pc s i = p"
  shows "fp_wakeups s j \<le> fp_wakeups t j \<and>
    (j \<in> set (fp_waiters s) \<longrightarrow> j \<in> set (fp_waiters t) \<or> (\<exists>k x. fp_pc t i = FW_WakeDo j k x)) \<and>
    (\<forall>k x. p = FW_WakeDo j k x \<longrightarrow> fp_wakeups s j < fp_wakeups t j)"
  using assms by (cases p) (clarsimp simp: fw_defs list_PopFront_cases split: fw_splits)+

lemma worker_wait_self:
  assumes "worker_at p i ch s = Some t" "fp_pc s i = p" "fp_bounded s" "wait_ok s i"
  shows "(\<forall>w. fp_pc t i = FW_PushWaiter w \<or> fw_enlisted (fp_pc t i) = Some w \<longrightarrow> w \<le> fp_wakeups t i) \<and>
    (fw_enlisted (fp_pc t i) \<noteq> None \<longrightarrow> i \<in> set (fp_waiters t) \<or>
       (fw_enlisted (fp_pc t i) = fw_enlisted p \<and> fp_waiters t = fp_waiters s \<and> fp_wakeups t = fp_wakeups s))"
  using assms
  by (cases p) (clarsimp simp: wait_ok_def fp_bounded_def fp_load_wakeups_def fw_defs list_PopFront_cases split: fw_splits)+

lemma worker_pending:
  assumes "worker_at (fp_pc s i) i ch s = Some t" "fp_pending s j"
  shows "fp_pending t j \<or> fp_wakeups s j < fp_wakeups t j"
proof -
  note upd = worker_pc_upd [OF assms(1)]
  note w = worker_wakes [OF assms(1) refl, of j]
  from assms(2) [unfolded fp_pending_def] show ?thesis
  proof (elim disjE exE)
    fix x assume "fp_sub s x = FS_Wake j"
    with upd have "fp_pending t j" by (auto simp: fp_pending_def)
    then show ?thesis ..
  next
    fix x k y assume *: "fp_pc s x = FW_WakeDo j k y"
    show ?thesis
    proof (cases "x = i")
      case False
      then have "fp_pc t x = FW_WakeDo j k y" using * upd by (metis fun_upd_other)
      then have "fp_pending t j" unfolding fp_pending_def by blast
      then show ?thesis ..
    next
      case True
      with * w show ?thesis by auto
    qed
  qed
qed

lemma fp_bounded_mono:
  assumes "fp_bounded t" "\<And>j. fp_wakeups s j \<le> fp_wakeups t j"
  shows "fp_bounded s"
  using assms by (meson fp_bounded_def le_less_trans)

lemma inv_wait_worker:
  assumes "inv_wait s" "worker_at (fp_pc s i) i ch s = Some t"
  shows "inv_wait t"
  unfolding inv_wait_def
proof (intro impI allI)
  fix j assume "fp_bounded t"
  note w = worker_wakes [OF assms(2) refl]
  from \<open>fp_bounded t\<close> have b: "fp_bounded s" by (rule fp_bounded_mono) (use w in blast)
  with assms(1) have ok: "wait_ok s k" for k by (simp add: inv_wait_def)
  note upd = worker_pc_upd [OF assms(2)]
  show "wait_ok t j"
  proof (cases "j = i")
    case False
    then have "fp_pc t j = fp_pc s j" using upd by (metis fun_upd_other)
    moreover have "j \<in> set (fp_waiters s) \<Longrightarrow> j \<in> set (fp_waiters t) \<or> fp_pending t j"
      using w [of j] unfolding fp_pending_def by blast
    ultimately show ?thesis
      using ok [of j] w [of j] worker_pending [OF assms(2), of j] by (intro wait_ok_other [of s j t]) auto
  next
    case True
    note self = worker_wait_self [OF assms(2) refl b ok]
    have "i \<in> set (fp_waiters t) \<or> fp_pending t i" if "fw_enlisted (fp_pc t i) = Some (fp_wakeups t i)"
    proof (cases "i \<in> set (fp_waiters t)")
      case False
      with self that have "fw_enlisted (fp_pc s i) = Some (fp_wakeups s i)" "fp_waiters t = fp_waiters s"
        "fp_wakeups t = fp_wakeups s" by auto
      with ok [of i] False have "fp_pending s i" by (simp add: wait_ok_def)
      from worker_pending [OF assms(2) this] show ?thesis using \<open>fp_wakeups t = fp_wakeups s\<close> by simp
    qed simp
    with self True show ?thesis by (simp add: wait_ok_def)
  qed
qed

lemma submit_wakes:
  assumes "submit_at p i k s = Some t"
  shows "fp_wakeups s j \<le> fp_wakeups t j \<and>
    (j \<in> set (fp_waiters s) \<longrightarrow> j \<in> set (fp_waiters t) \<or> fp_sub t i = FS_Wake j) \<and>
    (p = FS_Wake j \<longrightarrow> fp_wakeups s j < fp_wakeups t j)"
  using assms by (cases p) (clarsimp simp: fs_defs split: fs_splits)+

lemma submit_pending:
  assumes "submit_at (fp_sub s i) i k s = Some t" "fp_pending s j"
  shows "fp_pending t j \<or> fp_wakeups s j < fp_wakeups t j"
proof (cases "fp_sub s i = FS_Wake j")
  case True
  with submit_wakes [OF assms(1), of j] show ?thesis by simp
next
  case False
  note frame = submit_frame [OF assms(1)]
  have "fp_sub s x = FS_Wake j \<Longrightarrow> fp_sub t x = FS_Wake j" for x
    using False frame by (metis fun_upd_other)
  with assms(2) frame have "fp_pending t j" unfolding fp_pending_def by metis
  then show ?thesis ..
qed

lemma inv_wait_submit:
  assumes "inv_wait s" "submit_at (fp_sub s i) i k s = Some t"
  shows "inv_wait t"
  unfolding inv_wait_def
proof (intro impI allI)
  fix j assume "fp_bounded t"
  note w = submit_wakes [OF assms(2)]
  from \<open>fp_bounded t\<close> have b: "fp_bounded s" by (rule fp_bounded_mono) (use w in blast)
  with assms(1) have ok: "wait_ok s j" by (simp add: inv_wait_def)
  moreover have "j \<in> set (fp_waiters s) \<Longrightarrow> j \<in> set (fp_waiters t) \<or> fp_pending t j"
    using w [of j] unfolding fp_pending_def by blast
  ultimately show "wait_ok t j"
    using w [of j] submit_frame [OF assms(2)] submit_pending [OF assms(2), of j]
    by (intro wait_ok_other [of s j t]) auto
qed

lemma inv_wait_frame:
  assumes "inv_wait s" "\<And>j. fp_wakeups s j \<le> fp_wakeups t j" "fp_waiters t = fp_waiters s"
    "\<And>j. fp_pending s j \<Longrightarrow> fp_pending t j"
    "\<And>j. fp_pc t j = fp_pc s j \<or> fp_pc t j = FW_Top"
  shows "inv_wait t"
  unfolding inv_wait_def
proof (intro impI allI)
  fix j assume "fp_bounded t"
  then have "fp_bounded s" using assms(2) by (rule fp_bounded_mono)
  then have ok: "wait_ok s j" using assms(1) by (simp add: inv_wait_def)
  show "wait_ok t j"
  proof (cases "fp_pc t j = FW_Top")
    case True
    then show ?thesis by (simp add: wait_ok_def)
  next
    case False
    with ok assms(2,3,4) assms(5) [of j] show ?thesis by (intro wait_ok_other [of s j t]) auto
  qed
qed

lemma inv_wait_step:
  assumes "inv_wait s" "fp_step e s = Some t"
  shows "inv_wait t"
  using assms(2)
proof (cases rule: fp_step_cases)
  case start
  then have t: "t = s\<lparr>fp_pc := (\<lambda>i. if i < fp_threads s then FW_Top else fp_pc s i)\<rparr>"
    and ns: "\<And>i. i < fp_threads s \<Longrightarrow> fp_pc s i = FW_NotStarted"
    by (auto simp: fp_Start_def split: if_splits)
  have "fp_pc s x = FW_WakeDo j k y \<Longrightarrow> fp_pc t x = FW_WakeDo j k y" for x j k y
    using ns [of x] by (auto simp: t)
  moreover have "fp_sub t = fp_sub s" by (simp add: t)
  ultimately have pend: "fp_pending s j \<Longrightarrow> fp_pending t j" for j unfolding fp_pending_def by metis
  show ?thesis by (rule inv_wait_frame [OF assms(1) _ _ pend]) (auto simp: t)
next
  case (worker i ch)
  from assms(1) worker(2) show ?thesis by (rule inv_wait_worker)
next
  case (submit i x h)
  then have idle: "fp_sub s i = FS_Idle"
    and t: "fp_sub t = (fp_sub s)(i := FS_Push x h)" "fp_pc t = fp_pc s" "fp_waiters t = fp_waiters s"
      "fp_wakeups t = fp_wakeups s"
    by (auto simp: submit_begin_def fs_goto_def split: if_splits)
  have "fp_sub s y = FS_Wake j \<Longrightarrow> fp_sub t y = FS_Wake j" for y j using idle by (auto simp: t)
  then have pend: "fp_pending s j \<Longrightarrow> fp_pending t j" for j unfolding fp_pending_def by (metis t(2))
  show ?thesis by (rule inv_wait_frame [OF assms(1) _ _ pend]) (auto simp: t)
next
  case (submitter i k)
  from assms(1) submitter(2) show ?thesis by (rule inv_wait_submit)
next
  case stop
  note frame = stop_frame [OF stop(2)]
  have mono: "fp_wakeups s j \<le> fp_wakeups t j" for j
    using stop(2) by (cases "fp_stop s") (auto simp: fp_StoppingWake_store_def fp_Wake_def split: if_splits)
  have pend: "fp_pending s j \<Longrightarrow> fp_pending t j" for j using frame by (simp add: fp_pending_def)
  show ?thesis by (rule inv_wait_frame [OF assms(1) mono _ pend]) (use frame in simp_all)
qed

section \<open>A queued task keeps somebody awake\<close>

definition fp_busy :: "'t fpool \<Rightarrow> bool" where
  "fp_busy s \<longleftrightarrow> (\<exists>x. fs_waking (fp_sub s x)) \<or> (\<exists>i. i < fp_threads s \<and> fw_awake s i)"

definition inv_busy :: "'t fpool \<Rightarrow> bool" where
  "inv_busy s \<longleftrightarrow> (fp_bounded s \<longrightarrow> 0 < fp_threads s \<longrightarrow> fp_global s \<noteq> [] \<longrightarrow> fp_busy s)"

lemma worker_commits:
  assumes "worker_at p i ch s = Some t" "fp_pc s i = p" "fw_committed (fp_pc t i) = Some w"
  shows "fp_global t = [] \<or> (fw_committed p = Some w \<and> fp_global t = fp_global s \<and> fp_wakeups t = fp_wakeups s)"
  using assms by (cases p) (clarsimp simp: fw_defs list_PopFront_cases split: fw_splits)+

lemma inv_busy_worker:
  assumes "inv_busy s" "inv_spin s" "worker_at (fp_pc s i) i ch s = Some t"
  shows "inv_busy t"
  unfolding inv_busy_def
proof (intro impI)
  assume b: "fp_bounded t" "0 < fp_threads t" "fp_global t \<noteq> []"
  note upd = worker_pc_upd [OF assms(3)]
  have i: "i < fp_threads s" using assms(2,3) by (cases "i < fp_threads s") (auto simp: inv_spin_def)
  show "fp_busy t"
  proof (cases "fw_awake t i")
    case True
    with i upd show ?thesis by (auto simp: fp_busy_def)
  next
    case False
    then have "fw_committed (fp_pc t i) = Some (fp_wakeups t i)" by (simp add: fw_awake_def)
    from worker_commits [OF assms(3) refl this] b(3)
    have c: "fw_committed (fp_pc s i) = Some (fp_wakeups s i)" "fp_global t = fp_global s" "fp_wakeups t = fp_wakeups s"
      by auto
    have "fp_bounded s" using b(1) c(3) by (simp add: fp_bounded_def)
    with assms(1) b c upd have "fp_busy s" by (simp add: inv_busy_def)
    moreover have "fw_awake s k \<Longrightarrow> fw_awake t k" for k
      using c upd by (metis fun_upd_other fw_awake_def)
    ultimately show ?thesis using upd by (auto simp: fp_busy_def)
  qed
qed

lemma fw_spins_awake: "0 < fw_spins (fp_pc s i) \<Longrightarrow> fw_awake s i"
  by (cases "fp_pc s i" rule: fw_spins.cases) (simp_all add: fw_awake_def)

lemma spinner_exists:
  assumes "inv_spin s" "fp_spinning s \<noteq> 0"
  shows "\<exists>i. i < fp_threads s \<and> fw_awake s i"
proof -
  from assms have "(\<Sum>i<fp_threads s. fw_spins (fp_pc s i)) \<noteq> 0" by (simp add: inv_spin_def)
  then obtain i where "i < fp_threads s" "fw_spins (fp_pc s i) \<noteq> 0" by auto
  with fw_spins_awake [of s i] show ?thesis by auto
qed

text \<open>
  If \<open>PopWaiter\<close> finds nobody, then a worker that is not awake is the target of a pending wakeup.
\<close>

lemma no_waiters_busy:
  assumes "inv_wait s" "inv_sub s" "fp_bounded s" "fp_waiters s = []" "0 < fp_threads s"
    "\<And>x. x \<noteq> i \<Longrightarrow> \<not> fs_waking (fp_sub s x)" "\<And>j. fp_sub s i \<noteq> FS_Wake j"
  shows "\<exists>k. k < fp_threads s \<and> fw_awake s k"
proof (rule ccontr)
  assume none: "\<not> ?thesis"
  with assms(5) have "fw_committed (fp_pc s 0) = Some (fp_wakeups s 0)" by (auto simp: fw_awake_def)
  then have "fw_enlisted (fp_pc s 0) = Some (fp_wakeups s 0)" by (cases "fp_pc s 0") simp_all
  with assms(1,3,4) have "fp_pending s 0" by (auto simp: inv_wait_def wait_ok_def)
  then show False unfolding fp_pending_def
  proof (elim disjE exE)
    fix x assume "fp_sub s x = FS_Wake 0"
    with assms(6) [of x] assms(7) [of 0] show False by (cases "x = i") auto
  next
    fix x k y assume x: "fp_pc s x = FW_WakeDo 0 k y"
    then have "x < fp_threads s" using inv_subD(2) [OF assms(2), of x] by force
    moreover have "fw_awake s x" by (simp add: fw_awake_def x)
    ultimately show False using none by blast
  qed
qed

lemma submit_idle:
  assumes "submit_at p i k s = Some t" "\<not> fs_waking (fp_sub t i)" "fs_ok (fp_threads s) (fp_pc s i) i p"
  shows "(p = FS_Spin \<and> fp_spinning s \<noteq> 0 \<and> fp_wakeups t = fp_wakeups s) \<or>
    (p = FS_Pop \<and> fp_waiters s = [] \<and> t = s\<lparr>fp_sub := (fp_sub s)(i := FS_Idle)\<rparr>) \<or>
    (\<exists>j. p = FS_Wake j \<and> fp_wakeups t j = Suc (fp_wakeups s j)) \<or>
    (i < fp_threads s \<and> fw_running (fp_pc s i))"
  using assms by (cases p) (clarsimp simp: fs_defs split: fs_splits)+

lemma inv_busy_submit:
  assumes "inv_busy s" "inv_spin s" "inv_wait s" "inv_sub s" "submit_at (fp_sub s i) i k s = Some t"
  shows "inv_busy t"
  unfolding inv_busy_def
proof (intro impI)
  assume b: "fp_bounded t" "0 < fp_threads t" "fp_global t \<noteq> []"
  note frame = submit_frame [OF assms(5)]
  have bs: "fp_bounded s" by (rule fp_bounded_mono [OF b(1)]) (use submit_wakes [OF assms(5)] in blast)
  have others: "x \<noteq> i \<Longrightarrow> fp_sub t x = fp_sub s x" for x using frame by (metis fun_upd_other)
  show "fp_busy t"
  proof (cases "\<exists>x. fs_waking (fp_sub t x)")
    case True
    then show ?thesis by (simp add: fp_busy_def)
  next
    case no_waker: False
    note submit_idle [OF assms(5) _ inv_subD(4) [OF assms(4)]]
    with no_waker consider (spin) "fp_spinning s \<noteq> 0" "fp_wakeups t = fp_wakeups s"
      | (pop) "fp_sub s i = FS_Pop" "fp_waiters s = []" "t = s\<lparr>fp_sub := (fp_sub s)(i := FS_Idle)\<rparr>"
      | (wake) j where "fp_sub s i = FS_Wake j" "fp_wakeups t j = Suc (fp_wakeups s j)"
      | (run) "i < fp_threads s" "fw_running (fp_pc s i)"
      by blast
    then have "\<exists>k. k < fp_threads t \<and> fw_awake t k"
    proof cases
      case spin
      with spinner_exists [OF assms(2)] frame show ?thesis by (simp add: fw_awake_def)
    next
      case pop
      have nw: "x \<noteq> i \<Longrightarrow> \<not> fs_waking (fp_sub s x)" for x using no_waker others [of x] by metis
      have "0 < fp_threads s" using frame b(2) by simp
      from no_waiters_busy [OF assms(3,4) bs pop(2) this nw]
      have "\<exists>k. k < fp_threads s \<and> fw_awake s k" by (simp add: pop(1))
      then show ?thesis by (simp add: pop(3) fw_awake_def)
    next
      case wake
      have "j < fp_threads s" using inv_subD(4) [OF assms(4), of i] wake(1) by simp
      moreover have "fw_committed (fp_pc s j) = Some w \<Longrightarrow> w \<le> fp_wakeups s j" for w
        using assms(3) bs by (cases "fp_pc s j") (auto simp: inv_wait_def wait_ok_def)
      then have "fw_awake t j" using frame wake(2) by (fastforce simp: fw_awake_def)
      ultimately show ?thesis using frame by auto
    next
      case run
      then have "fw_awake t i" using frame by (cases "fp_pc s i") (simp_all add: fw_awake_def)
      with run frame show ?thesis by auto
    qed
    then show ?thesis by (simp add: fp_busy_def)
  qed
qed

lemma inv_busy_step:
  assumes "inv_busy s" "inv_spin s" "inv_wait s" "inv_sub s" "fp_step e s = Some t"
  shows "inv_busy t"
  using assms(5)
proof (cases rule: fp_step_cases)
  case start
  then have "i < fp_threads t \<Longrightarrow> fw_awake t i" for i
    by (auto simp: fp_Start_def fw_awake_def split: if_splits)
  then show ?thesis by (auto simp: inv_busy_def fp_busy_def)
next
  case (worker i ch)
  from assms(1,2) worker(2) show ?thesis by (rule inv_busy_worker)
next
  case (submit i x h)
  then have t: "fp_pc t = fp_pc s" "fp_wakeups t = fp_wakeups s" "fp_global t = fp_global s"
      "fp_threads t = fp_threads s" "fp_sub t = (fp_sub s)(i := FS_Push x h)" and idle: "fp_sub s i = FS_Idle"
    by (auto simp: submit_begin_def fs_goto_def split: if_splits)
  have "fs_waking (fp_sub s y) \<Longrightarrow> fs_waking (fp_sub t y)" for y using idle by (auto simp: t)
  with assms(1) show ?thesis
    unfolding inv_busy_def fp_busy_def fp_bounded_def fw_awake_def t(1-4) by blast
next
  case (submitter i k)
  from assms(1-4) submitter(2) show ?thesis by (rule inv_busy_submit)
next
  case stop
  note frame = stop_frame [OF stop(2)]
  have w: "fp_wakeups s j \<le> fp_wakeups t j" for j
    using stop(2) by (cases "fp_stop s") (auto simp: fp_StoppingWake_store_def fp_Wake_def split: if_splits)
  have awake: "fw_awake t j" if "fp_bounded t" "fw_awake s j" for j
  proof -
    have "fp_bounded s" by (rule fp_bounded_mono [OF that(1) w])
    then have "fw_committed (fp_pc s j) = Some v \<Longrightarrow> v \<le> fp_wakeups s j" for v
      using assms(3) by (cases "fp_pc s j") (auto simp: inv_wait_def wait_ok_def)
    with that(2) w [of j] frame show ?thesis by (fastforce simp: fw_awake_def)
  qed
  show ?thesis
    unfolding inv_busy_def
  proof (intro impI)
    assume b: "fp_bounded t" "0 < fp_threads t" "fp_global t \<noteq> []"
    with assms(1) frame fp_bounded_mono [OF b(1) w] have "fp_busy s" by (simp add: inv_busy_def)
    with awake [OF b(1)] frame show "fp_busy t" by (auto simp: fp_busy_def)
  qed
qed

section \<open>The invariant\<close>

definition fp_inv :: "'t fpool \<Rightarrow> bool" where
  "fp_inv s \<longleftrightarrow> inv_spin s \<and> inv_local s \<and> inv_sub s \<and> inv_wait s \<and> inv_busy s"

lemma fp_inv_step: "fp_inv s \<Longrightarrow> fp_step e s = Some t \<Longrightarrow> fp_inv t"
  unfolding fp_inv_def
  by (blast intro: inv_spin_step inv_local_step inv_sub_step inv_wait_step inv_busy_step)

lemma fp_inv_init: "fp_inv (FastPool threads clients cap)"
  by (simp add: fp_inv_def inv_spin_def inv_local_def inv_sub_def inv_wait_def wait_ok_def inv_busy_def FastPool_def)

interpretation fpool: transition_invariant fp_step "FastPool threads clients cap" fp_inv
  by unfold_locales (rule fp_inv_init, rule fp_inv_step)

section \<open>Properties\<close>

text \<open>
  C7: the parking protocol strands no task. In a reachable state in which every worker is blocked
  in \<open>futex::Wait\<close> and no \<open>Submit\<close> is in progress, the global queue, all local queues and all LIFO
  slots are empty (as long as no worker was woken \<open>2^32\<close> times).
\<close>

theorem fast_pool_no_stranded_task:
  assumes "reachable fp_step (FastPool threads clients cap) s" "0 < fp_threads s"
    and asleep: "\<And>i. i < fp_threads s \<Longrightarrow> fp_pc s i = FW_Wait (fp_load_wakeups i s)"
    and idle: "\<And>x. fp_sub s x = FS_Idle"
    and bound: "\<And>i. fp_wakeups s i < 2 ^ 32"
  shows "fp_global s = [] \<and> (\<forall>i. i < fp_threads s \<longrightarrow> fp_local s i = [] \<and> fp_lifo s i = None)"
proof -
  from assms(1) have inv: "fp_inv s" by (rule fpool.reachable_inv)
  have "i < fp_threads s \<Longrightarrow> \<not> fw_awake s i" for i
    using asleep [of i] bound [of i] by (simp add: fw_awake_def fp_load_wakeups_def)
  then have "\<not> fp_busy s" by (auto simp: fp_busy_def idle)
  with inv assms(2) bound have "fp_global s = []" by (auto simp: fp_inv_def inv_busy_def fp_bounded_def)
  moreover have "fp_local s i = [] \<and> fp_lifo s i = None" if "i < fp_threads s" for i
    using inv asleep [OF that] by (auto simp: fp_inv_def inv_local_def)
  ultimately show ?thesis by blast
qed

definition no_choice :: fw_choice where
  "no_choice = \<lparr>ch_order = [], ch_estimate = 0, ch_grab = 0\<rparr>"

lemmas fp_eval = fp_step_def fp_Start_def fw_goto_def pick_global_def pick_lifo_def pick_local_def
  gq_TryPopOne_def gq_PushOne_def list_PushBack_def TryPickTask_start_def TryStealTasks_start_def
  stealing_order_ok_def wake_pop_def fp_PopWaiter_def fp_PushWaiter_def fp_Wake_def fp_StoppingWake_store_def
  fp_load_wakeups_def submit_begin_def fs_goto_def submit_push_def FastPool_def no_choice_def Let_def

text \<open>A pool of one worker, from the start until the worker is parked.\<close>

definition park_run :: "nat fp_ev list" where
  "park_run = (let w = FE_Worker 0 no_choice in [FE_Start, w, w, w, w, w, w, w, w, w, w, w, w, w, w])"

lemma park_run_state:
  "\<exists>s. exec fp_step (FastPool 1 2 7) park_run = Some s \<and> fp_threads s = 1 \<and> fp_pc s 0 = FW_Wait 0 \<and>
     fp_wakeups s = (\<lambda>_. 0) \<and> fp_sub s = (\<lambda>_. FS_Idle)"
  by (simp add: park_run_def fp_eval)

theorem fast_pool_no_stranded_task_witness:
  "\<exists>s :: nat fpool. reachable fp_step (FastPool 1 2 7) s \<and> fp_pc s 0 = FW_Wait 0 \<and>
     fp_global s = [] \<and> fp_local s 0 = [] \<and> fp_lifo s 0 = None"
proof -
  obtain s where s: "exec fp_step (FastPool 1 2 7) park_run = Some s" "fp_threads s = 1" "fp_pc s 0 = FW_Wait 0"
    "fp_wakeups s = (\<lambda>_. 0)" "fp_sub s = (\<lambda>_. FS_Idle)"
    using park_run_state by blast
  from s(1) have r: "reachable fp_step (FastPool 1 2 7) s" by (rule exec_reachable)
  have "fp_global s = [] \<and> (\<forall>i. i < fp_threads s \<longrightarrow> fp_local s i = [] \<and> fp_lifo s i = None)"
    by (rule fast_pool_no_stranded_task [OF r]) (simp_all add: s(2-5) fp_load_wakeups_def)
  with r s(2,3) show ?thesis by (intro exI [of _ s]) simp
qed

text \<open>
  C36: the pushes of stolen tasks never overflow the thief's queue, so \<open>TryStealTasks\<close> never reaches
  its \<open>std::abort\<close>, and no local queue ever exceeds its capacity, under any interleaving of
  workers, thieves and submitters.
\<close>

theorem fast_pool_steal_never_aborts:
  assumes "reachable fp_step (FastPool threads clients cap) s"
  shows "\<not> fp_aborted s \<and> length (fp_local s i) \<le> fp_cap s"
  using fpool.reachable_inv [OF assms] by (simp add: fp_inv_def inv_local_def)

theorem fast_pool_steal_never_aborts_witness:
  "\<exists>s :: nat fpool. reachable fp_step (FastPool 1 2 7) s \<and> fp_threads s = 1 \<and>
     \<not> fp_aborted s \<and> length (fp_local s 0) \<le> fp_cap s"
proof -
  obtain s where s: "exec fp_step (FastPool 1 2 7) park_run = Some s" "fp_threads s = 1"
    using park_run_state by blast
  from s(1) have r: "reachable fp_step (FastPool 1 2 7) s" by (rule exec_reachable)
  from r s(2) fast_pool_steal_never_aborts [OF r, of 0] show ?thesis by blast
qed

text \<open>Workers that have exited stay there, and nothing is run any more.\<close>

definition fp_joined :: "'t multiset \<Rightarrow> 't fpool \<Rightarrow> bool" where
  "fp_joined r s = ((\<forall>i < fp_threads s. fp_pc s i = FW_Exit) \<and> 0 < fp_threads s \<and>
     (\<forall>i. \<not> i < fp_threads s \<longrightarrow> fp_pc s i = FW_NotStarted) \<and> fp_ran s = r)"

lemma fp_joined_step:
  assumes "fp_joined r s" "fp_step e s = Some t"
  shows "fp_joined r t"
  using assms(2)
proof (cases rule: fp_step_cases)
  case start
  with assms(1) show ?thesis by (auto simp: fp_Start_def fp_joined_def split: if_splits)
next
  case (worker i ch)
  with assms(1) show ?thesis by (cases "i < fp_threads s") (auto simp: fp_joined_def)
next
  case (submit i x h)
  with assms(1) show ?thesis by (auto simp: submit_begin_def fs_goto_def fp_joined_def split: if_splits)
next
  case (submitter i k)
  from submit_frame [OF submitter(2)] assms(1) show ?thesis by (simp add: fp_joined_def)
next
  case stop
  from stop_frame [OF stop(2)] assms(1) show ?thesis by (simp add: fp_joined_def)
qed

lemma fp_joined_reachable:
  assumes "reachable fp_step s t" "fp_joined r s"
  shows "fp_ran t = r"
proof -
  from assms have "fp_joined r t" by (induction) (auto intro: fp_joined_step)
  then show ?thesis by (simp add: fp_joined_def)
qed

definition lose_run :: "nat fp_ev list" where
  "lose_run = [FE_Stop, FE_Stop, FE_Stop, FE_Stop, FE_Stop, FE_Stop] @
     (let w = FE_Worker 0 no_choice in [w, w, w, w, w, w, w]) @ [FE_Stop, FE_Stop]"

lemma lose_run_state:
  "\<exists>s1. exec fp_step (FastPool 1 2 7) (park_run @
      [FE_Submit 1 10 UpToYou, FE_Submitter 1 0, FE_Submitter 1 0, FE_Submitter 1 0, FE_Submitter 1 0,
       FE_Submit 1 11 UpToYou, FE_Submitter 1 0, FE_Submitter 1 0, FE_Submitter 1 0]) = Some s1 \<and>
     fp_stop s1 = FST_Idle \<and> fp_submitted s1 = {#10, 11#} \<and> fp_sub s1 = (\<lambda>_. FS_Idle) \<and>
     (\<exists>s. exec fp_step s1 lose_run = Some s \<and> fp_stop s = FST_Done \<and> fp_submitted s = {#10, 11#} \<and>
        fp_global s = [11] \<and> fp_joined {#10#} s)"
  by (simp add: park_run_def lose_run_def fp_eval fp_joined_def fun_eq_iff)

text \<open>
  C37: \<open>Stop\<close> of the fast pool can lose a task that was submitted before it was called. There is a
  state of a pool of one worker in which two calls of \<open>Submit\<close> have returned, \<open>Stop\<close> has not been called
  and the woken worker has not yet left the parking lot. From there \<open>Stop\<close> can find
  \<open>n_parked_ == threads_\<close> and set \<open>worker_stop_\<close>; the worker runs one task and exits, and \<open>Stop\<close>
  returns with the other task still in the global queue. No continuation of this execution runs it.
\<close>

theorem fast_pool_stop_loses_task:
  "\<exists>s1 s. reachable fp_step (FastPool 1 2 7) s1 \<and>
     fp_stop s1 = FST_Idle \<and> fp_submitted s1 = {#10, 11#} \<and> fp_sub s1 = (\<lambda>_. FS_Idle) \<and>
     reachable fp_step s1 s \<and> fp_stop s = FST_Done \<and> fp_submitted s = {#10, 11#} \<and> fp_global s = [11] \<and>
     fp_ran ` {t. reachable fp_step s t} = {{#10::nat#}}"
proof -
  obtain s1 s where s1: "reachable fp_step (FastPool 1 2 7) s1" "fp_stop s1 = FST_Idle"
      "fp_submitted s1 = {#10, 11#}" "fp_sub s1 = (\<lambda>_. FS_Idle)"
    and s: "exec fp_step s1 lose_run = Some s" "fp_stop s = FST_Done" "fp_submitted s = {#10, 11#}"
      "fp_global s = [11]" "fp_joined {#10#} s"
    using lose_run_state exec_reachable by metis
  have "reachable fp_step s s" by (rule exec_reachable [of _ _ "[]"]) simp
  then have "fp_ran ` {t. reachable fp_step s t} = {{#10#}}" using fp_joined_reachable [OF _ s(5)]
    by (auto simp: image_iff intro!: exI [of _ s])
  with s1 s exec_reachable [OF s(1)] show ?thesis by blast
qed

end
