(* ===== verification/Fast_Pool_Tasks.thy ===== *)
theory Fast_Pool_Tasks
  imports Fast_Pool_Parking
begin

text \<open>
  Conservation of tasks in the fast pool: every submitted task is in exactly one place, a queue,
  a LIFO slot, the hands of a worker or of a submitter, or it has run.
\<close>

section \<open>Occurrences\<close>

definition cnt :: "'t \<Rightarrow> 't list \<Rightarrow> int" where
  "cnt x xs = int (count (mset xs) x)"

lemma cnt_simps [simp]:
  "cnt x [] = 0" "cnt x (y # ys) = (if x = y then 1 else 0) + cnt x ys" "cnt x (ys @ zs) = cnt x ys + cnt x zs"
  by (simp_all add: cnt_def)

lemma cnt_drop: "cnt x (drop n xs) = cnt x xs - cnt x (take n xs)"
  by (metis add_diff_cancel_left' append_take_drop_id cnt_simps(3))

lemma cnt_butlast_take:
  assumes "0 < n" "n \<le> length xs"
  shows "cnt x (butlast (take n xs)) = cnt x (take n xs) - cnt x [last (take n xs)]"
proof -
  from assms have "take n xs \<noteq> []" by auto
  then show ?thesis by (metis add_diff_cancel_right' append_butlast_last_id cnt_simps(3))
qed

fun ptr_tasks :: "'t ptr \<Rightarrow> 't list" where
  "ptr_tasks None = []"
| "ptr_tasks (Some t) = [t]"

text \<open>The tasks a worker or a submitter holds in local variables.\<close>

fun fw_tasks :: "'t fw_pc \<Rightarrow> 't list" where
  "fw_tasks (FW_StealPush _ ts t) = ts @ [t]"
| "fw_tasks (FW_StolenSpinDec t) = [t]"
| "fw_tasks (FW_WakePop _ t) = [t]"
| "fw_tasks (FW_WakeDo _ _ t) = [t]"
| "fw_tasks (FW_Run t) = [t]"
| "fw_tasks _ = []"

fun fs_tasks :: "'t fs_pc \<Rightarrow> 't list" where
  "fs_tasks (FS_Push t _) = [t]"
| "fs_tasks (FS_TryPush t) = [t]"
| "fs_tasks (FS_Grab t) = [t]"
| "fs_tasks (FS_PushMany ts) = ts"
| "fs_tasks _ = []"

definition over :: "nat \<Rightarrow> ('a \<Rightarrow> 't list) \<Rightarrow> (nat \<Rightarrow> 'a) \<Rightarrow> 't \<Rightarrow> int" where
  "over n g f x = (\<Sum>i<n. cnt x (g (f i)))"

lemma over_upd: "i < n \<Longrightarrow> over n g (f(i := v)) x = over n g f x - cnt x (g (f i)) + cnt x (g v)"
  using sum_fun_upd [of i n "\<lambda>v. cnt x (g v)" f v] by (simp add: over_def)

definition fp_places :: "'t fpool \<Rightarrow> 't \<Rightarrow> int" where
  "fp_places s x = int (count (fp_ran s) x) + cnt x (fp_global s) +
     over (fp_clients s) (\<lambda>q. q) (fp_local s) x + over (fp_clients s) ptr_tasks (fp_lifo s) x +
     over (fp_clients s) fw_tasks (fp_pc s) x + over (fp_clients s) fs_tasks (fp_sub s) x"

fun fw_victims :: "'t fw_pc \<Rightarrow> nat set" where
  "fw_victims (FW_Steal _ order) = set order"
| "fw_victims _ = {}"

definition task_inv :: "'t fpool \<Rightarrow> bool" where
  "task_inv s \<longleftrightarrow> (\<forall>x. fp_places s x = int (count (fp_submitted s) x)) \<and>
     fp_threads s \<le> fp_clients s \<and>
     (\<forall>i. \<not> i < fp_threads s \<longrightarrow> fp_pc s i = FW_NotStarted) \<and>
     (\<forall>i. \<not> i < fp_clients s \<longrightarrow> fp_sub s i = FS_Idle) \<and>
     (\<forall>i. fw_victims (fp_pc s i) \<subseteq> {..<fp_threads s - 1})"

lemma worker_places:
  assumes "worker_at p i ch s = Some t" "fp_pc s i = p" "i < fp_clients s"
    "\<And>v. v \<in> fw_victims p \<Longrightarrow> steal_victim i v s < fp_clients s"
  shows "fp_places t x = fp_places s x"
proof (cases p)
  case (FW_Steal old order)
  with assms show ?thesis
    by (cases order)
      (auto simp: fp_places_def try_steal_from_def fw_goto_def Let_def over_upd cnt_drop cnt_butlast_take
        split: if_splits option.splits)
qed (use assms(1-3) in \<open>clarsimp simp: fp_places_def over_upd fw_defs list_PopFront_cases split: fw_splits\<close>)+

lemma worker_victims:
  assumes "worker_at p i ch s = Some t" "fp_pc s i = p" "fw_victims p \<subseteq> {..<fp_threads s - 1}"
  shows "fw_victims (fp_pc t i) \<subseteq> {..<fp_threads s - 1}"
proof -
  have "stealing_order_ok order s \<Longrightarrow> set order \<subseteq> {..<fp_threads s - 1}" for order
    unfolding stealing_order_ok_def using mset_eq_setD by fastforce
  with assms show ?thesis
    by (cases p) (clarsimp simp: fw_defs list_PopFront_cases split: fw_splits; blast?)+
qed

lemma task_inv_worker:
  assumes "task_inv s" "worker_at (fp_pc s i) i ch s = Some t"
  shows "task_inv t"
proof -
  note upd = worker_pc_upd [OF assms(2)]
  have i: "i < fp_threads s" using assms by (cases "i < fp_threads s") (auto simp: task_inv_def)
  have v: "fw_victims (fp_pc s k) \<subseteq> {..<fp_threads s - 1}" for k using assms(1) by (simp add: task_inv_def)
  have lt: "fp_threads s \<le> fp_clients s" using assms(1) by (simp add: task_inv_def)
  have "fp_places t x = fp_places s x" for x
    by (rule worker_places [OF assms(2) refl]) (use i lt v [of i] in \<open>auto simp: steal_victim_def\<close>)
  moreover have pc: "k \<noteq> i \<Longrightarrow> fp_pc t k = fp_pc s k" for k using upd by (metis fun_upd_other)
  moreover have "fw_victims (fp_pc t k) \<subseteq> {..<fp_threads s - 1}" for k
    using worker_victims [OF assms(2) refl v] v [of k] pc [of k] by (cases "k = i") simp_all
  moreover have "\<not> k < fp_threads s \<Longrightarrow> fp_pc t k = FW_NotStarted" for k
    using assms(1) i pc [of k] by (cases "k = i") (simp_all add: task_inv_def)
  ultimately show ?thesis using assms(1) upd by (simp add: task_inv_def)
qed

lemma submit_places:
  assumes "submit_at p i k s = Some t" "fp_sub s i = p" "i < fp_clients s"
  shows "fp_places t x = fp_places s x"
  using assms
  by (cases p) (clarsimp simp: fp_places_def over_upd cnt_drop fs_defs gq_PushOne_def list_PushBack_def split: fs_splits)+

lemma task_inv_submit:
  assumes "task_inv s" "submit_at (fp_sub s i) i k s = Some t"
  shows "task_inv t"
proof -
  note frame = submit_frame [OF assms(2)]
  have i: "i < fp_clients s" using assms by (cases "i < fp_clients s") (auto simp: task_inv_def)
  have "fp_places t x = fp_places s x" for x by (rule submit_places [OF assms(2) refl i])
  moreover have "\<not> j < fp_clients s \<Longrightarrow> fp_sub t j = FS_Idle" for j
    using assms(1) frame i by (metis fun_upd_other task_inv_def)
  ultimately show ?thesis using assms(1) frame by (simp add: task_inv_def)
qed

lemma task_inv_step:
  assumes "task_inv s" "fp_step e s = Some t"
  shows "task_inv t"
  using assms(2)
proof (cases rule: fp_step_cases)
  case start
  then have t: "t = s\<lparr>fp_pc := (\<lambda>i. if i < fp_threads s then FW_Top else fp_pc s i)\<rparr>"
    and ns: "\<And>i. i < fp_threads s \<Longrightarrow> fp_pc s i = FW_NotStarted"
    by (auto simp: fp_Start_def split: if_splits)
  have "over n fw_tasks (fp_pc t) x = over n fw_tasks (fp_pc s) x" for n x
    unfolding over_def by (rule sum.cong) (use ns in \<open>auto simp: t\<close>)
  then have "fp_places t x = fp_places s x" for x by (simp add: fp_places_def) (simp add: t)
  moreover have "fw_victims (fp_pc t i) \<subseteq> {..<fp_threads s - 1}" for i
    using assms(1) by (auto simp: t task_inv_def)
  ultimately show ?thesis using assms(1) by (simp add: task_inv_def) (simp add: t)
next
  case (worker i ch)
  from assms(1) worker(2) show ?thesis by (rule task_inv_worker)
next
  case (submit i x h)
  then have i: "i < fp_clients s" and idle: "fp_sub s i = FS_Idle"
    and t: "t = s\<lparr>fp_submitted := add_mset x (fp_submitted s), fp_sub := (fp_sub s)(i := FS_Push x h)\<rparr>"
    by (simp_all add: submit_begin_def fs_goto_def split: if_splits)
  have "fp_places t y = fp_places s y + (if y = x then 1 else 0)" for y
    using i by (simp add: fp_places_def t over_upd idle)
  moreover have "\<not> j < fp_clients t \<Longrightarrow> fp_sub t j = FS_Idle" for j
    using assms(1) i by (auto simp: t task_inv_def)
  ultimately show ?thesis using assms(1) by (simp add: task_inv_def) (simp add: t)
next
  case (submitter i k)
  from assms(1) submitter(2) show ?thesis by (rule task_inv_submit)
next
  case stop
  from assms(1) stop_frame [OF stop(2)] show ?thesis by (simp add: task_inv_def fp_places_def)
qed

interpretation ftasks: transition_invariant fp_step "FastPool threads (threads + externals) cap" task_inv
proof
  show "task_inv (FastPool threads (threads + externals) cap)"
    by (simp add: task_inv_def FastPool_def fp_places_def over_def)
qed (rule task_inv_step)

section \<open>Property\<close>

text \<open>
  C20: the fast pool neither loses nor duplicates a task while it runs. In every reachable state
  each submitted task is found exactly once, counting multiplicities, among the tasks that ran,
  the global queue, the local queues, the LIFO slots, and the tasks in the hands of workers and
  submitters; this covers overflow to the global queue, stealing and the LIFO slot.
\<close>

theorem fast_pool_conserves_tasks:
  assumes "reachable fp_step (FastPool threads (threads + externals) cap) s"
  shows "fp_submitted s = fp_ran s + mset (fp_global s) +
    (\<Sum>i<fp_clients s. mset (fp_local s i) + mset (ptr_tasks (fp_lifo s i)) +
                       mset (fw_tasks (fp_pc s i)) + mset (fs_tasks (fp_sub s i)))"
proof (rule multiset_eqI)
  fix x
  from ftasks.reachable_inv [OF assms] have "fp_places s x = int (count (fp_submitted s) x)"
    by (simp add: task_inv_def)
  then show "count (fp_submitted s) x = count (fp_ran s + mset (fp_global s) +
    (\<Sum>i<fp_clients s. mset (fp_local s i) + mset (ptr_tasks (fp_lifo s i)) +
                       mset (fw_tasks (fp_pc s i)) + mset (fs_tasks (fp_sub s i)))) x"
    by (simp add: fp_places_def over_def cnt_def count_sum sum.distrib flip: of_nat_sum of_nat_add)
qed

theorem fast_pool_conserves_tasks_witness:
  "\<exists>s. reachable fp_step (FastPool 1 (1 + 1) 7) s \<and> fp_submitted s = {#10::nat, 11#} \<and> fp_clients s = 2 \<and>
     {#10, 11#} = fp_ran s + mset (fp_global s) +
       (\<Sum>i<2. mset (fp_local s i) + mset (ptr_tasks (fp_lifo s i)) +
              mset (fw_tasks (fp_pc s i)) + mset (fs_tasks (fp_sub s i)))"
proof -
  have "\<exists>s. exec fp_step (FastPool 1 (1 + 1) 7)
      [FE_Start, FE_Submit 1 10 UpToYou, FE_Submitter 1 0, FE_Submitter 1 0, FE_Submitter 1 0,
       FE_Submit 1 11 UpToYou, FE_Submitter 1 0] = Some s \<and> fp_submitted s = {#10::nat, 11#} \<and> fp_clients s = 2"
    by (simp add: fp_eval)
  from exec_reachable_ex [OF this] obtain s :: "nat fpool" where
    s: "reachable fp_step (FastPool 1 (1 + 1) 7) s" "fp_submitted s = {#10, 11#}" "fp_clients s = 2"
    by (elim exE conjE)
  from fast_pool_conserves_tasks [OF s(1), unfolded s(2,3)] s show ?thesis by blast
qed

end
