(* ===== verification/Hazard.thy ===== *)
theory Hazard
  imports Prelude
begin

text \<open>
  \<open>lf/memory/hazard/*\<close>: hazard pointers. The global manager is the array of thread states; a
  retired object is its address, and its deleter frees that address. \<open>RetiredPtr\<close> is move-only: the
  swap in \<open>Scan\<close> exchanges two entries and runs no deleter, \<open>pop_back\<close> and \<open>clear\<close> run the deleter of
  each entry they destroy.
\<close>

definition kMaxHazardPtrs :: nat where
  "kMaxHazardPtrs = 4"

definition kMaxThreads :: nat where
  "kMaxThreads = 32"

definition scan_freq :: nat where
  "scan_freq = 8 * kMaxHazardPtrs * 2"

text \<open>The thread states: hazard slots by thread and index, and retired lists by thread.\<close>

record 'a hazards =
  hz_slots :: "nat \<Rightarrow> nat \<Rightarrow> 'a ptr"
  hz_retired :: "nat \<Rightarrow> 'a list"

definition hazards_init :: "'a hazards" where
  "hazards_init = \<lparr>hz_slots = (\<lambda>_ _. nullptr), hz_retired = (\<lambda>_. [])\<rparr>"

text \<open>
  \<open>MakeMutator\<close>: a thread draws its index at its first call; the process aborts when the indices are
  used up. The result is the thread's index and the next free one.
\<close>

definition MakeMutator :: "nat option \<Rightarrow> nat \<Rightarrow> (nat \<times> nat) option" where
  "MakeMutator thread_idx next_idx =
     (case thread_idx of
        Some idx \<Rightarrow> Some (idx, next_idx)
      | None \<Rightarrow> if next_idx \<ge> kMaxThreads then None else Some (next_idx, next_idx + 1))"

definition hp_Set :: "nat \<Rightarrow> nat \<Rightarrow> 'a ptr \<Rightarrow> 'a hazards \<Rightarrow> 'a hazards" where
  "hp_Set t j p h = h\<lparr>hz_slots := (hz_slots h)(t := (hz_slots h t)(j := p))\<rparr>"

definition hp_Get :: "nat \<Rightarrow> nat \<Rightarrow> 'a hazards \<Rightarrow> 'a ptr" where
  "hp_Get t j h = hz_slots h t j"

definition hp_Reset :: "nat \<Rightarrow> nat \<Rightarrow> 'a hazards \<Rightarrow> 'a hazards" where
  "hp_Reset t j h = hp_Set t j nullptr h"

text \<open>\<open>Retire\<close>: the second component says whether the caller goes on to \<open>Scan\<close>.\<close>

definition hz_Retire :: "nat \<Rightarrow> 'a \<Rightarrow> 'a hazards \<Rightarrow> 'a hazards \<times> bool" where
  "hz_Retire t obj h =
     (let retired = hz_retired h t @ [obj]
      in (h\<lparr>hz_retired := (hz_retired h)(t := retired)\<rparr>, length retired > scan_freq))"

text \<open>
  \<open>Scan\<close> reads the slots one by one, in the order of the two nested loops; the \<open>k\<close>-th read is slot
  \<open>k mod kMaxHazardPtrs\<close> of thread \<open>k div kMaxHazardPtrs\<close>.
\<close>

definition scan_slots :: nat where
  "scan_slots = kMaxThreads * kMaxHazardPtrs"

definition scan_read :: "nat \<Rightarrow> 'a hazards \<Rightarrow> 'a list \<Rightarrow> 'a list" where
  "scan_read k h hazards =
     (case hp_Get (k div kMaxHazardPtrs) (k mod kMaxHazardPtrs) h of
        None \<Rightarrow> hazards
      | Some obj \<Rightarrow> List.insert obj hazards)"

text \<open>
  The second loop of \<open>Scan\<close>: an unprotected entry is swapped with the last one and popped, and the
  index stays. The result is the new retired list and the freed objects, oldest first.
\<close>

function scan_free :: "'a list \<Rightarrow> nat \<Rightarrow> 'a list \<Rightarrow> 'a list \<times> 'a list" where
  "scan_free hazards i retired =
     (if i < length retired
      then if retired ! i \<notin> set hazards
           then let swapped = retired[i := last retired, length retired - 1 := retired ! i];
                    (kept, freed) = scan_free hazards i (butlast swapped)
                in (kept, last swapped # freed)
           else scan_free hazards (i + 1) retired
      else (retired, []))"
  by pat_completeness auto
termination
  by (relation "measure (\<lambda>(_, i, retired). 2 * length retired - i)") auto

declare scan_free.simps [simp del]

definition hz_CleanUp :: "nat \<Rightarrow> 'a hazards \<Rightarrow> 'a hazards \<times> 'a list" where
  "hz_CleanUp t h = (h\<lparr>hz_retired := (hz_retired h)(t := [])\<rparr>, hz_retired h t)"

section \<open>What Scan frees\<close>

text \<open>\<open>Scan\<close> keeps the protected entries and frees the others, each exactly once.\<close>

lemma mset_swap_pop:
  assumes "i < length xs"
  defines "swapped \<equiv> xs[i := last xs, length xs - 1 := xs ! i]"
  shows "last swapped = xs ! i" "mset (butlast swapped) = mset xs - {#xs ! i#}"
    "j < i \<Longrightarrow> butlast swapped ! j = xs ! j"
proof -
  have ne: "xs \<noteq> []" using assms by auto
  have swap: "swapped = xs[i := xs ! (length xs - 1), length xs - 1 := xs ! i]"
    using ne by (simp add: swapped_def last_conv_nth)
  show l: "last swapped = xs ! i" using ne by (simp add: swapped_def last_conv_nth)
  have "mset swapped = mset xs" unfolding swap by (rule mset_swap) (use assms(1) in auto)
  moreover have "swapped \<noteq> []" using ne by (simp add: swapped_def)
  ultimately show "mset (butlast swapped) = mset xs - {#xs ! i#}"
    using l by (metis add_mset_remove_trivial append_butlast_last_id mset_append mset_single_iff_right
        mset.simps(2) union_mset_add_mset_right add.right_neutral)
  show "j < i \<Longrightarrow> butlast swapped ! j = xs ! j"
    using assms(1) by (simp add: swapped_def nth_butlast)
qed

lemma scan_free_spec:
  assumes "\<forall>j < i. j < length retired \<longrightarrow> retired ! j \<in> set hazards" "scan_free hazards i retired = (kept, freed)"
  shows "mset kept = filter_mset (\<lambda>a. a \<in> set hazards) (mset retired) \<and>
    mset freed = filter_mset (\<lambda>a. a \<notin> set hazards) (mset retired)"
  using assms
proof (induction hazards i retired arbitrary: kept freed rule: scan_free.induct)
  case (1 hazards i retired)
  show ?case
  proof (cases "i < length retired")
    case False
    then have "\<forall>a \<in> set retired. a \<in> set hazards"
      using 1(3) by (metis in_set_conv_nth less_le_trans not_less)
    with False 1(4) show ?thesis
      by (simp add: scan_free.simps filter_mset_eq_conv mset_filter [symmetric])
  next
    case i: True
    show ?thesis
    proof (cases "retired ! i \<in> set hazards")
      case True
      with i 1(3) have "\<forall>j < i + 1. j < length retired \<longrightarrow> retired ! j \<in> set hazards"
        by (auto simp: less_Suc_eq)
      moreover have "scan_free hazards (i + 1) retired = (kept, freed)"
        using 1(4) i True by (simp add: scan_free.simps [of hazards i retired])
      ultimately show ?thesis using 1(2) [OF i] True by simp
    next
      case False
      define swapped where "swapped = retired[i := last retired, length retired - 1 := retired ! i]"
      note swap = mset_swap_pop [OF i, folded swapped_def]
      obtain kept' freed' where rest: "scan_free hazards i (butlast swapped) = (kept', freed')"
        by (cases "scan_free hazards i (butlast swapped)")
      have "length swapped = length retired" by (simp add: swapped_def)
      with swap(3) 1(3) have "\<forall>j < i. j < length (butlast swapped) \<longrightarrow> butlast swapped ! j \<in> set hazards"
        using i by simp
      from 1(1) [OF i False swapped_def this rest]
      have ih: "mset kept' = filter_mset (\<lambda>a. a \<in> set hazards) (mset (butlast swapped))"
        "mset freed' = filter_mset (\<lambda>a. a \<notin> set hazards) (mset (butlast swapped))" by simp_all
      have "scan_free hazards i retired =
          (let (kept, freed) = scan_free hazards i (butlast swapped) in (kept, last swapped # freed))"
        using i False by (simp add: scan_free.simps [of hazards i retired] swapped_def Let_def)
      then have res: "kept = kept'" "freed = retired ! i # freed'" using 1(4) rest swap(1) by simp_all
      have "retired ! i \<in># mset retired" using i by simp
      then have "mset retired = add_mset (retired ! i) (mset (butlast swapped))" by (simp add: swap(2))
      with ih res False show ?thesis by simp
    qed
  qed
qed

end
