(* ===== verification/Lock_Free_Stack.thy ===== *)
theory Lock_Free_Stack
  imports Hazard
begin

text \<open>
  \<open>lf/lock_free_stack.hpp\<close> over \<open>memory/hazard\<close>: the Treiber stack with hazard pointers.

  Each atomic access, each access to a node and each read of a hazard slot by \<open>Scan\<close> is a step of
  the thread that makes it. Nodes are cells of a heap; \<open>delete\<close> removes the cell and a later
  allocation may reuse its address, so that the ABA problem is part of the model. An access to a
  cell that is not allocated sets \<open>st_uaf\<close> and ends the run. A weak exchange may fail spuriously.
  Thread \<open>t\<close> stands for the thread with index \<open>t\<close> in the hazard manager.

  \<open>st_log\<close> and \<open>st_res\<close> are history: the successful exchanges in order, and the value of the node
  a thread has unlinked.
\<close>

datatype 'v st_pc =
    ST_Idle "'v option"
  | Push_Cas nat
  | Pop_Load
  | Pop_Set "nat ptr"
  | Pop_Reload "nat ptr"
  | Pop_Next nat
  | Pop_Cas nat "nat ptr"
  | Pop_Value nat
  | Pop_Retire nat 'v
  | Pop_Scan 'v nat "nat list"
  | Pop_Reset "'v option"

datatype 'v st_op = Op_Push 'v | Op_Pop 'v

record 'v lfstack =
  st_top :: "nat ptr"
  st_heap :: "nat \<rightharpoonup> 'v \<times> nat ptr"
  st_hz :: "nat hazards"
  st_pcs :: "nat \<Rightarrow> 'v st_pc"
  st_uaf :: bool
  st_log :: "'v st_op list"
  st_res :: "nat \<Rightarrow> 'v option"

datatype 'v st_ev =
    SE_Push nat 'v nat
  | SE_TryPop nat
  | SE_Step nat bool

definition stack_init :: "'v lfstack" where
  "stack_init = \<lparr>st_top = nullptr, st_heap = Map.empty, st_hz = hazards_init, st_pcs = (\<lambda>_. ST_Idle None),
     st_uaf = False, st_log = [], st_res = (\<lambda>_. None)\<rparr>"

definition st_goto :: "nat \<Rightarrow> 'v st_pc \<Rightarrow> 'v lfstack \<Rightarrow> 'v lfstack" where
  "st_goto t p s = s\<lparr>st_pcs := (st_pcs s)(t := p)\<rparr>"

text \<open>\<open>Push\<close>: the new node at a fresh address, its \<open>next\<close> set from \<open>top_\<close>.\<close>

definition stack_Push :: "nat \<Rightarrow> 'v \<Rightarrow> nat \<Rightarrow> 'v lfstack \<Rightarrow> 'v lfstack option" where
  "stack_Push t value a s =
     (case st_pcs s t of
        ST_Idle _ \<Rightarrow>
          if st_heap s a = None
          then Some (st_goto t (Push_Cas a) (s\<lparr>st_heap := (st_heap s)(a \<mapsto> (value, st_top s))\<rparr>))
          else None
      | _ \<Rightarrow> None)"

definition push_cas :: "nat \<Rightarrow> nat \<Rightarrow> bool \<Rightarrow> 'v lfstack \<Rightarrow> 'v lfstack" where
  "push_cas t a spurious s =
     (case st_heap s a of
        None \<Rightarrow> s\<lparr>st_uaf := True\<rparr>
      | Some (v, nxt) \<Rightarrow>
          if st_top s = nxt \<and> \<not> spurious
          then st_goto t (ST_Idle None) (s\<lparr>st_top := Some a, st_log := st_log s @ [Op_Push v]\<rparr>)
          else s\<lparr>st_heap := (st_heap s)(a \<mapsto> (v, st_top s))\<rparr>)"

definition stack_TryPop :: "nat \<Rightarrow> 'v lfstack \<Rightarrow> 'v lfstack option" where
  "stack_TryPop t s =
     (case st_pcs s t of ST_Idle _ \<Rightarrow> Some (st_goto t Pop_Load s) | _ \<Rightarrow> None)"

text \<open>The second load of \<open>Protect\<close> and the test of the protected pointer in \<open>TryPop\<close>.\<close>

definition pop_reload :: "nat \<Rightarrow> nat ptr \<Rightarrow> 'v lfstack \<Rightarrow> 'v lfstack" where
  "pop_reload t obj s =
     (if st_top s = obj
      then case obj of None \<Rightarrow> st_goto t (Pop_Reset None) s | Some a \<Rightarrow> st_goto t (Pop_Next a) s
      else st_goto t (Pop_Set (st_top s)) s)"

definition pop_next :: "nat \<Rightarrow> nat \<Rightarrow> 'v lfstack \<Rightarrow> 'v lfstack" where
  "pop_next t a s =
     (case st_heap s a of
        None \<Rightarrow> s\<lparr>st_uaf := True\<rparr>
      | Some (_, nxt) \<Rightarrow> st_goto t (Pop_Cas a nxt) s)"

definition pop_cas :: "nat \<Rightarrow> nat \<Rightarrow> nat ptr \<Rightarrow> bool \<Rightarrow> 'v lfstack \<Rightarrow> 'v lfstack" where
  "pop_cas t a nxt spurious s =
     (if st_top s = Some a \<and> \<not> spurious
      then (case st_heap s a of
              None \<Rightarrow> s\<lparr>st_uaf := True\<rparr>
            | Some (v, _) \<Rightarrow>
                st_goto t (Pop_Value a) (s\<lparr>st_top := nxt, st_log := st_log s @ [Op_Pop v],
                                           st_res := (st_res s)(t := Some v)\<rparr>))
      else st_goto t Pop_Load s)"

definition pop_value :: "nat \<Rightarrow> nat \<Rightarrow> 'v lfstack \<Rightarrow> 'v lfstack" where
  "pop_value t a s =
     (case st_heap s a of
        None \<Rightarrow> s\<lparr>st_uaf := True\<rparr>
      | Some (v, _) \<Rightarrow> st_goto t (Pop_Retire a v) s)"

definition pop_retire :: "nat \<Rightarrow> nat \<Rightarrow> 'v \<Rightarrow> 'v lfstack \<Rightarrow> 'v lfstack" where
  "pop_retire t a v s =
     (let (h, scan) = hz_Retire t a (st_hz s)
      in st_goto t (if scan then Pop_Scan v 0 [] else Pop_Reset (Some v)) (s\<lparr>st_hz := h\<rparr>))"

text \<open>One slot read of \<open>Scan\<close>, or, after the last one, its freeing loop.\<close>

definition pop_scan :: "nat \<Rightarrow> 'v \<Rightarrow> nat \<Rightarrow> nat list \<Rightarrow> 'v lfstack \<Rightarrow> 'v lfstack" where
  "pop_scan t v k hazards s =
     (if k < scan_slots then st_goto t (Pop_Scan v (k + 1) (scan_read k (st_hz s) hazards)) s
      else let (kept, freed) = scan_free hazards 0 (hz_retired (st_hz s) t)
           in st_goto t (Pop_Reset (Some v))
                (s\<lparr>st_hz := (st_hz s)\<lparr>hz_retired := (hz_retired (st_hz s))(t := kept)\<rparr>,
                   st_heap := (\<lambda>a. if a \<in> set freed then None else st_heap s a)\<rparr>))"

fun stack_at :: "'v st_pc \<Rightarrow> nat \<Rightarrow> bool \<Rightarrow> 'v lfstack \<Rightarrow> 'v lfstack option" where
  "stack_at (ST_Idle r) t spurious s = None"
| "stack_at (Push_Cas a) t spurious s = Some (push_cas t a spurious s)"
| "stack_at Pop_Load t spurious s = Some (st_goto t (Pop_Set (st_top s)) s)"
| "stack_at (Pop_Set obj) t spurious s = Some (st_goto t (Pop_Reload obj) (s\<lparr>st_hz := hp_Set t 0 obj (st_hz s)\<rparr>))"
| "stack_at (Pop_Reload obj) t spurious s = Some (pop_reload t obj s)"
| "stack_at (Pop_Next a) t spurious s = Some (pop_next t a s)"
| "stack_at (Pop_Cas a nxt) t spurious s = Some (pop_cas t a nxt spurious s)"
| "stack_at (Pop_Value a) t spurious s = Some (pop_value t a s)"
| "stack_at (Pop_Retire a v) t spurious s = Some (pop_retire t a v s)"
| "stack_at (Pop_Scan v k hazards) t spurious s = Some (pop_scan t v k hazards s)"
| "stack_at (Pop_Reset r) t spurious s = Some (st_goto t (ST_Idle r) (s\<lparr>st_hz := hp_Reset t 0 (st_hz s)\<rparr>))"

definition stack_step :: "'v st_ev \<Rightarrow> 'v lfstack \<Rightarrow> 'v lfstack option" where
  "stack_step e s =
     (if st_uaf s then None else
      case e of
        SE_Push t v a \<Rightarrow> stack_Push t v a s
      | SE_TryPop t \<Rightarrow> if t < kMaxThreads then stack_TryPop t s else None
      | SE_Step t spurious \<Rightarrow> stack_at (st_pcs s t) t spurious s)"

text \<open>
  The destructor of a stack calls \<open>CleanUp\<close> of the calling thread's mutator, whose retired list
  holds nodes of every stack the thread has popped from. The destructor of another, empty stack, run
  by thread \<open>t\<close>, is the event \<open>Inr t\<close> of this extended machine: it frees the whole list of \<open>t\<close>.
\<close>

definition stack_destructor_CleanUp :: "nat \<Rightarrow> 'v lfstack \<Rightarrow> 'v lfstack" where
  "stack_destructor_CleanUp t s =
     (let (h, freed) = hz_CleanUp t (st_hz s)
      in s\<lparr>st_hz := h, st_heap := (\<lambda>a. if a \<in> set freed then None else st_heap s a)\<rparr>)"

definition stack_step_cleanup :: "'v st_ev + nat \<Rightarrow> 'v lfstack \<Rightarrow> 'v lfstack option" where
  "stack_step_cleanup e s =
     (case e of
        Inl e \<Rightarrow> stack_step e s
      | Inr t \<Rightarrow> (case st_pcs s t of
                   ST_Idle _ \<Rightarrow> if st_uaf s then None else Some (stack_destructor_CleanUp t s)
                 | _ \<Rightarrow> None))"

text \<open>The nodes the destructor's own loop deletes, in order; \<open>None\<close> if it touches a freed node.\<close>

fun stack_delete_all :: "nat \<Rightarrow> nat ptr \<Rightarrow> (nat \<rightharpoonup> 'v \<times> nat ptr) \<Rightarrow> (nat \<rightharpoonup> 'v \<times> nat ptr) option" where
  "stack_delete_all 0 node h = (if node = nullptr then Some h else None)"
| "stack_delete_all (Suc fuel) node h =
     (case node of
        None \<Rightarrow> Some h
      | Some a \<Rightarrow> (case h a of
                    None \<Rightarrow> None
                  | Some (_, nxt) \<Rightarrow> stack_delete_all fuel nxt (h(a := None))))"

section \<open>Ownership of nodes\<close>

primrec st_chain :: "(nat \<rightharpoonup> 'v \<times> nat ptr) \<Rightarrow> nat ptr \<Rightarrow> nat list \<Rightarrow> bool" where
  "st_chain h p [] \<longleftrightarrow> p = None"
| "st_chain h p (a # as) \<longleftrightarrow> p = Some a \<and> (\<exists>v n. h a = Some (v, n) \<and> st_chain h n as)"

definition st_val :: "(nat \<rightharpoonup> 'v \<times> nat ptr) \<Rightarrow> nat \<Rightarrow> 'v" where
  "st_val h a = fst (the (h a))"

text \<open>The nodes only thread \<open>t\<close> may free or publish: the one in its hands and its retired ones.\<close>

fun st_hand :: "'v st_pc \<Rightarrow> nat list" where
  "st_hand (Push_Cas a) = [a]"
| "st_hand (Pop_Value a) = [a]"
| "st_hand (Pop_Retire a _) = [a]"
| "st_hand _ = []"

definition st_own :: "'v lfstack \<Rightarrow> nat \<Rightarrow> nat list" where
  "st_own s t = st_hand (st_pcs s t) @ hz_retired (st_hz s) t"

definition owned :: "(nat \<Rightarrow> nat list) \<Rightarrow> nat list \<Rightarrow> (nat \<rightharpoonup> 'v \<times> nat ptr) \<Rightarrow> bool" where
  "owned own ns h \<longleftrightarrow>
     distinct ns \<and> (\<forall>t. distinct (own t)) \<and> (\<forall>t a. a \<in> set (own t) \<longrightarrow> a \<in> dom h \<and> a \<notin> set ns) \<and>
     (\<forall>t t' a. a \<in> set (own t) \<longrightarrow> a \<in> set (own t') \<longrightarrow> t = t')"

lemma st_chain_dom: "st_chain h p ns \<Longrightarrow> set ns \<subseteq> dom h"
  by (induction ns arbitrary: p) auto

lemma st_chain_cong: "(\<And>a. a \<in> set ns \<Longrightarrow> h' a = h a) \<Longrightarrow> st_chain h p ns = st_chain h' p ns"
  by (induction ns arbitrary: p) auto

lemma st_val_cong: "(\<And>a. a \<in> set ns \<Longrightarrow> h' a = h a) \<Longrightarrow> map (st_val h') ns = map (st_val h) ns"
  by (simp add: st_val_def)

lemma owned_fresh:
  assumes "owned own ns h" "h a = None" "set ns \<subseteq> dom h"
  shows "owned (own(t := a # own t)) ns (h(a \<mapsto> c))"
proof -
  from assms(1,2) have fresh: "a \<notin> set (own t')" for t' by (auto simp: owned_def)
  moreover have "a \<notin> set ns" using assms(2,3) by auto
  ultimately show ?thesis using assms(1) by (auto simp: owned_def)
qed

lemma owned_publish:
  assumes "owned own ns h" "own t = a # as"
  shows "owned (own(t := as)) (a # ns) h"
proof -
  have "a \<notin> set (own t')" if "t' \<noteq> t" for t' using assms that by (auto simp: owned_def)
  moreover have "distinct (a # as)" "\<And>b. b \<in> set (a # as) \<Longrightarrow> b \<in> dom h \<and> b \<notin> set ns"
    using assms unfolding owned_def by metis+
  moreover have "distinct (own t')" "\<And>b. b \<in> set (own t') \<Longrightarrow> b \<in> dom h \<and> b \<notin> set ns"
    "\<And>b t''. b \<in> set (own t') \<Longrightarrow> b \<in> set (own t'') \<Longrightarrow> t' = t''" "distinct ns" for t'
    using assms unfolding owned_def by metis+
  ultimately show ?thesis using assms(2) unfolding owned_def fun_upd_apply by (auto split: if_splits)
qed

lemma owned_take:
  assumes "owned own (a # ns) h" "a \<in> dom h"
  shows "owned (own(t := a # own t)) ns h"
  using assms unfolding owned_def by auto

lemma owned_perm:
  assumes "owned own ns h" "mset as = mset (own t)"
  shows "owned (own(t := as)) ns h"
proof -
  have "set as = set (own t)" "distinct as = distinct (own t)"
    using assms(2) by (metis mset_eq_setD) (metis assms(2) mset_eq_imp_distinct_iff)
  with assms(1) show ?thesis unfolding owned_def by auto
qed

lemma owned_free:
  assumes "owned own ns h" "mset (own t) = mset kept + mset freed"
    and "\<And>a. h' a = (if a \<in> set freed then None else h a)"
  shows "owned (own(t := kept)) ns h'" "a \<in> set ns \<Longrightarrow> h' a = h a"
    "a \<in> set (own t') \<Longrightarrow> t' \<noteq> t \<Longrightarrow> h' a = h a" "a \<in> set kept \<Longrightarrow> h' a = h a"
proof -
  have "distinct (kept @ freed)"
    using assms(1,2) by (metis mset_append mset_eq_imp_distinct_iff owned_def)
  moreover have st: "set (own t) = set kept \<union> set freed"
    using assms(2) by (metis mset_append mset_eq_setD set_append)
  ultimately show "owned (own(t := kept)) ns h'"
    using assms(1) unfolding owned_def by (auto simp: assms(3) dom_def) blast+
  show "a \<in> set ns \<Longrightarrow> h' a = h a" using assms(1) st by (auto simp: owned_def assms(3))
  show "a \<in> set (own t') \<Longrightarrow> t' \<noteq> t \<Longrightarrow> h' a = h a" using assms(1) st by (auto simp: owned_def assms(3))
  show "a \<in> set kept \<Longrightarrow> h' a = h a" using \<open>distinct (kept @ freed)\<close> by (auto simp: assms(3))
qed

end
