(* ===== verification/Lock_Free_Stack_Safety.thy ===== *)
theory Lock_Free_Stack_Safety
  imports Lock_Free_Stack
begin

text \<open>
  Memory safety and linearizability of the Treiber stack with hazard pointers: a protected node
  is not freed, so no thread touches freed memory even though addresses are reused, and the
  successful exchanges form a history of a sequential stack.
\<close>

section \<open>Invariant\<close>

fun st_valid :: "'v st_pc \<Rightarrow> nat option" where
  "st_valid (Pop_Next a) = Some a"
| "st_valid (Pop_Cas a _) = Some a"
| "st_valid _ = None"

text \<open>A node that was published: it is in the stack, or popped and not yet freed.\<close>

definition st_live :: "'v lfstack \<Rightarrow> nat list \<Rightarrow> nat \<Rightarrow> bool" where
  "st_live s ns a \<longleftrightarrow> a \<in> set ns \<or> (\<exists>t. a \<in> set (st_own s t) \<and> st_pcs s t \<noteq> Push_Cas a)"

definition st_protects :: "'v lfstack \<Rightarrow> nat list \<Rightarrow> nat \<Rightarrow> nat \<Rightarrow> bool" where
  "st_protects s ns p a \<longleftrightarrow> hp_Get p 0 (st_hz s) = Some a \<and> st_live s ns a"

definition valid_ok :: "'v lfstack \<Rightarrow> nat list \<Rightarrow> nat \<Rightarrow> bool" where
  "valid_ok s ns p \<longleftrightarrow>
     (case st_pcs s p of
        Pop_Reload obj \<Rightarrow> hp_Get p 0 (st_hz s) = obj
      | Pop_Next a \<Rightarrow> st_protects s ns p a
      | Pop_Cas a nxt \<Rightarrow> st_protects s ns p a \<and> (\<exists>v. st_heap s a = Some (v, nxt))
      | _ \<Rightarrow> True)"

text \<open>A scan in progress has recorded every protected retired node whose slot it has passed.\<close>

definition scan_ok :: "'v lfstack \<Rightarrow> nat \<Rightarrow> bool" where
  "scan_ok s t \<longleftrightarrow>
     (case st_pcs s t of
        Pop_Scan v k hazards \<Rightarrow>
          (\<forall>p a. st_valid (st_pcs s p) = Some a \<longrightarrow> a \<in> set (hz_retired (st_hz s) t) \<longrightarrow>
                 kMaxHazardPtrs * p < k \<longrightarrow> a \<in> set hazards)
      | _ \<Rightarrow> True)"

definition res_ok :: "'v lfstack \<Rightarrow> nat \<Rightarrow> bool" where
  "res_ok s t \<longleftrightarrow>
     (case st_pcs s t of
        Pop_Value a \<Rightarrow> (\<exists>v n. st_heap s a = Some (v, n) \<and> st_res s t = Some v)
      | Pop_Retire a v \<Rightarrow> st_res s t = Some v
      | Pop_Scan v k hazards \<Rightarrow> st_res s t = Some v
      | Pop_Reset (Some v) \<Rightarrow> st_res s t = Some v
      | ST_Idle (Some v) \<Rightarrow> st_res s t = Some v
      | _ \<Rightarrow> True)"

fun stack_replay :: "'v st_op list \<Rightarrow> 'v list \<Rightarrow> 'v list option" where
  "stack_replay [] vs = Some vs"
| "stack_replay (Op_Push v # ops) vs = stack_replay ops (v # vs)"
| "stack_replay (Op_Pop v # ops) vs =
     (case vs of [] \<Rightarrow> None | w # ws \<Rightarrow> if v = w then stack_replay ops ws else None)"

lemma stack_replay_append:
  "stack_replay (xs @ ys) vs = (case stack_replay xs vs of None \<Rightarrow> None | Some ws \<Rightarrow> stack_replay ys ws)"
  by (induction xs vs rule: stack_replay.induct) (auto split: list.splits)

text \<open>Threads without a mutator only push.\<close>

fun st_outside :: "'v st_pc \<Rightarrow> bool" where
  "st_outside (ST_Idle r) = True"
| "st_outside (Push_Cas a) = True"
| "st_outside _ = False"

definition stack_inv :: "'v lfstack \<Rightarrow> nat list \<Rightarrow> bool" where
  "stack_inv s ns \<longleftrightarrow> \<not> st_uaf s \<and> st_chain (st_heap s) (st_top s) ns \<and>
     owned (st_own s) ns (st_heap s) \<and>
     (\<forall>p. valid_ok s ns p \<and> scan_ok s p \<and> res_ok s p \<and> (st_valid (st_pcs s p) \<noteq> None \<longrightarrow> p < kMaxThreads)) \<and>
     (\<forall>p. \<not> p < kMaxThreads \<longrightarrow> st_outside (st_pcs s p)) \<and>
     stack_replay (st_log s) [] = Some (map (st_val (st_heap s)) ns)"

text \<open>
  A step of thread \<open>t\<close> keeps the invariant if it keeps the heap and the publication of what others
  protect or own, and protects a new node only while that node is in the stack.
\<close>

lemma stack_inv_by:
  assumes inv: "stack_inv s ns"
    and shape: "\<not> st_uaf s'" "st_chain (st_heap s') (st_top s') ns'" "owned (st_own s') ns' (st_heap s')"
      "stack_replay (st_log s') [] = Some (map (st_val (st_heap s')) ns')"
    and others: "\<And>j. j \<noteq> t \<Longrightarrow> st_pcs s' j = st_pcs s j \<and> hp_Get j 0 (st_hz s') = hp_Get j 0 (st_hz s) \<and>
        st_res s' j = st_res s j \<and> hz_retired (st_hz s') j = hz_retired (st_hz s) j"
    and live: "\<And>p a. p \<noteq> t \<Longrightarrow> st_valid (st_pcs s p) = Some a \<Longrightarrow> st_live s ns a \<Longrightarrow>
        st_live s' ns' a \<and> st_heap s' a = st_heap s a"
    and heap: "\<And>j a. j \<noteq> t \<Longrightarrow> a \<in> set (st_own s j) \<Longrightarrow> st_heap s' a = st_heap s a"
    and self: "valid_ok s' ns' t" "scan_ok s' t" "res_ok s' t" "t < kMaxThreads \<or> st_outside (st_pcs s' t)"
    and new: "\<And>a. st_valid (st_pcs s' t) = Some a \<Longrightarrow> st_valid (st_pcs s t) = Some a \<or> a \<in> set ns"
  shows "stack_inv s' ns'"
proof -
  have "valid_ok s' ns' j" if "j \<noteq> t" for j
  proof -
    have ok: "valid_ok s ns j" using inv by (simp add: stack_inv_def)
    show ?thesis
      using ok others [OF that] live [OF that]
      by (cases "st_pcs s j") (auto simp: valid_ok_def st_protects_def)
  qed
  moreover have "scan_ok s' j" if "j \<noteq> t" for j
  proof (cases "st_pcs s j")
    case (Pop_Scan v k hazards)
    have "a \<in> set hazards" if a: "st_valid (st_pcs s' p) = Some a" "a \<in> set (hz_retired (st_hz s) j)"
      "kMaxHazardPtrs * p < k" for p a
    proof -
      have "a \<notin> set ns" using inv a(2) by (auto simp: stack_inv_def owned_def st_own_def)
      with new others [of p] a(1) have "st_valid (st_pcs s p) = Some a" by (cases "p = t") auto
      moreover have "scan_ok s j" using inv by (simp add: stack_inv_def)
      ultimately show ?thesis using a Pop_Scan by (simp add: scan_ok_def)
    qed
    with Pop_Scan others [OF that] show ?thesis by (simp add: scan_ok_def)
  qed (use others [OF that] in \<open>simp_all add: scan_ok_def\<close>)
  moreover have "res_ok s' j" if "j \<noteq> t" for j
  proof -
    have "res_ok s j" using inv by (simp add: stack_inv_def)
    then show ?thesis
      using others [OF that] heap [OF that]
      by (cases "st_pcs s j") (auto simp: res_ok_def st_own_def split: option.splits)
  qed
  ultimately have ok: "valid_ok s' ns' j \<and> scan_ok s' j \<and> res_ok s' j" for j using self by (cases "j = t") auto
  have pcs: "j \<noteq> t \<Longrightarrow> st_pcs s' j = st_pcs s j" for j using others by blast
  have lt: "(st_valid (st_pcs s' j) \<noteq> None \<longrightarrow> j < kMaxThreads) \<and>
      (\<not> j < kMaxThreads \<longrightarrow> st_outside (st_pcs s' j))" for j
    using inv self(4) pcs [of j] by (cases "j = t"; cases "st_pcs s' j") (auto simp: stack_inv_def)
  from shape ok lt show ?thesis by (simp add: stack_inv_def)
qed

section \<open>Preservation\<close>

lemma st_live_mono:
  assumes "st_live s ns a" "a \<in> set ns \<Longrightarrow> st_live s' ns' a"
    and "\<And>j. a \<in> set (st_own s j) \<Longrightarrow> st_pcs s j \<noteq> Push_Cas a \<Longrightarrow>
      a \<in> set ns' \<or> a \<in> set (st_own s' j) \<and> st_pcs s' j \<noteq> Push_Cas a"
  shows "st_live s' ns' a"
  using assms unfolding st_live_def by blast

text \<open>Steps that move thread \<open>t\<close>, and perhaps its own hazard slot, only.\<close>

lemma stack_inv_move:
  assumes inv: "stack_inv s ns" and t: "t < kMaxThreads"
    and same: "st_top s' = st_top s" "st_heap s' = st_heap s" "st_log s' = st_log s" "st_res s' = st_res s"
      "st_uaf s' = st_uaf s" "hz_retired (st_hz s') = hz_retired (st_hz s)" "st_pcs s' = (st_pcs s)(t := p)"
      "\<And>j. j \<noteq> t \<Longrightarrow> hp_Get j 0 (st_hz s') = hp_Get j 0 (st_hz s)"
    and hand: "st_hand p = st_hand (st_pcs s t)" "\<And>a. (p = Push_Cas a) = (st_pcs s t = Push_Cas a)"
    and self: "valid_ok s' ns t" "scan_ok s' t" "res_ok s' t"
    and new: "\<And>a. st_valid p = Some a \<Longrightarrow> st_valid (st_pcs s t) = Some a \<or> a \<in> set ns"
  shows "stack_inv s' ns"
proof (rule stack_inv_by [OF inv, where t = t])
  have own: "st_own s' = st_own s" using same(6,7) hand(1) by (auto simp: st_own_def)
  then show "owned (st_own s') ns (st_heap s')" using inv same by (simp add: stack_inv_def)
  have "(st_pcs s' j = Push_Cas a) = (st_pcs s j = Push_Cas a)" for j a
    using same(7) hand(2) [of a] by (cases "j = t") auto
  then show "st_live s' ns a \<and> st_heap s' a = st_heap s a" if "st_live s ns a" for a
    using that own same(2) by (simp add: st_live_def)
qed (use inv same self t new in \<open>auto simp: stack_inv_def\<close>)

lemma stack_inv_top:
  assumes "stack_inv s ns" "st_top s = Some a"
  shows "\<exists>ns'. ns = a # ns'"
  using assms by (cases ns) (auto simp: stack_inv_def)

lemma stack_inv_dom: "stack_inv s ns \<Longrightarrow> set ns \<subseteq> dom (st_heap s)"
  unfolding stack_inv_def by (elim conjE) (rule st_chain_dom)

lemma stack_inv_heap_upd:
  assumes "stack_inv s ns" "\<And>a. a \<in> set ns \<Longrightarrow> h a = st_heap s a"
  shows "st_chain h (st_top s) ns" "stack_replay (st_log s) [] = Some (map (st_val h) ns)"
  using assms st_chain_cong [of ns h "st_heap s" "st_top s", OF assms(2)] st_val_cong [of ns h "st_heap s", OF assms(2)]
  by (simp_all add: stack_inv_def)

lemma stack_inv_threads:
  assumes "stack_inv s ns" "\<not> st_outside (st_pcs s t)"
  shows "t < kMaxThreads"
  using assms unfolding stack_inv_def by metis

lemma stack_inv_own_heap:
  assumes "stack_inv s ns" "a \<in> set (st_own s t)"
  shows "a \<in> dom (st_heap s)" "a \<notin> set ns" "j \<noteq> t \<Longrightarrow> a \<notin> set (st_own s j)"
  using assms unfolding stack_inv_def owned_def by blast+

lemma stack_inv_live_heap:
  assumes "stack_inv s ns" "st_live s ns a"
  shows "a \<in> dom (st_heap s)" "st_pcs s t \<noteq> Push_Cas a"
proof -
  note dom = stack_inv_dom [OF assms(1)]
  from assms(2) show "a \<in> dom (st_heap s)"
    using dom stack_inv_own_heap(1) [OF assms(1)] by (auto simp: st_live_def)
  show "st_pcs s t \<noteq> Push_Cas a"
  proof
    assume "st_pcs s t = Push_Cas a"
    then have own: "a \<in> set (st_own s t)" by (simp add: st_own_def)
    with assms(2) stack_inv_own_heap(2) [OF assms(1) own] obtain t' where
      "a \<in> set (st_own s t')" "st_pcs s t' \<noteq> Push_Cas a" by (auto simp: st_live_def)
    with stack_inv_own_heap(3) [OF assms(1) own, of t'] \<open>st_pcs s t = Push_Cas a\<close> show False by auto
  qed
qed

lemma valid_live:
  assumes "stack_inv s ns" "st_valid (st_pcs s p) = Some a"
  shows "st_protects s ns p a" "p < kMaxThreads"
proof -
  have "valid_ok s ns p" "st_valid (st_pcs s p) \<noteq> None \<longrightarrow> p < kMaxThreads"
    using assms(1) by (simp_all add: stack_inv_def)
  with assms(2) show "st_protects s ns p a" "p < kMaxThreads"
    by (cases "st_pcs s p"; simp add: valid_ok_def)+
qed

lemma push_begin_inv:
  assumes inv: "stack_inv s ns" and "stack_Push t v a s = Some s'"
  shows "stack_inv s' ns"
proof -
  from assms(2) obtain r where idle: "st_pcs s t = ST_Idle r" and fresh: "st_heap s a = None"
    and s': "s' = s\<lparr>st_heap := (st_heap s)(a \<mapsto> (v, st_top s)), st_pcs := (st_pcs s)(t := Push_Cas a)\<rparr>"
    by (auto simp: stack_Push_def st_goto_def split: st_pc.splits if_splits)
  have own: "st_own s' = (st_own s)(t := a # st_own s t)" by (auto simp: s' st_own_def idle)
  note dom = stack_inv_dom [OF inv]
  have eq: "b \<in> dom (st_heap s) \<Longrightarrow> st_heap s' b = st_heap s b" for b using fresh by (auto simp: s')
  show ?thesis
  proof (rule stack_inv_by [OF inv, where t = t])
    have ns: "b \<in> set ns \<Longrightarrow> st_heap s' b = st_heap s b" for b using eq dom by blast
    show "st_chain (st_heap s') (st_top s') ns"
      using stack_inv_heap_upd(1) [of s ns "st_heap s'", OF inv ns] by (simp add: s')
    show "owned (st_own s') ns (st_heap s')"
      using inv owned_fresh [OF _ fresh dom] unfolding own by (simp add: stack_inv_def s')
    show "stack_replay (st_log s') [] = Some (map (st_val (st_heap s')) ns)"
      using stack_inv_heap_upd(2) [of s ns "st_heap s'", OF inv ns] by (simp add: s')
    show "st_live s' ns b \<and> st_heap s' b = st_heap s b" if "st_live s ns b" for b
    proof -
      have b: "b \<in> dom (st_heap s)" by (rule stack_inv_live_heap(1) [OF inv that])
      with fresh have "b \<noteq> a" by auto
      with that have "st_live s' ns b" unfolding st_live_def own by (auto simp: s' idle)
      with eq [OF b] show ?thesis by simp
    qed
    show "st_heap s' b = st_heap s b" if "b \<in> set (st_own s j)" for j b
      using eq stack_inv_own_heap(1) [OF inv that] by blast
  qed (use inv in \<open>auto simp: s' stack_inv_def valid_ok_def scan_ok_def res_ok_def\<close>)
qed

lemma push_cas_inv:
  assumes inv: "stack_inv s ns" and pc: "st_pcs s t = Push_Cas a"
  shows "\<exists>ns'. stack_inv (push_cas t a spurious s) ns'"
proof -
  have own: "st_own s t = a # hz_retired (st_hz s) t" by (simp add: st_own_def pc)
  have a: "a \<in> set (st_own s t)" by (simp add: own)
  from stack_inv_own_heap(1) [OF inv a] obtain v nxt where h: "st_heap s a = Some (v, nxt)" by auto
  note notin = stack_inv_own_heap(2,3) [OF inv a]
  show ?thesis
  proof (cases "st_top s = nxt \<and> \<not> spurious")
    case True
    define s' where "s' = s\<lparr>st_top := Some a, st_log := st_log s @ [Op_Push v], st_pcs := (st_pcs s)(t := ST_Idle None)\<rparr>"
    have "stack_inv s' (a # ns)"
    proof (rule stack_inv_by [OF inv, where t = t])
      show "st_chain (st_heap s') (st_top s') (a # ns)" using inv h True by (simp add: stack_inv_def s'_def)
      have "st_own s' = (st_own s)(t := hz_retired (st_hz s) t)" by (auto simp: s'_def st_own_def)
      then show "owned (st_own s') (a # ns) (st_heap s')"
        using owned_publish [of "st_own s" ns "st_heap s" t a, OF _ own] inv by (simp add: s'_def stack_inv_def)
      show "st_live s' (a # ns) b \<and> st_heap s' b = st_heap s b" if "st_live s ns b" for b
      proof
        show "st_live s' (a # ns) b"
          by (rule st_live_mono [OF that]) (use pc in \<open>auto simp: st_live_def s'_def st_own_def\<close>)
      qed (simp add: s'_def)
      show "stack_replay (st_log s') [] = Some (map (st_val (st_heap s')) (a # ns))"
        using inv h by (simp add: stack_inv_def s'_def stack_replay_append st_val_def)
    qed (use inv in \<open>auto simp: s'_def stack_inv_def valid_ok_def scan_ok_def res_ok_def\<close>)
    moreover have "push_cas t a spurious s = s'" using h True by (simp add: push_cas_def s'_def st_goto_def)
    ultimately show ?thesis by auto
  next
    case False
    define s' where "s' = s\<lparr>st_heap := (st_heap s)(a \<mapsto> (v, st_top s))\<rparr>"
    have same: "b \<noteq> a \<Longrightarrow> st_heap s' b = st_heap s b" for b by (simp add: s'_def)
    have "stack_inv s' ns"
    proof (rule stack_inv_by [OF inv, where t = t])
      have ns: "b \<in> set ns \<Longrightarrow> st_heap s' b = st_heap s b" for b using same [of b] notin(1) by metis
      show "st_chain (st_heap s') (st_top s') ns"
        using stack_inv_heap_upd(1) [of s ns "st_heap s'", OF inv ns] by (simp add: s'_def)
      show "stack_replay (st_log s') [] = Some (map (st_val (st_heap s')) ns)"
        using stack_inv_heap_upd(2) [of s ns "st_heap s'", OF inv ns] by (simp add: s'_def)
      have "st_own s' = st_own s" by (auto simp: s'_def st_own_def)
      then show "owned (st_own s') ns (st_heap s')" using inv by (auto simp: s'_def stack_inv_def owned_def)
      show "st_live s' ns b \<and> st_heap s' b = st_heap s b" if "st_live s ns b" for b
      proof
        show "st_live s' ns b"
          by (rule st_live_mono [OF that]) (use pc in \<open>auto simp: st_live_def s'_def st_own_def\<close>)
        show "st_heap s' b = st_heap s b"
          by (rule same) (use stack_inv_live_heap(2) [OF inv that, of t] pc in auto)
      qed
      show "st_heap s' b = st_heap s b" if "j \<noteq> t" "b \<in> set (st_own s j)" for j b
        using same [of b] notin(2) [OF that(1)] that(2) by metis
    qed (use inv pc in \<open>auto simp: s'_def stack_inv_def valid_ok_def scan_ok_def res_ok_def\<close>)
    moreover have "push_cas t a spurious s = s'" using h False by (auto simp: push_cas_def s'_def)
    ultimately show ?thesis by auto
  qed
qed

lemma pop_reload_inv:
  assumes inv: "stack_inv s ns" and pc: "st_pcs s t = Pop_Reload obj"
  shows "stack_inv (pop_reload t obj s) ns"
proof -
  have t: "t < kMaxThreads" by (rule stack_inv_threads [OF inv]) (simp add: pc)
  have "valid_ok s ns t" using inv by (simp add: stack_inv_def)
  then have slot: "hp_Get t 0 (st_hz s) = obj" by (simp add: valid_ok_def pc)
  show ?thesis
  proof (cases "st_top s = obj")
    case False
    then show ?thesis
      by (intro stack_inv_move [OF inv t, where p = "Pop_Set (st_top s)"])
        (simp_all add: pop_reload_def st_goto_def pc valid_ok_def scan_ok_def res_ok_def)
  next
    case True
    show ?thesis
    proof (cases obj)
      case None
      with True show ?thesis
        by (intro stack_inv_move [OF inv t, where p = "Pop_Reset None"])
          (simp_all add: pop_reload_def st_goto_def pc valid_ok_def scan_ok_def res_ok_def)
    next
      case (Some a)
      with True stack_inv_top [OF inv] have "a \<in> set ns" by auto
      with True Some slot show ?thesis
        by (intro stack_inv_move [OF inv t, where p = "Pop_Next a"])
          (simp_all add: pop_reload_def st_goto_def pc valid_ok_def scan_ok_def res_ok_def st_protects_def st_live_def)
    qed
  qed
qed

lemma pop_next_inv:
  assumes inv: "stack_inv s ns" and pc: "st_pcs s t = Pop_Next a"
  shows "stack_inv (pop_next t a s) ns"
proof -
  have t: "t < kMaxThreads" by (rule stack_inv_threads [OF inv]) (simp add: pc)
  have prot: "st_protects s ns t a" by (rule valid_live [OF inv]) (simp add: pc)
  then have "a \<in> dom (st_heap s)" using stack_inv_live_heap(1) [OF inv] by (simp add: st_protects_def)
  then obtain v nxt where h: "st_heap s a = Some (v, nxt)" by auto
  define s' where "s' = st_goto t (Pop_Cas a nxt) s"
  have "st_live s' ns a"
    by (rule st_live_mono [of s ns]) (use prot pc in \<open>auto simp: st_protects_def st_live_def s'_def st_goto_def st_own_def\<close>)
  with prot h have "stack_inv s' ns"
    by (intro stack_inv_move [OF inv t, where p = "Pop_Cas a nxt"])
      (auto simp: s'_def st_goto_def pc valid_ok_def scan_ok_def res_ok_def st_protects_def)
  with h show ?thesis by (simp add: pop_next_def s'_def)
qed

lemma pop_cas_inv:
  assumes inv: "stack_inv s ns" and pc: "st_pcs s t = Pop_Cas a nxt"
  shows "\<exists>ns'. stack_inv (pop_cas t a nxt spurious s) ns'"
proof -
  have t: "t < kMaxThreads" by (rule stack_inv_threads [OF inv]) (simp add: pc)
  have "valid_ok s ns t" using inv by (simp add: stack_inv_def)
  then obtain v where h: "st_heap s a = Some (v, nxt)" by (auto simp: valid_ok_def pc)
  show ?thesis
  proof (cases "st_top s = Some a \<and> \<not> spurious")
    case False
    then have "stack_inv (st_goto t Pop_Load s) ns"
      by (intro stack_inv_move [OF inv t, where p = Pop_Load])
        (simp_all add: st_goto_def pc valid_ok_def scan_ok_def res_ok_def)
    with False show ?thesis by (auto simp: pop_cas_def)
  next
    case True
    then obtain ns' where ns: "ns = a # ns'" using stack_inv_top [OF inv] by blast
    define s' where "s' = s\<lparr>st_top := nxt, st_log := st_log s @ [Op_Pop v], st_res := (st_res s)(t := Some v),
      st_pcs := (st_pcs s)(t := Pop_Value a)\<rparr>"
    have own: "st_own s' = (st_own s)(t := a # st_own s t)" by (auto simp: s'_def st_own_def pc)
    have "stack_inv s' ns'"
    proof (rule stack_inv_by [OF inv, where t = t])
      show "st_chain (st_heap s') (st_top s') ns'" using inv h by (simp add: stack_inv_def s'_def ns)
      show "owned (st_own s') ns' (st_heap s')"
        unfolding own using inv owned_take [of "st_own s" a ns' "st_heap s" t] h by (auto simp: stack_inv_def ns s'_def)
      show "st_live s' ns' b \<and> st_heap s' b = st_heap s b" if "st_live s ns b" for b
      proof
        show "st_live s' ns' b"
          by (rule st_live_mono [OF that]) (use pc ns in \<open>auto simp: st_live_def s'_def st_own_def\<close>)
      qed (simp add: s'_def)
      show "stack_replay (st_log s') [] = Some (map (st_val (st_heap s')) ns')"
        using inv h by (simp add: stack_inv_def s'_def stack_replay_append ns st_val_def)
    qed (use inv t h in \<open>auto simp: s'_def stack_inv_def valid_ok_def scan_ok_def res_ok_def\<close>)
    moreover have "pop_cas t a nxt spurious s = s'" using h True by (simp add: pop_cas_def s'_def st_goto_def)
    ultimately show ?thesis by auto
  qed
qed

lemma pop_value_inv:
  assumes inv: "stack_inv s ns" and pc: "st_pcs s t = Pop_Value a"
  shows "stack_inv (pop_value t a s) ns"
proof -
  have t: "t < kMaxThreads" by (rule stack_inv_threads [OF inv]) (simp add: pc)
  have "res_ok s t" using inv by (simp add: stack_inv_def)
  then obtain v n where h: "st_heap s a = Some (v, n)" and res: "st_res s t = Some v"
    by (auto simp: res_ok_def pc)
  then have "stack_inv (st_goto t (Pop_Retire a v) s) ns"
    by (intro stack_inv_move [OF inv t, where p = "Pop_Retire a v"])
      (simp_all add: st_goto_def pc valid_ok_def scan_ok_def res_ok_def)
  with h show ?thesis by (simp add: pop_value_def)
qed

lemma pop_retire_inv:
  assumes inv: "stack_inv s ns" and pc: "st_pcs s t = Pop_Retire a v"
  shows "stack_inv (pop_retire t a v s) ns"
proof -
  have t: "t < kMaxThreads" by (rule stack_inv_threads [OF inv]) (simp add: pc)
  have res: "st_res s t = Some v" using inv by (auto simp: stack_inv_def res_ok_def pc dest!: spec [of _ t])
  define p where "p = (if length (hz_retired (st_hz s) t @ [a]) > scan_freq then Pop_Scan v 0 [] else Pop_Reset (Some v))"
  define s' where "s' = s\<lparr>st_hz := (st_hz s)\<lparr>hz_retired := (hz_retired (st_hz s))(t := hz_retired (st_hz s) t @ [a])\<rparr>,
    st_pcs := (st_pcs s)(t := p)\<rparr>"
  have hand: "st_hand p = []" "st_valid p = None" "\<And>b. p \<noteq> Push_Cas b" by (simp_all add: p_def)
  have own: "st_own s' = (st_own s)(t := hz_retired (st_hz s) t @ [a])"
    by (auto simp: s'_def st_own_def hand)
  have "stack_inv s' ns"
  proof (rule stack_inv_by [OF inv, where t = t])
    show "owned (st_own s') ns (st_heap s')"
      unfolding own using inv owned_perm [of "st_own s" ns "st_heap s" "hz_retired (st_hz s) t @ [a]" t] pc
      by (simp add: stack_inv_def s'_def st_own_def)
    show "st_live s' ns b \<and> st_heap s' b = st_heap s b" if "st_live s ns b" for b
    proof
      show "st_live s' ns b"
        by (rule st_live_mono [OF that]) (use pc hand in \<open>auto simp: st_live_def s'_def st_own_def\<close>)
    qed (simp add: s'_def)
  qed (use inv t res hand in \<open>auto simp: s'_def p_def hp_Get_def stack_inv_def valid_ok_def scan_ok_def res_ok_def\<close>)
  moreover have "pop_retire t a v s = s'"
    by (simp add: pop_retire_def hz_Retire_def s'_def p_def st_goto_def Let_def)
  ultimately show ?thesis by simp
qed

lemma scan_read_ok:
  assumes inv: "stack_inv s ns" and pc: "st_pcs s t = Pop_Scan v k hazards"
  shows "stack_inv (st_goto t (Pop_Scan v (k + 1) (scan_read k (st_hz s) hazards)) s) ns"
proof -
  have t: "t < kMaxThreads" by (rule stack_inv_threads [OF inv]) (simp add: pc)
  have res: "st_res s t = Some v" using inv by (auto simp: stack_inv_def res_ok_def pc dest!: spec [of _ t])
  let ?hz = "scan_read k (st_hz s) hazards" and ?s = "st_goto t (Pop_Scan v (k + 1) (scan_read k (st_hz s) hazards)) s"
  have "a \<in> set ?hz" if a: "st_valid (st_pcs s p) = Some a" "a \<in> set (hz_retired (st_hz s) t)"
    "kMaxHazardPtrs * p < k + 1" for p a
  proof (cases "kMaxHazardPtrs * p < k")
    case True
    have "scan_ok s t" using inv by (simp add: stack_inv_def)
    with a True have "a \<in> set hazards" by (simp add: scan_ok_def pc)
    then show ?thesis by (auto simp: scan_read_def split: option.splits)
  next
    case False
    with a(3) have "k = kMaxHazardPtrs * p" by simp
    then have "k div kMaxHazardPtrs = p" "k mod kMaxHazardPtrs = 0" by (simp_all add: kMaxHazardPtrs_def)
    with valid_live(1) [OF inv a(1)] show ?thesis by (simp add: scan_read_def st_protects_def)
  qed
  moreover have "st_valid (st_pcs ?s p) = st_valid (st_pcs s p)" for p by (simp add: st_goto_def pc)
  ultimately have "scan_ok ?s t" by (simp add: scan_ok_def) (simp add: st_goto_def)
  with res show ?thesis
    by (intro stack_inv_move [OF inv t, where p = "Pop_Scan v (k + 1) ?hz"])
      (simp_all add: st_goto_def pc valid_ok_def res_ok_def)
qed

text \<open>The freeing loop: every protected node was recorded, because all slots have been read.\<close>

lemma scan_free_inv:
  assumes inv: "stack_inv s ns" and pc: "st_pcs s t = Pop_Scan v k hazards" and k: "\<not> k < scan_slots"
    and free: "scan_free hazards 0 (hz_retired (st_hz s) t) = (kept, freed)"
  defines "s' \<equiv> st_goto t (Pop_Reset (Some v))
                (s\<lparr>st_hz := (st_hz s)\<lparr>hz_retired := (hz_retired (st_hz s))(t := kept)\<rparr>,
                   st_heap := (\<lambda>a. if a \<in> set freed then None else st_heap s a)\<rparr>)"
  shows "stack_inv s' ns"
proof -
  have t: "t < kMaxThreads" by (rule stack_inv_threads [OF inv]) (simp add: pc)
  have res: "st_res s t = Some v" using inv by (auto simp: stack_inv_def res_ok_def pc dest!: spec [of _ t])
  note spec = scan_free_spec [of 0 "hz_retired (st_hz s) t" hazards, OF _ free, simplified]
  have sets: "set freed = {a \<in> set (hz_retired (st_hz s) t). a \<notin> set hazards}"
    using arg_cong [OF conjunct2 [OF spec], of set_mset] by auto
  have "st_own s t = hz_retired (st_hz s) t" by (simp add: st_own_def pc)
  then have split: "mset (st_own s t) = mset kept + mset freed" using spec by (simp add: multiset_partition)
  have h': "st_heap s' a = (if a \<in> set freed then None else st_heap s a)" for a by (simp add: s'_def st_goto_def)
  have ow: "owned (st_own s) ns (st_heap s)" using inv by (simp add: stack_inv_def)
  note free_frame = owned_free [OF ow split h']
  have own: "st_own s' = (st_own s)(t := kept)" by (auto simp: s'_def st_goto_def st_own_def)
  have pcs: "st_pcs s' = (st_pcs s)(t := Pop_Reset (Some v))" by (simp add: s'_def st_goto_def)
  have safe: "a \<notin> set freed" if "p \<noteq> t" "st_valid (st_pcs s p) = Some a" for p a
  proof
    assume a: "a \<in> set freed"
    have "kMaxHazardPtrs * p < k"
      using valid_live(2) [OF inv that(2)] k by (simp add: scan_slots_def kMaxHazardPtrs_def kMaxThreads_def)
    moreover have "scan_ok s t" using inv by (simp add: stack_inv_def)
    ultimately show False using a that(2) by (auto simp: scan_ok_def pc sets)
  qed
  show ?thesis
  proof (rule stack_inv_by [OF inv, where t = t])
    show "st_chain (st_heap s') (st_top s') ns"
      using stack_inv_heap_upd(1) [of s ns "st_heap s'", OF inv free_frame(2)] by (simp add: s'_def st_goto_def)
    show "stack_replay (st_log s') [] = Some (map (st_val (st_heap s')) ns)"
      using stack_inv_heap_upd(2) [of s ns "st_heap s'", OF inv free_frame(2)] by (simp add: s'_def st_goto_def)
    show "owned (st_own s') ns (st_heap s')" unfolding own by (rule free_frame(1))
    show "st_heap s' a = st_heap s a" if "j \<noteq> t" "a \<in> set (st_own s j)" for j a
      using free_frame(3) that by blast
    show "st_live s' ns a \<and> st_heap s' a = st_heap s a"
      if "p \<noteq> t" "st_valid (st_pcs s p) = Some a" "st_live s ns a" for p a
    proof
      have "a \<notin> set freed" by (rule safe [OF that(1,2)])
      then show "st_heap s' a = st_heap s a" by (simp add: h')
      have mem: "a \<in> set (st_own s t) \<Longrightarrow> a \<in> set kept"
        using split \<open>a \<notin> set freed\<close> by (metis mset_append set_append set_mset_mset Un_iff)
      show "st_live s' ns a"
        by (rule st_live_mono [OF that(3)])
          (use mem in \<open>auto simp: st_live_def own pcs split: if_splits\<close>)
    qed
  qed (use inv t res in \<open>auto simp: s'_def st_goto_def hp_Get_def stack_inv_def valid_ok_def scan_ok_def res_ok_def\<close>)
qed

lemma stack_at_inv:
  assumes inv: "stack_inv s ns" and st: "stack_at (st_pcs s t) t spurious s = Some s'"
  shows "\<exists>ns'. stack_inv s' ns'"
proof (cases "st_pcs s t")
  case Pop_Load
  have t: "t < kMaxThreads" by (rule stack_inv_threads [OF inv]) (simp add: Pop_Load)
  from st Pop_Load have "stack_inv s' ns"
    by (intro stack_inv_move [OF inv t, where p = "Pop_Set (st_top s)"])
      (auto simp: st_goto_def valid_ok_def scan_ok_def res_ok_def)
  then show ?thesis ..
next
  case (Pop_Set obj)
  have t: "t < kMaxThreads" by (rule stack_inv_threads [OF inv]) (simp add: Pop_Set)
  from st Pop_Set have "stack_inv s' ns"
    by (intro stack_inv_move [OF inv t, where p = "Pop_Reload obj"])
      (auto simp: st_goto_def valid_ok_def scan_ok_def res_ok_def hp_Set_def hp_Get_def)
  then show ?thesis ..
next
  case (Pop_Scan v k hazards)
  show ?thesis
  proof (cases "k < scan_slots")
    case True
    with st Pop_Scan scan_read_ok [OF inv Pop_Scan] show ?thesis by (auto simp: pop_scan_def)
  next
    case False
    obtain kept freed where "scan_free hazards 0 (hz_retired (st_hz s) t) = (kept, freed)"
      by (cases "scan_free hazards 0 (hz_retired (st_hz s) t)")
    with st Pop_Scan False scan_free_inv [OF inv Pop_Scan False this] show ?thesis
      by (auto simp: pop_scan_def)
  qed
next
  case (Pop_Reset r)
  have t: "t < kMaxThreads" by (rule stack_inv_threads [OF inv]) (simp add: Pop_Reset)
  have "res_ok s t" using inv by (simp add: stack_inv_def)
  with st Pop_Reset have "stack_inv s' ns"
    by (intro stack_inv_move [OF inv t, where p = "ST_Idle r"])
      (auto simp: st_goto_def valid_ok_def scan_ok_def res_ok_def hp_Reset_def hp_Set_def hp_Get_def
        split: option.splits)
  then show ?thesis ..
qed (use st in \<open>auto intro: push_cas_inv [OF inv] pop_cas_inv [OF inv] exI [of _ ns]
      pop_reload_inv [OF inv] pop_next_inv [OF inv] pop_value_inv [OF inv] pop_retire_inv [OF inv]\<close>)

lemma stack_step_inv:
  assumes "\<exists>ns. stack_inv s ns" "stack_step e s = Some s'"
  shows "\<exists>ns. stack_inv s' ns"
proof -
  from assms(1) obtain ns where inv: "stack_inv s ns" ..
  show ?thesis
  proof (cases e)
    case (SE_Push t v a)
    with assms(2) push_begin_inv [OF inv, of t v a s'] show ?thesis
      by (auto simp: stack_step_def split: if_splits)
  next
    case (SE_TryPop t)
    with assms(2) obtain r where pc: "st_pcs s t = ST_Idle r" and t: "t < kMaxThreads" and s': "s' = st_goto t Pop_Load s"
      by (auto simp: stack_step_def stack_TryPop_def split: if_splits st_pc.splits)
    then have "stack_inv s' ns"
      by (intro stack_inv_move [OF inv t, where p = Pop_Load])
        (simp_all add: st_goto_def valid_ok_def scan_ok_def res_ok_def)
    then show ?thesis ..
  next
    case (SE_Step t spurious)
    with assms(2) stack_at_inv [OF inv, of t spurious s'] show ?thesis by (auto simp: stack_step_def split: if_splits)
  qed
qed

interpretation treiber: transition_invariant stack_step stack_init "\<lambda>s. \<exists>ns. stack_inv s ns"
proof
  show "\<exists>ns. stack_inv (stack_init :: 'a lfstack) ns"
    by (rule exI [of _ "[]"])
      (simp add: stack_inv_def stack_init_def owned_def st_own_def hazards_init_def valid_ok_def scan_ok_def res_ok_def)
qed (rule stack_step_inv)

text \<open>The destructor's loop deletes exactly the nodes of the stack, each once.\<close>

lemma stack_delete_all_chain:
  assumes "st_chain h p ns" "distinct ns" "length ns \<le> fuel"
  shows "stack_delete_all fuel p h = Some (h |` (- set ns))"
  using assms
proof (induction ns arbitrary: fuel p h)
  case Nil
  then show ?case by (cases fuel) simp_all
next
  case (Cons a ns)
  then obtain v n f where h: "h a = Some (v, n)" "st_chain h n ns" and f: "fuel = Suc f" and p: "p = Some a"
    by (cases fuel) auto
  have "b \<in> set ns \<Longrightarrow> (h(a := None)) b = h b" for b using Cons.prems(2) by auto
  from h(2) this have "st_chain (h(a := None)) n ns"
    by (subst st_chain_cong [of ns h "h(a := None)" n]) simp_all
  from this have "stack_delete_all f n (h(a := None)) = Some ((h(a := None)) |` (- set ns))"
    by (rule Cons.IH) (use Cons.prems f in simp_all)
  with h f p have "stack_delete_all fuel p h = Some ((h(a := None)) |` (- set ns))" by (simp del: restrict_fun_upd)
  also have "(h(a := None)) |` (- set ns) = h |` (- set (a # ns))" by (auto simp: restrict_map_def fun_eq_iff)
  finally show ?case .
qed

section \<open>Properties\<close>

text \<open>
  C2: the Treiber stack never touches freed memory. Under any interleaving of \<open>Push\<close> calls of any
  threads and \<open>TryPop\<close> calls of up to \<open>kMaxThreads\<close> threads, including the scans that free retired nodes and the reuse
  of their addresses, no step dereferences a freed node, and a node some thread protects after
  validating it is allocated.
\<close>

theorem treiber_memory_safe:
  assumes "reachable stack_step stack_init s"
  shows "\<not> st_uaf s \<and> (\<forall>p a. st_valid (st_pcs s p) = Some a \<longrightarrow> a \<in> dom (st_heap s))"
proof -
  from treiber.reachable_inv [OF assms] obtain ns where inv: "stack_inv s ns" ..
  have "a \<in> dom (st_heap s)" if "st_valid (st_pcs s p) = Some a" for p a
    using valid_live(1) [OF inv that] stack_inv_live_heap(1) [OF inv] by (simp add: st_protects_def)
  with inv show ?thesis by (auto simp: stack_inv_def)
qed

lemmas stack_eval = stack_step_def stack_Push_def stack_TryPop_def st_goto_def push_cas_def pop_reload_def
  pop_next_def pop_cas_def pop_value_def pop_retire_def hz_Retire_def hp_Set_def hp_Reset_def stack_init_def
  hazards_init_def scan_freq_def kMaxThreads_def kMaxHazardPtrs_def Let_def

text \<open>Thread 0 pushes 7; thread 1 protects the node; thread 0 pops and retires it.\<close>

definition protected_run :: "nat st_ev list" where
  "protected_run =
     [SE_Push 0 7 100, SE_Step 0 False, SE_TryPop 1, SE_Step 1 False, SE_Step 1 False, SE_Step 1 False,
      SE_TryPop 0, SE_Step 0 False, SE_Step 0 False, SE_Step 0 False, SE_Step 0 False, SE_Step 0 False,
      SE_Step 0 False, SE_Step 0 False, SE_Step 0 False]"

lemma protected_run_state:
  "\<exists>s. exec stack_step stack_init protected_run = Some s \<and> st_pcs s 1 = Pop_Next 100 \<and>
     st_log s = [Op_Push 7, Op_Pop 7] \<and> st_pcs s 0 = ST_Idle (Some 7) \<and> hz_retired (st_hz s) 0 = [100]"
  by (simp add: protected_run_def stack_eval)

theorem treiber_memory_safe_witness:
  "\<exists>s :: nat lfstack. reachable stack_step stack_init s \<and> st_valid (st_pcs s 1) = Some 100 \<and>
     hz_retired (st_hz s) 0 = [100] \<and> \<not> st_uaf s \<and> 100 \<in> dom (st_heap s)"
proof -
  obtain s where s: "exec stack_step stack_init protected_run = Some s" "st_pcs s 1 = Pop_Next 100"
    "hz_retired (st_hz s) 0 = [100]"
    using protected_run_state by blast
  from s(1) have r: "reachable stack_step stack_init s" by (rule exec_reachable)
  have v: "st_valid (st_pcs s 1) = Some 100" unfolding s(2) by simp
  from treiber_memory_safe [OF r] r v s(3) show ?thesis by blast
qed

text \<open>
  C1: the Treiber stack is linearizable. The successful exchanges of \<open>top_\<close>, in their order, replay
  as pushes and pops of a sequential stack whose content is the list linked from \<open>top_\<close>, and a
  finished \<open>TryPop\<close> returns the value that its own exchange removed from that stack.
\<close>

theorem treiber_linearizable:
  assumes "reachable stack_step stack_init s"
  shows "(\<exists>ns. st_chain (st_heap s) (st_top s) ns \<and> distinct ns \<and>
            stack_replay (st_log s) [] = Some (map (st_val (st_heap s)) ns)) \<and>
    (\<forall>t v. st_pcs s t = ST_Idle (Some v) \<longrightarrow> st_res s t = Some v)"
proof -
  from treiber.reachable_inv [OF assms] obtain ns where inv: "stack_inv s ns" ..
  have "st_res s t = Some v" if "st_pcs s t = ST_Idle (Some v)" for t v
  proof -
    have "res_ok s t" using inv by (simp add: stack_inv_def)
    with that show ?thesis by (simp add: res_ok_def)
  qed
  with inv show ?thesis by (auto simp: stack_inv_def owned_def)
qed

theorem treiber_linearizable_witness:
  "\<exists>s :: nat lfstack. reachable stack_step stack_init s \<and> st_pcs s 0 = ST_Idle (Some 7) \<and> st_res s 0 = Some 7 \<and>
     (\<exists>ns. stack_replay [Op_Push 7, Op_Pop 7] [] = Some (map (st_val (st_heap s)) ns))"
proof -
  obtain s where s: "exec stack_step stack_init protected_run = Some s"
    "st_log s = [Op_Push 7, Op_Pop 7]" "st_pcs s 0 = ST_Idle (Some 7)"
    using protected_run_state by blast
  from s(1) have r: "reachable stack_step stack_init s" by (rule exec_reachable)
  from treiber_linearizable [OF r, unfolded s(2)] r s(3) show ?thesis by blast
qed

text \<open>
  C38: destroying one stack frees the nodes of another stack that other threads still protect. Whenever
  a thread \<open>t\<close> has protected and validated a node and a thread \<open>u\<close> that is in no call has retired it,
  the node is allocated and is in \<open>t\<close>'s hazard slot; if \<open>u\<close> now runs the destructor of another
  (empty) stack, its \<open>CleanUp\<close> deletes the node although the slot still holds it, and the next step
  of \<open>t\<close>, in its \<open>TryPop\<close>, reads freed memory.
\<close>

theorem stack_cleanup_frees_protected:
  assumes "reachable stack_step stack_init s" "st_pcs s t = Pop_Next a" "st_pcs s u = ST_Idle r"
    "a \<in> set (hz_retired (st_hz s) u)"
  shows "hp_Get t 0 (st_hz s) = Some a \<and> a \<in> dom (st_heap s) \<and>
    (\<exists>s1 s2. stack_step_cleanup (Inr u) s = Some s1 \<and> a \<notin> dom (st_heap s1) \<and> hp_Get t 0 (st_hz s1) = Some a \<and>
       stack_step_cleanup (Inl (SE_Step t spurious)) s1 = Some s2 \<and> st_uaf s2)"
proof -
  from treiber.reachable_inv [OF assms(1)] obtain ns where inv: "stack_inv s ns" ..
  have v: "st_valid (st_pcs s t) = Some a" by (simp add: assms(2))
  have slot: "hp_Get t 0 (st_hz s) = Some a" and heap: "a \<in> dom (st_heap s)" and uaf: "\<not> st_uaf s"
    using valid_live(1) [OF inv v] stack_inv_live_heap(1) [OF inv] inv by (simp_all add: st_protects_def stack_inv_def)
  define s1 where "s1 = stack_destructor_CleanUp u s"
  have s1: "stack_step_cleanup (Inr u) s = Some s1" "st_pcs s1 t = Pop_Next a" "\<not> st_uaf s1" "st_heap s1 a = None"
    "hp_Get t 0 (st_hz s1) = Some a"
    using assms uaf slot
    by (simp_all add: s1_def stack_step_cleanup_def stack_destructor_CleanUp_def hz_CleanUp_def hp_Get_def)
  then have "stack_step_cleanup (Inl (SE_Step t spurious)) s1 = Some (s1\<lparr>st_uaf := True\<rparr>)"
    by (simp add: stack_step_cleanup_def stack_step_def pop_next_def)
  with s1 slot heap show ?thesis by (auto simp: domIff)
qed

theorem stack_cleanup_frees_protected_witness:
  "\<exists>s s1 s2 :: nat lfstack. reachable stack_step stack_init s \<and> st_pcs s 1 = Pop_Next 100 \<and>
     hp_Get 1 0 (st_hz s) = Some 100 \<and> stack_step_cleanup (Inr 0) s = Some s1 \<and> 100 \<notin> dom (st_heap s1) \<and>
     stack_step_cleanup (Inl (SE_Step 1 False)) s1 = Some s2 \<and> st_uaf s2"
proof -
  obtain s where s: "exec stack_step stack_init protected_run = Some s" "st_pcs s 1 = Pop_Next 100"
    "st_pcs s 0 = ST_Idle (Some 7)" "hz_retired (st_hz s) 0 = [100]"
    using protected_run_state by blast
  from s(1) have r: "reachable stack_step stack_init s" by (rule exec_reachable)
  have "100 \<in> set (hz_retired (st_hz s) 0)" by (simp add: s(4))
  from stack_cleanup_frees_protected [OF r s(2,3) this, of False] r s(2) show ?thesis by blast
qed

end
