(* ===== verification/Lock_Free_Queue.thy ===== *)
theory Lock_Free_Queue
  imports Prelude
begin

text \<open>
  \<open>lf/lock_free_queue.hpp\<close>: the queue of Michael and Scott with stamped pointers and a pool of nodes.

  Nodes are never freed while the queue exists: a node that left the queue goes to the pool and is
  used again, so every thread may read a node it has seen. Nodes are numbered in the order of their
  allocation. Every load, store and exchange of a shared pointer and every \<open>fetch_add\<close> is a step of
  its own; a weak exchange may fail spuriously. What a thread does to a node that only it can change
  (initializing it) is one step. Stamps have 16 bits; \<open>lq_wrapped\<close> records that one wrapped around.

  History variables: \<open>lq_pushed\<close> and \<open>lq_popped\<close> are the values in the order in which they were linked
  and removed, \<open>lq_res t\<close> the value whose removal thread \<open>t\<close> committed to in this call, and
  \<open>lq_empty t\<close> says that the queue was empty when the call read \<open>next\<close> of the first node.
\<close>

type_synonym sptr = "nat ptr \<times> nat"

text \<open>What follows \<open>ToPool\<close>: the rest of \<open>TryPop\<close>, from reading the value, or its return.\<close>

datatype 'v lq_cont = Then_Value nat | Then_Return "'v option"

datatype 'v lq_pc =
    LQ_Idle "'v option option"
  | PU_PoolTop 'v
  | PU_PoolNext 'v nat nat
  | PU_PoolCas 'v nat nat "nat ptr"
  | PU_Init 'v nat
  | PU_Tail nat
  | PU_Next nat nat nat
  | PU_Check nat nat nat sptr
  | PU_Link nat nat nat nat
  | PU_Help nat nat nat nat
  | PU_Swing nat nat nat
  | PO_Head
  | PO_Next nat nat
  | PO_Tail nat nat "nat ptr"
  | PO_Check nat nat "nat ptr" sptr
  | PO_Cas nat nat nat
  | PO_Help sptr nat
  | PO_Del1 nat nat
  | PO_Val nat
  | PO_Del2 nat "'v option"
  | TP_Top nat "'v lq_cont"
  | TP_Old nat "'v lq_cont" sptr
  | TP_Store nat "'v lq_cont" sptr nat
  | TP_Cas nat "'v lq_cont" sptr nat

record 'v lfq =
  lq_fresh :: nat
  lq_val :: "nat \<Rightarrow> 'v option"
  lq_next :: "nat \<Rightarrow> sptr"
  lq_del :: "nat \<Rightarrow> nat"
  lq_head :: sptr
  lq_tail :: sptr
  lq_top :: sptr
  lq_pcs :: "nat \<Rightarrow> 'v lq_pc"
  lq_pushed :: "'v list"
  lq_popped :: "'v list"
  lq_res :: "nat \<Rightarrow> 'v option"
  lq_empty :: "nat \<Rightarrow> bool"
  lq_wrapped :: bool
  lq_bad :: bool

text \<open>The constructor: node 0 is the dummy, one increment ahead of being reusable.\<close>

definition LockFreeQueue :: "'v lfq" where
  "LockFreeQueue = \<lparr>lq_fresh = 1, lq_val = (\<lambda>_. None), lq_next = (\<lambda>_. (nullptr, 0)), lq_del = (\<lambda>n. if n = 0 then 1 else 0),
     lq_head = (Some 0, 0), lq_tail = (Some 0, 0), lq_top = (nullptr, 0), lq_pcs = (\<lambda>_. LQ_Idle None),
     lq_pushed = [], lq_popped = [], lq_res = (\<lambda>_. None), lq_empty = (\<lambda>_. False), lq_wrapped = False, lq_bad = False\<rparr>"

abbreviation lq_goto :: "nat \<Rightarrow> 'v lq_pc \<Rightarrow> 'v lfq \<Rightarrow> 'v lfq" where
  "lq_goto t p s \<equiv> s\<lparr>lq_pcs := (lq_pcs s)(t := p)\<rparr>"

text \<open>Storing \<open>StampedPtr(p, k + 1)\<close>.\<close>

definition inc_stamp :: "nat \<Rightarrow> nat" where
  "inc_stamp k = (k + 1) mod 2 ^ 16"

definition lq_stamp :: "nat \<Rightarrow> 'v lfq \<Rightarrow> 'v lfq" where
  "lq_stamp k s = s\<lparr>lq_wrapped := (lq_wrapped s \<or> k + 1 \<ge> 2 ^ 16)\<rparr>"

definition set_head :: "nat ptr \<Rightarrow> nat \<Rightarrow> 'v lfq \<Rightarrow> 'v lfq" where
  "set_head p k s = (lq_stamp k s)\<lparr>lq_head := (p, inc_stamp k)\<rparr>"

definition set_tail :: "nat ptr \<Rightarrow> nat \<Rightarrow> 'v lfq \<Rightarrow> 'v lfq" where
  "set_tail p k s = (lq_stamp k s)\<lparr>lq_tail := (p, inc_stamp k)\<rparr>"

definition set_top :: "nat ptr \<Rightarrow> nat \<Rightarrow> 'v lfq \<Rightarrow> 'v lfq" where
  "set_top p k s = (lq_stamp k s)\<lparr>lq_top := (p, inc_stamp k)\<rparr>"

definition set_next :: "nat \<Rightarrow> nat ptr \<Rightarrow> nat \<Rightarrow> 'v lfq \<Rightarrow> 'v lfq" where
  "set_next n p k s = (lq_stamp k s)\<lparr>lq_next := (lq_next s)(n := (p, inc_stamp k))\<rparr>"

section \<open>Node\<close>

text \<open>\<open>new Node(value)\<close>.\<close>

definition new_node :: "'v \<Rightarrow> 'v lfq \<Rightarrow> nat \<times> 'v lfq" where
  "new_node v s =
     (lq_fresh s, s\<lparr>lq_fresh := Suc (lq_fresh s), lq_val := (lq_val s)(lq_fresh s \<mapsto> v),
        lq_next := (lq_next s)(lq_fresh s := (nullptr, 0)), lq_del := (lq_del s)(lq_fresh s := 0)\<rparr>)"

text \<open>A pooled node gets its value and a null \<open>next\<close>.\<close>

definition reuse_node :: "'v \<Rightarrow> nat \<Rightarrow> 'v lfq \<Rightarrow> 'v lfq" where
  "reuse_node v n s = set_next n nullptr (snd (lq_next s n)) (s\<lparr>lq_val := (lq_val s)(n \<mapsto> v)\<rparr>)"

section \<open>LockFreePool\<close>

definition pool_load :: "nat \<Rightarrow> 'v \<Rightarrow> 'v lfq \<Rightarrow> 'v lfq" where
  "pool_load t v s =
     (case lq_top s of
        (None, _) \<Rightarrow> (case new_node v s of (n, s') \<Rightarrow> lq_goto t (PU_Tail n) s')
      | (Some n, k) \<Rightarrow> lq_goto t (PU_PoolNext v n k) s)"

definition pool_cas :: "nat \<Rightarrow> 'v \<Rightarrow> nat \<Rightarrow> nat \<Rightarrow> nat ptr \<Rightarrow> bool \<Rightarrow> 'v lfq \<Rightarrow> 'v lfq" where
  "pool_cas t v n k nxt spurious s =
     (if lq_top s = (Some n, k) \<and> \<not> spurious
      then lq_goto t (PU_Init v n) (set_top nxt k s)
      else lq_goto t (PU_PoolTop v) s)"

fun after_pool :: "'v lq_cont \<Rightarrow> 'v lq_pc" where
  "after_pool (Then_Value n) = PO_Val n"
| "after_pool (Then_Return v) = LQ_Idle (Some v)"

definition pool_push_cas :: "nat \<Rightarrow> nat \<Rightarrow> 'v lq_cont \<Rightarrow> sptr \<Rightarrow> nat \<Rightarrow> bool \<Rightarrow> 'v lfq \<Rightarrow> 'v lfq" where
  "pool_push_cas t n c old_top k spurious s =
     (if lq_top s = old_top \<and> \<not> spurious
      then lq_goto t (after_pool c) (set_top (Some n) (snd old_top) s)
      else lq_goto t (TP_Store n c (lq_top s) k) s)"

section \<open>LockFreeQueue::Push\<close>

definition push_load_tail :: "nat \<Rightarrow> nat \<Rightarrow> 'v lfq \<Rightarrow> 'v lfq" where
  "push_load_tail t n s =
     (case lq_tail s of
        (None, _) \<Rightarrow> s\<lparr>lq_bad := True\<rparr>
      | (Some a, k) \<Rightarrow> lq_goto t (PU_Next n a k) s)"

definition push_check :: "nat \<Rightarrow> nat \<Rightarrow> nat \<Rightarrow> nat \<Rightarrow> sptr \<Rightarrow> 'v lfq \<Rightarrow> 'v lfq" where
  "push_check t n a k nxt s =
     (if lq_tail s \<noteq> (Some a, k) then lq_goto t (PU_Tail n) s
      else case nxt of
        (None, j) \<Rightarrow> lq_goto t (PU_Link n a k j) s
      | (Some m, _) \<Rightarrow> lq_goto t (PU_Help n a k m) s)"

definition push_link :: "nat \<Rightarrow> nat \<Rightarrow> nat \<Rightarrow> nat \<Rightarrow> nat \<Rightarrow> bool \<Rightarrow> 'v lfq \<Rightarrow> 'v lfq" where
  "push_link t n a k j spurious s =
     (if lq_next s a = (nullptr, j) \<and> \<not> spurious
      then lq_goto t (PU_Swing n a k)
        ((set_next a (Some n) j s)\<lparr>lq_pushed := lq_pushed s @ (case lq_val s n of None \<Rightarrow> [] | Some v \<Rightarrow> [v])\<rparr>)
      else lq_goto t (PU_Tail n) s)"

text \<open>An exchange of \<open>tail_\<close> whose result does not matter.\<close>

definition advance_tail :: "sptr \<Rightarrow> nat \<Rightarrow> bool \<Rightarrow> 'v lfq \<Rightarrow> 'v lfq" where
  "advance_tail old n spurious s =
     (if lq_tail s = old \<and> \<not> spurious then set_tail (Some n) (snd old) s else s)"

section \<open>LockFreeQueue::TryPop\<close>

definition pop_load_head :: "nat \<Rightarrow> 'v lfq \<Rightarrow> 'v lfq" where
  "pop_load_head t s =
     (case lq_head s of
        (None, _) \<Rightarrow> s\<lparr>lq_bad := True\<rparr>
      | (Some h, k) \<Rightarrow> lq_goto t (PO_Next h k) s)"

definition pop_check :: "nat \<Rightarrow> nat \<Rightarrow> nat \<Rightarrow> nat ptr \<Rightarrow> sptr \<Rightarrow> 'v lfq \<Rightarrow> 'v lfq" where
  "pop_check t h k nxt tail_old s =
     (if lq_head s \<noteq> (Some h, k) then lq_goto t PO_Head s
      else case nxt of
        None \<Rightarrow> lq_goto t (if fst tail_old \<noteq> Some h then PO_Head else LQ_Idle (Some None)) s
      | Some n \<Rightarrow> lq_goto t (if fst tail_old \<noteq> Some h then PO_Cas h k n else PO_Help tail_old n) s)"

definition pop_cas_head :: "nat \<Rightarrow> nat \<Rightarrow> nat \<Rightarrow> nat \<Rightarrow> bool \<Rightarrow> 'v lfq \<Rightarrow> 'v lfq" where
  "pop_cas_head t h k n spurious s =
     (if lq_head s = (Some h, k) \<and> \<not> spurious
      then lq_goto t (PO_Del1 h n)
        ((set_head (Some n) k s)\<lparr>lq_popped := lq_popped s @ (case lq_val s n of None \<Rightarrow> [] | Some v \<Rightarrow> [v]),
           lq_res := (lq_res s)(t := lq_val s n)\<rparr>)
      else lq_goto t PO_Head s)"

text \<open>\<open>try_del_count.fetch_add(1) % 2 == 1\<close>: the second of the two who are done with a node pools it.\<close>

definition try_del :: "nat \<Rightarrow> nat \<Rightarrow> 'v lq_cont \<Rightarrow> 'v lfq \<Rightarrow> 'v lfq" where
  "try_del t n c s =
     lq_goto t (if lq_del s n mod 2 = 1 then TP_Top n c else after_pool c) (s\<lparr>lq_del := (lq_del s)(n := lq_del s n + 1)\<rparr>)"

section \<open>The machine\<close>

fun lq_act :: "nat \<Rightarrow> bool \<Rightarrow> 'v lq_pc \<Rightarrow> 'v lfq \<Rightarrow> 'v lfq option" where
  "lq_act t spurious (LQ_Idle r) s = None"
| "lq_act t spurious (PU_PoolTop v) s = Some (pool_load t v s)"
| "lq_act t spurious (PU_PoolNext v n k) s = Some (lq_goto t (PU_PoolCas v n k (fst (lq_next s n))) s)"
| "lq_act t spurious (PU_PoolCas v n k nxt) s = Some (pool_cas t v n k nxt spurious s)"
| "lq_act t spurious (PU_Init v n) s = Some (lq_goto t (PU_Tail n) (reuse_node v n s))"
| "lq_act t spurious (PU_Tail n) s = Some (push_load_tail t n s)"
| "lq_act t spurious (PU_Next n a k) s = Some (lq_goto t (PU_Check n a k (lq_next s a)) s)"
| "lq_act t spurious (PU_Check n a k nxt) s = Some (push_check t n a k nxt s)"
| "lq_act t spurious (PU_Link n a k j) s = Some (push_link t n a k j spurious s)"
| "lq_act t spurious (PU_Help n a k m) s = Some (lq_goto t (PU_Tail n) (advance_tail (Some a, k) m spurious s))"
| "lq_act t spurious (PU_Swing n a k) s = Some (lq_goto t (LQ_Idle None) (advance_tail (Some a, k) n spurious s))"
| "lq_act t spurious PO_Head s = Some (pop_load_head t s)"
| "lq_act t spurious (PO_Next h k) s =
     Some (lq_goto t (PO_Tail h k (fst (lq_next s h)))
       (s\<lparr>lq_empty := (lq_empty s)(t := (lq_pushed s = lq_popped s))\<rparr>))"
| "lq_act t spurious (PO_Tail h k nxt) s = Some (lq_goto t (PO_Check h k nxt (lq_tail s)) s)"
| "lq_act t spurious (PO_Check h k nxt tail_old) s = Some (pop_check t h k nxt tail_old s)"
| "lq_act t spurious (PO_Cas h k n) s = Some (pop_cas_head t h k n spurious s)"
| "lq_act t spurious (PO_Help tail_old n) s = Some (lq_goto t PO_Head (advance_tail tail_old n spurious s))"
| "lq_act t spurious (PO_Del1 h n) s = Some (try_del t h (Then_Value n) s)"
| "lq_act t spurious (PO_Val n) s = Some (lq_goto t (PO_Del2 n (lq_val s n)) s)"
| "lq_act t spurious (PO_Del2 n v) s = Some (try_del t n (Then_Return v) s)"
| "lq_act t spurious (TP_Top n c) s = Some (lq_goto t (TP_Old n c (lq_top s)) s)"
| "lq_act t spurious (TP_Old n c old_top) s = Some (lq_goto t (TP_Store n c old_top (snd (lq_next s n))) s)"
| "lq_act t spurious (TP_Store n c old_top k) s = Some (lq_goto t (TP_Cas n c old_top k) (set_next n (fst old_top) k s))"
| "lq_act t spurious (TP_Cas n c old_top k) s = Some (pool_push_cas t n c old_top k spurious s)"

datatype 'v lq_event = LQ_Push nat 'v | LQ_TryPop nat | LQ_Step nat bool

fun lq_step :: "'v lq_event \<Rightarrow> 'v lfq \<Rightarrow> 'v lfq option" where
  "lq_step (LQ_Push t v) s =
     (case lq_pcs s t of LQ_Idle _ \<Rightarrow> Some (lq_goto t (PU_PoolTop v) s) | _ \<Rightarrow> None)"
| "lq_step (LQ_TryPop t) s =
     (case lq_pcs s t of
        LQ_Idle _ \<Rightarrow> Some (lq_goto t PO_Head (s\<lparr>lq_res := (lq_res s)(t := None), lq_empty := (lq_empty s)(t := False)\<rparr>))
      | _ \<Rightarrow> None)"
| "lq_step (LQ_Step t spurious) s = lq_act t spurious (lq_pcs s t) s"

section \<open>The destructors\<close>

text \<open>
  Both destructors walk a list and delete its nodes, reading \<open>next\<close> before the delete. \<open>freed\<close> are the
  nodes deleted so far; \<open>Inl n\<close> is the result when node \<open>n\<close> is used after its delete, None that of a
  walk that does not end. The pool is a member of the queue, destroyed after the body of \<open>~LockFreeQueue\<close>.
\<close>

partial_function (option) delete_nodes ::
    "(nat \<Rightarrow> sptr) \<Rightarrow> nat ptr \<Rightarrow> nat list \<Rightarrow> (nat + nat list) option" where
  [code]: "delete_nodes nx cur freed =
     (case cur of
        None \<Rightarrow> Some (Inr freed)
      | Some n \<Rightarrow> if n \<in> set freed then Some (Inl n) else delete_nodes nx (fst (nx n)) (freed @ [n]))"

definition LockFreePool_destroy :: "'v lfq \<Rightarrow> nat list \<Rightarrow> (nat + nat list) option" where
  "LockFreePool_destroy s freed = delete_nodes (lq_next s) (fst (lq_top s)) freed"

definition LockFreeQueue_destroy :: "'v lfq \<Rightarrow> (nat + nat list) option" where
  "LockFreeQueue_destroy s =
     (case delete_nodes (lq_next s) (fst (lq_head s)) [] of
        Some (Inr freed) \<Rightarrow> LockFreePool_destroy s freed
      | r \<Rightarrow> r)"

end
