(* ===== verification/Places.thy ===== *)
theory Places
  imports Prelude
begin

text \<open>
  Where things are: in a runtime every fiber or coroutine is in exactly one of several lists (run
  queues, waiter lists, stacks of threads). \<open>places A\<close> says so for the lists \<open>A l\<close>, and the
  lemmas say how one thing moves from one list to another. The same predicate says that a lock is
  held by one thread only. \<open>queue_ok\<close> and \<open>set_ok\<close> are the view with an explicit location map.
\<close>

section \<open>Lists without common elements\<close>

definition places :: "('l \<Rightarrow> 'a list) \<Rightarrow> bool" where
  "places A \<longleftrightarrow> (\<forall>l. distinct (A l)) \<and> (\<forall>x l l'. x \<in> set (A l) \<and> x \<in> set (A l') \<longrightarrow> l = l')"

definition placed :: "('l \<Rightarrow> 'a list) \<Rightarrow> 'a set" where
  "placed A = {x. \<exists>l. x \<in> set (A l)}"

lemma places_unique: "places A \<Longrightarrow> x \<in> set (A l) \<Longrightarrow> x \<in> set (A l') \<Longrightarrow> l = l'"
  unfolding places_def by blast

lemma places_distinct: "places A \<Longrightarrow> distinct (A l)"
  unfolding places_def by blast

lemma places_empty: "places (\<lambda>l. [])" "placed (\<lambda>l. []) = {}"
  by (simp_all add: places_def placed_def)

lemma placed_upd: "placed (A(l := xs)) = {x. \<exists>k. k \<noteq> l \<and> x \<in> set (A k)} \<union> set xs"
  by (auto simp: placed_def)

lemma placedI: "x \<in> set (A l) \<Longrightarrow> x \<in> placed A"
  unfolding placed_def by blast

text \<open>Something new, something that goes away, and a move.\<close>

lemma placesI:
  assumes "\<And>l. distinct (A l)" "\<And>x l l'. x \<in> set (A l) \<Longrightarrow> x \<in> set (A l') \<Longrightarrow> l = l'"
  shows "places A"
  using assms unfolding places_def by blast

lemma places_add:
  assumes p: "places A" and x: "x \<notin> placed A" and l: "A l = us @ vs"
  shows "places (A(l := us @ x # vs))" "placed (A(l := us @ x # vs)) = insert x (placed A)"
proof -
  let ?B = "A(l := us @ x # vs)"
  have n: "x \<notin> set (A k)" for k
    using x unfolding placed_def by blast
  have s: "set (?B k) = (if k = l then insert x (set (A k)) else set (A k))" for k
    using l by simp
  show "places ?B"
  proof (rule placesI)
    show "distinct (?B k)" for k
      using places_distinct [OF p, of k] n [of l] l by auto
    show "k = k'" if "y \<in> set (?B k)" "y \<in> set (?B k')" for y k k'
      using that n places_unique [OF p, of y k k'] unfolding s by (auto split: if_splits)
  qed
  show "placed ?B = insert x (placed A)"
    unfolding placed_def s by auto
qed

lemma places_drop:
  assumes p: "places A" and l: "A l = us @ x # vs"
  shows "places (A(l := us @ vs))" "placed (A(l := us @ vs)) = placed A - {x}"
proof -
  let ?B = "A(l := us @ vs)"
  have d: "distinct (us @ x # vs)"
    using places_distinct [OF p, of l] l by simp
  have x: "k = l" if "x \<in> set (A k)" for k
    using l that by (intro places_unique [OF p, of x]) simp_all
  have s: "set (?B k) = set (A k) - {x}" for k
  proof (cases "k = l")
    case True
    then show ?thesis using l d by auto
  next
    case False
    then show ?thesis using x [of k] by auto
  qed
  show "places ?B"
  proof (rule placesI)
    show "distinct (?B k)" for k
      using places_distinct [OF p, of k] d by auto
    show "k = k'" if "y \<in> set (?B k)" "y \<in> set (?B k')" for y k k'
      using that places_unique [OF p, of y k k'] unfolding s by blast
  qed
  show "placed ?B = placed A - {x}"
    unfolding placed_def s by auto
qed

lemma places_move:
  assumes "places A" "A l = us @ x # vs" "(A(l := us @ vs)) k = ws @ zs"
  shows "places (A(l := us @ vs, k := ws @ x # zs))" "placed (A(l := us @ vs, k := ws @ x # zs)) = placed A"
proof -
  note d = places_drop [OF assms(1,2)]
  have "x \<in> placed A"
    using assms(2) by (intro placedI [of x A l]) simp
  moreover have "x \<notin> placed (A(l := us @ vs))"
    unfolding d(2) by blast
  note a = places_add [OF d(1) this assms(3)]
  ultimately show "placed (A(l := us @ vs, k := ws @ x # zs)) = placed A"
    unfolding a(2) d(2) by blast
  show "places (A(l := us @ vs, k := ws @ x # zs))"
    by (rule a(1))
qed

text \<open>The common instances: from the front of a list to the front or the back of another.\<close>

lemma places_cons: "places A \<Longrightarrow> x \<notin> placed A \<Longrightarrow> places (A(l := x # A l))"
  "places A \<Longrightarrow> x \<notin> placed A \<Longrightarrow> placed (A(l := x # A l)) = insert x (placed A)"
  using places_add [of A x l "[]" "A l"] by simp_all

lemma places_tl: "places A \<Longrightarrow> A l = x # xs \<Longrightarrow> places (A(l := xs))"
  "places A \<Longrightarrow> A l = x # xs \<Longrightarrow> placed (A(l := xs)) = placed A - {x}"
  using places_drop [of A l "[]" x xs] by simp_all

lemma places_push:
  assumes "places A" "A l = x # xs" "l \<noteq> k"
  shows "places (A(l := xs, k := x # A k))" "placed (A(l := xs, k := x # A k)) = placed A"
    "places (A(l := xs, k := A k @ [x]))" "placed (A(l := xs, k := A k @ [x])) = placed A"
  using places_move [of A l "[]" x xs k "[]" "A k"] places_move [of A l "[]" x xs k "A k" "[]"] assms by simp_all

text \<open>The lists together hold exactly the things with the property \<open>P\<close>.\<close>

definition tracks :: "('l \<Rightarrow> 'a list) \<Rightarrow> ('a \<Rightarrow> bool) \<Rightarrow> bool" where
  "tracks A P \<longleftrightarrow> places A \<and> (\<forall>x. x \<in> placed A \<longleftrightarrow> P x)"

lemma tracks_empty: "tracks (\<lambda>l. []) (\<lambda>x. False)"
  by (simp add: tracks_def places_empty)

lemma tracks_take: "tracks A P \<Longrightarrow> \<not> P x \<Longrightarrow> tracks (A(l := x # A l)) (P(x := True))"
  using places_cons [of A x l] by (auto simp: tracks_def)

lemma tracks_drop: "tracks A P \<Longrightarrow> A l = x # xs \<Longrightarrow> tracks (A(l := xs)) (P(x := False))"
  using places_tl [of A l x xs] by (auto simp: tracks_def)

lemma tracks_move: "tracks A P \<Longrightarrow> A l = us @ x # vs \<Longrightarrow> (A(l := us @ vs)) k = ws @ zs \<Longrightarrow> tracks (A(l := us @ vs, k := ws @ x # zs)) P"
  using places_move [of A l us x vs k ws zs] by (simp add: tracks_def)

lemma tracks_in: "tracks A P \<Longrightarrow> x \<in> set (A l) \<Longrightarrow> P x"
  unfolding tracks_def placed_def by blast

lemma tracks_ex: "tracks A P \<Longrightarrow> P x \<Longrightarrow> \<exists>l. x \<in> set (A l)"
  unfolding tracks_def placed_def by blast

section \<open>Location maps\<close>

definition queue_ok :: "'a list \<Rightarrow> 'l \<Rightarrow> ('a \<rightharpoonup> 'l) \<Rightarrow> bool" where
  "queue_ok xs l loc = (distinct xs \<and> (\<forall>f. f \<in> set xs \<longleftrightarrow> loc f = Some l))"

definition set_ok :: "'a set \<Rightarrow> 'l \<Rightarrow> ('a \<rightharpoonup> 'l) \<Rightarrow> bool" where
  "set_ok X l loc = (\<forall>f. f \<in> X \<longleftrightarrow> loc f = Some l)"

text \<open>How the lists change when something moves.\<close>

lemma queue_move_other: "queue_ok xs l loc \<Longrightarrow> loc f \<noteq> Some l \<Longrightarrow> l' \<noteq> Some l \<Longrightarrow> queue_ok xs l (loc(f := l'))"
  by (auto simp: queue_ok_def)

lemma queue_push: "queue_ok xs l loc \<Longrightarrow> loc f \<noteq> Some l \<Longrightarrow> queue_ok (xs @ [f]) l (loc(f \<mapsto> l))"
  by (auto simp: queue_ok_def)

lemma queue_pop: "queue_ok (f # xs) l loc \<Longrightarrow> l' \<noteq> Some l \<Longrightarrow> queue_ok xs l (loc(f := l'))"
  by (auto simp: queue_ok_def)

lemma queue_take:
  assumes "queue_ok q l loc" "i < length q" "l' \<noteq> Some l"
  shows "queue_ok (take i q @ drop (Suc i) q) l (loc(q ! i := l'))"
proof -
  from id_take_nth_drop [OF assms(2)] assms(1) have "queue_ok (take i q @ q ! i # drop (Suc i) q) l loc" by simp
  with assms(3) show ?thesis by (auto simp: queue_ok_def)
qed

lemma set_move_other: "set_ok X l loc \<Longrightarrow> loc f \<noteq> Some l \<Longrightarrow> l' \<noteq> Some l \<Longrightarrow> set_ok X l (loc(f := l'))"
  by (auto simp: set_ok_def)

lemma set_insert: "set_ok X l loc \<Longrightarrow> set_ok (insert f X) l (loc(f \<mapsto> l))"
  by (auto simp: set_ok_def)

lemma set_remove: "set_ok X l loc \<Longrightarrow> l' \<noteq> Some l \<Longrightarrow> set_ok (X - {f}) l (loc(f := l'))"
  by (auto simp: set_ok_def)

lemmas place_moves = queue_move_other queue_push queue_pop queue_take set_move_other set_insert set_remove

end
