(* ===== verification/Lock_Free_Queue_Safety.thy ===== *)
theory Lock_Free_Queue_Safety
  imports Lock_Free_Queue Places
begin

text \<open>
  The lock-free queue is linearizable and keeps its nodes in order, as long as no stamp wraps around:
  the invariant has a global part about the nodes and a local assertion for every program point,
  which survives the steps of other threads.
\<close>

section \<open>Views of the program points\<close>

text \<open>The node a thread owns, and the nodes on which it still has to do one of the two increments.\<close>

fun lq_owned :: "'v lq_pc \<Rightarrow> nat list" where
  "lq_owned (PU_Init v n) = [n]"
| "lq_owned (PU_Tail n) = [n]"
| "lq_owned (PU_Next n a k) = [n]"
| "lq_owned (PU_Check n a k nxt) = [n]"
| "lq_owned (PU_Link n a k j) = [n]"
| "lq_owned (PU_Help n a k m) = [n]"
| "lq_owned (TP_Top n c) = [n]"
| "lq_owned (TP_Old n c T) = [n]"
| "lq_owned (TP_Store n c T k) = [n]"
| "lq_owned (TP_Cas n c T k) = [n]"
| "lq_owned _ = []"

fun lq_del1 :: "'v lq_pc \<Rightarrow> nat list" where
  "lq_del1 (PO_Del1 h n) = [h]"
| "lq_del1 _ = []"

fun cont_del2 :: "'v lq_cont \<Rightarrow> nat list" where
  "cont_del2 (Then_Value n) = [n]"
| "cont_del2 (Then_Return v) = []"

fun lq_del2 :: "'v lq_pc \<Rightarrow> nat list" where
  "lq_del2 (PO_Del1 h n) = [n]"
| "lq_del2 (PO_Val n) = [n]"
| "lq_del2 (PO_Del2 n v) = [n]"
| "lq_del2 (TP_Top n c) = cont_del2 c"
| "lq_del2 (TP_Old n c T) = cont_del2 c"
| "lq_del2 (TP_Store n c T k) = cont_del2 c"
| "lq_del2 (TP_Cas n c T k) = cont_del2 c"
| "lq_del2 _ = []"

definition D1 :: "'v lfq \<Rightarrow> nat \<Rightarrow> nat list" where
  "D1 s = (\<lambda>t. lq_del1 (lq_pcs s t))"

definition D2 :: "'v lfq \<Rightarrow> nat \<Rightarrow> nat list" where
  "D2 s = (\<lambda>t. lq_del2 (lq_pcs s t))"

datatype qloc = QL_Queue | QL_Pool | QL_Retired | QL_Thread nat

fun nodes_at :: "'v lfq \<Rightarrow> nat list \<Rightarrow> nat list \<Rightarrow> nat list \<Rightarrow> qloc \<Rightarrow> nat list" where
  "nodes_at s Q P R QL_Queue = Q"
| "nodes_at s Q P R QL_Pool = P"
| "nodes_at s Q P R QL_Retired = R"
| "nodes_at s Q P R (QL_Thread t) = lq_owned (lq_pcs s t)"

fun lq_chain :: "(nat \<Rightarrow> sptr) \<Rightarrow> nat ptr \<Rightarrow> nat list \<Rightarrow> bool" where
  "lq_chain nx p [] = (p = nullptr)"
| "lq_chain nx p (n # ns) = (p = Some n \<and> lq_chain nx (fst (nx n)) ns)"

section \<open>The invariant\<close>

text \<open>
  \<open>Q\<close> is the queue from its dummy on, \<open>P\<close> the pool, and \<open>R\<close> the nodes that left the queue and still
  await an increment.
\<close>

definition lq_nodes :: "'v lfq \<Rightarrow> nat list \<Rightarrow> nat list \<Rightarrow> nat list \<Rightarrow> bool" where
  "lq_nodes s Q P R \<longleftrightarrow> tracks (nodes_at s Q P R) (\<lambda>n. n < lq_fresh s)"

definition lq_links :: "'v lfq \<Rightarrow> nat list \<Rightarrow> nat list \<Rightarrow> bool" where
  "lq_links s Q P \<longleftrightarrow> Q \<noteq> [] \<and> lq_chain (lq_next s) (fst (lq_head s)) Q \<and> lq_chain (lq_next s) (fst (lq_top s)) P \<and>
     (\<exists>a \<in> set Q. fst (lq_tail s) = Some a)"

definition lq_vals :: "'v lfq \<Rightarrow> nat list \<Rightarrow> bool" where
  "lq_vals s Q \<longleftrightarrow> (\<forall>n \<in> set (tl Q). lq_val s n \<noteq> None) \<and> lq_pushed s = lq_popped s @ map (\<lambda>n. the (lq_val s n)) (tl Q)"

definition lq_counts :: "'v lfq \<Rightarrow> nat list \<Rightarrow> nat list \<Rightarrow> nat list \<Rightarrow> bool" where
  "lq_counts s Q P R \<longleftrightarrow>
     places (D1 s) \<and> places (D2 s) \<and> placed (D1 s) \<subseteq> set R \<and> placed (D2 s) \<subseteq> insert (hd Q) (set R) \<and>
     (\<forall>n \<in> set (tl Q). even (lq_del s n)) \<and> (odd (lq_del s (hd Q)) \<longleftrightarrow> hd Q \<notin> placed (D2 s)) \<and>
     (\<forall>n \<in> set R. (n \<in> placed (D1 s) \<or> n \<in> placed (D2 s)) \<and>
        (odd (lq_del s n) \<longleftrightarrow> \<not> (n \<in> placed (D1 s) \<and> n \<in> placed (D2 s)))) \<and>
     (\<forall>n \<in> set P. even (lq_del s n)) \<and> (\<forall>t. \<forall>n \<in> set (lq_owned (lq_pcs s t)). even (lq_del s n))"

text \<open>
  A thread has seen \<open>next\<close> of node \<open>a\<close> as \<open>(null, j)\<close> while \<open>a\<close> was in the queue: either it still is,
  or the stamp has moved on.
\<close>

definition seen_null :: "'v lfq \<Rightarrow> nat list \<Rightarrow> nat \<Rightarrow> nat \<Rightarrow> bool" where
  "seen_null s Q a j \<longleftrightarrow> a < lq_fresh s \<and> (j < snd (lq_next s a) \<or> lq_next s a = (nullptr, j) \<and> a \<in> set Q)"

definition node_ready :: "'v lfq \<Rightarrow> nat \<Rightarrow> bool" where
  "node_ready s n \<longleftrightarrow> fst (lq_next s n) = nullptr \<and> lq_val s n \<noteq> None"

fun cont_ok :: "'v lfq \<Rightarrow> nat \<Rightarrow> 'v lq_cont \<Rightarrow> bool" where
  "cont_ok s t (Then_Value n) = (lq_res s t \<noteq> None \<and> lq_val s n = lq_res s t)"
| "cont_ok s t (Then_Return v) = (lq_res s t \<noteq> None \<and> v = lq_res s t)"

fun lq_local :: "'v lfq \<Rightarrow> nat list \<Rightarrow> nat \<Rightarrow> 'v lq_pc \<Rightarrow> bool" where
  "lq_local s Q t (LQ_Idle r) =
     (case r of None \<Rightarrow> True | Some None \<Rightarrow> lq_empty s t | Some (Some v) \<Rightarrow> lq_res s t = Some v)"
| "lq_local s Q t (PU_PoolTop v) = True"
| "lq_local s Q t (PU_PoolNext v n k) = (k \<le> snd (lq_top s))"
| "lq_local s Q t (PU_PoolCas v n k nxt) =
     (k \<le> snd (lq_top s) \<and> (lq_top s = (Some n, k) \<longrightarrow> fst (lq_next s n) = nxt))"
| "lq_local s Q t (PU_Init v n) = True"
| "lq_local s Q t (PU_Tail n) = node_ready s n"
| "lq_local s Q t (PU_Next n a k) = (node_ready s n \<and> k \<le> snd (lq_tail s))"
| "lq_local s Q t (PU_Check n a k nxt) =
     (node_ready s n \<and> k \<le> snd (lq_tail s) \<and>
      (lq_tail s = (Some a, k) \<longrightarrow>
        (case fst nxt of None \<Rightarrow> seen_null s Q a (snd nxt) | Some m \<Rightarrow> fst (lq_next s a) = Some m)))"
| "lq_local s Q t (PU_Link n a k j) = (node_ready s n \<and> k \<le> snd (lq_tail s) \<and> seen_null s Q a j)"
| "lq_local s Q t (PU_Help n a k m) =
     (node_ready s n \<and> k \<le> snd (lq_tail s) \<and> (lq_tail s = (Some a, k) \<longrightarrow> fst (lq_next s a) = Some m))"
| "lq_local s Q t (PU_Swing n a k) =
     (k \<le> snd (lq_tail s) \<and> (lq_tail s = (Some a, k) \<longrightarrow> fst (lq_next s a) = Some n))"
| "lq_local s Q t PO_Head = True"
| "lq_local s Q t (PO_Next h k) = (k \<le> snd (lq_head s))"
| "lq_local s Q t (PO_Tail h k nxt) =
     (k \<le> snd (lq_head s) \<and>
      (lq_head s = (Some h, k) \<longrightarrow>
        (case nxt of None \<Rightarrow> lq_empty s t | Some m \<Rightarrow> fst (lq_next s h) = Some m)))"
| "lq_local s Q t (PO_Check h k nxt T) =
     (k \<le> snd (lq_head s) \<and> snd T \<le> snd (lq_tail s) \<and>
      (lq_head s = (Some h, k) \<longrightarrow>
        (case nxt of None \<Rightarrow> lq_empty s t | Some m \<Rightarrow> fst (lq_next s h) = Some m) \<and>
        (fst T \<noteq> Some h \<longrightarrow> fst (lq_tail s) \<noteq> Some h)))"
| "lq_local s Q t (PO_Cas h k n) =
     (k \<le> snd (lq_head s) \<and> (lq_head s = (Some h, k) \<longrightarrow> fst (lq_next s h) = Some n \<and> fst (lq_tail s) \<noteq> Some h))"
| "lq_local s Q t (PO_Help T n) =
     (snd T \<le> snd (lq_tail s) \<and> (lq_tail s = T \<longrightarrow> (\<exists>a. fst T = Some a \<and> fst (lq_next s a) = Some n)))"
| "lq_local s Q t (PO_Del1 h n) = cont_ok s t (Then_Value n)"
| "lq_local s Q t (PO_Val n) = cont_ok s t (Then_Value n)"
| "lq_local s Q t (PO_Del2 n v) = cont_ok s t (Then_Return v)"
| "lq_local s Q t (TP_Top n c) = cont_ok s t c"
| "lq_local s Q t (TP_Old n c T) = cont_ok s t c"
| "lq_local s Q t (TP_Store n c T k) = (cont_ok s t c \<and> k \<le> snd (lq_next s n) \<and> snd (lq_next s n) \<le> Suc k)"
| "lq_local s Q t (TP_Cas n c T k) = (cont_ok s t c \<and> lq_next s n = (fst T, Suc k))"

definition lq_ok :: "'v lfq \<Rightarrow> nat list \<Rightarrow> nat list \<Rightarrow> nat list \<Rightarrow> bool" where
  "lq_ok s Q P R \<longleftrightarrow>
     lq_nodes s Q P R \<and> lq_links s Q P \<and> lq_vals s Q \<and> lq_counts s Q P R \<and> (\<forall>t. lq_local s Q t (lq_pcs s t)) \<and> \<not> lq_bad s"

definition lq_safe :: "'v lfq \<Rightarrow> bool" where
  "lq_safe s \<longleftrightarrow> (\<exists>Q P R. lq_ok s Q P R)"

lemma lq_safeI: "lq_ok s Q P R \<Longrightarrow> lq_safe s"
  unfolding lq_safe_def by blast

definition lq_inv :: "'v lfq \<Rightarrow> bool" where
  "lq_inv s \<longleftrightarrow> lq_wrapped s \<or> lq_safe s"

section \<open>Stability\<close>

text \<open>
  What a step of one thread may do to the state, as seen by the others; \<open>N\<close> are the nodes the
  thread owned or allocated.
\<close>

definition lq_rely :: "nat set \<Rightarrow> 'v lfq \<Rightarrow> nat list \<Rightarrow> 'v lfq \<Rightarrow> nat list \<Rightarrow> bool" where
  "lq_rely N s Q s' Q' \<longleftrightarrow>
     lq_fresh s \<le> lq_fresh s' \<and>
     (lq_head s' = lq_head s \<or> snd (lq_head s) < snd (lq_head s')) \<and>
     (lq_tail s' = lq_tail s \<or> snd (lq_tail s) < snd (lq_tail s')) \<and>
     (lq_top s' = lq_top s \<or> snd (lq_top s) < snd (lq_top s')) \<and>
     (lq_head s' = lq_head s \<and> fst (lq_tail s') = fst (lq_head s') \<longrightarrow> fst (lq_tail s) = fst (lq_head s)) \<and>
     (\<forall>n \<in> set Q. \<forall>m. fst (lq_next s n) = Some m \<longrightarrow> fst (lq_next s' n) = Some m) \<and>
     (\<forall>a j. seen_null s Q a j \<longrightarrow> seen_null s' Q' a j) \<and>
     (\<forall>n. n \<notin> N \<longrightarrow> lq_val s' n = lq_val s n) \<and>
     (\<forall>n. n \<notin> N \<and> n \<notin> set Q \<longrightarrow> lq_next s' n = lq_next s n)"

lemma lq_relyD:
  assumes "lq_rely N s Q s' Q'"
  shows "lq_fresh s \<le> lq_fresh s'"
    and "lq_head s' = lq_head s \<or> snd (lq_head s) < snd (lq_head s')"
    and "lq_tail s' = lq_tail s \<or> snd (lq_tail s) < snd (lq_tail s')"
    and "lq_top s' = lq_top s \<or> snd (lq_top s) < snd (lq_top s')"
    and "lq_head s' = lq_head s \<Longrightarrow> fst (lq_tail s') = fst (lq_head s') \<Longrightarrow> fst (lq_tail s) = fst (lq_head s)"
    and "n \<in> set Q \<Longrightarrow> fst (lq_next s n) = Some m \<Longrightarrow> fst (lq_next s' n) = Some m"
    and "seen_null s Q a j \<Longrightarrow> seen_null s' Q' a j"
    and "n \<notin> N \<Longrightarrow> lq_val s' n = lq_val s n"
    and "n \<notin> N \<Longrightarrow> n \<notin> set Q \<Longrightarrow> lq_next s' n = lq_next s n"
  using assms unfolding lq_rely_def by blast+

lemma lq_chain_hd: "lq_chain nx (Some n) ns \<Longrightarrow> \<exists>ms. ns = n # ms"
  by (cases ns) auto

text \<open>A node is in one place.\<close>

lemma lq_nodes_unique:
  assumes "lq_nodes s Q P R" "n \<in> set (nodes_at s Q P R l)" "n \<in> set (nodes_at s Q P R l')"
  shows "l = l'"
  using assms places_unique unfolding lq_nodes_def tracks_def by metis

lemma lq_nodes_fresh:
  assumes "lq_nodes s Q P R" "n \<in> set (nodes_at s Q P R l)"
  shows "n < lq_fresh s"
  using assms tracks_in unfolding lq_nodes_def by metis

lemma lq_nodes_apart:
  assumes "lq_nodes s Q P R"
  shows "n \<in> set Q \<Longrightarrow> n \<notin> set P" "n \<in> set Q \<Longrightarrow> n \<notin> set R" "n \<in> set P \<Longrightarrow> n \<notin> set R"
    "n \<in> set (lq_owned (lq_pcs s t)) \<Longrightarrow> n \<notin> set Q" "n \<in> set (lq_owned (lq_pcs s t)) \<Longrightarrow> n \<notin> set P"
    "n \<in> set (lq_owned (lq_pcs s t)) \<Longrightarrow> n \<notin> set R"
    "n \<in> set (lq_owned (lq_pcs s t)) \<Longrightarrow> n \<in> set (lq_owned (lq_pcs s u)) \<Longrightarrow> t = u"
    "n \<in> set Q \<Longrightarrow> n < lq_fresh s" "n \<in> set P \<Longrightarrow> n < lq_fresh s" "n \<in> set R \<Longrightarrow> n < lq_fresh s"
    "n \<in> set (lq_owned (lq_pcs s t)) \<Longrightarrow> n < lq_fresh s"
  using lq_nodes_unique [OF assms, of n QL_Queue QL_Pool] lq_nodes_unique [OF assms, of n QL_Queue QL_Retired]
    lq_nodes_unique [OF assms, of n QL_Pool QL_Retired] lq_nodes_unique [OF assms, of n "QL_Thread t" QL_Queue]
    lq_nodes_unique [OF assms, of n "QL_Thread t" QL_Pool] lq_nodes_unique [OF assms, of n "QL_Thread t" QL_Retired]
    lq_nodes_unique [OF assms, of n "QL_Thread t" "QL_Thread u"] lq_nodes_fresh [OF assms, of n QL_Queue]
    lq_nodes_fresh [OF assms, of n QL_Pool] lq_nodes_fresh [OF assms, of n QL_Retired] lq_nodes_fresh [OF assms, of n "QL_Thread t"]
  by auto

text \<open>The local assertion of a thread survives a step of another.\<close>

definition queue_step :: "'v lfq \<Rightarrow> nat list \<Rightarrow> nat list \<Rightarrow> nat list \<Rightarrow> 'v lfq \<Rightarrow> nat list \<Rightarrow> nat \<Rightarrow> nat \<Rightarrow> nat set \<Rightarrow> bool" where
  "queue_step s Q P R s' Q' t u N \<longleftrightarrow>
     lq_nodes s Q P R \<and> lq_links s Q P \<and> lq_counts s Q P R \<and> lq_rely N s Q s' Q' \<and>
     N \<subseteq> insert (lq_fresh s) (set (lq_owned (lq_pcs s t))) \<and>
     u \<noteq> t \<and> lq_res s' u = lq_res s u \<and> lq_empty s' u = lq_empty s u"

lemma queue_stepD:
  assumes "queue_step s Q P R s' Q' t u N"
  shows "lq_nodes s Q P R" "lq_links s Q P" "lq_counts s Q P R" "lq_rely N s Q s' Q'"
    "N \<subseteq> insert (lq_fresh s) (set (lq_owned (lq_pcs s t)))" "u \<noteq> t" "lq_res s' u = lq_res s u" "lq_empty s' u = lq_empty s u"
  using assms by (simp_all add: queue_step_def)


lemma owned_kept:
  assumes qs: "queue_step s Q P R s' Q' t u N"
    and a: "n \<in> set (lq_owned (lq_pcs s u))"
  shows "lq_next s' n = lq_next s n" "lq_val s' n = lq_val s n"
proof -
  have "n \<notin> N" "n \<notin> set Q"
    using lq_nodes_apart(4,11) [OF queue_stepD(1) [OF qs] a] lq_nodes_apart(7) [OF queue_stepD(1) [OF qs] a, of t] queue_stepD(5) [OF qs] queue_stepD(6-8) [OF qs] by auto
  then show "lq_next s' n = lq_next s n" "lq_val s' n = lq_val s n"
    using lq_relyD(8,9) [OF queue_stepD(4) [OF qs]] by blast+
qed

lemma awaited_kept:
  assumes qs: "queue_step s Q P R s' Q' t u N"
    and a: "n \<in> set (lq_del2 (lq_pcs s u))"
  shows "lq_val s' n = lq_val s n"
proof -
  have "n \<in> placed (D2 s)"
    using a by (auto simp: D2_def placed_def)
  then have "n \<in> set Q \<or> n \<in> set R"
    using queue_stepD(3) [OF qs] queue_stepD(2) [OF qs] by (cases Q) (auto simp: lq_counts_def lq_links_def)
  then have "n \<notin> N"
    using lq_nodes_apart(4,6) [OF queue_stepD(1) [OF qs], of n t] lq_nodes_apart(8,10) [OF queue_stepD(1) [OF qs], of n] queue_stepD(5) [OF qs] by auto
  then show ?thesis
    using lq_relyD(8) [OF queue_stepD(4) [OF qs]] by blast
qed

lemma top_kept:
  assumes qs: "queue_step s Q P R s' Q' t u N"
    and a: "lq_top s' = (Some n, k)" "k \<le> snd (lq_top s)"
  shows "lq_top s = (Some n, k)" "lq_next s' n = lq_next s n"
proof -
  show top: "lq_top s = (Some n, k)"
    using lq_relyD(4) [OF queue_stepD(4) [OF qs]] a by auto
  then have "n \<in> set P"
    using queue_stepD(2) [OF qs] lq_chain_hd [of "lq_next s" n P] by (auto simp: lq_links_def)
  then have "n \<notin> N" "n \<notin> set Q"
    using lq_nodes_apart(5) [OF queue_stepD(1) [OF qs], of n t] lq_nodes_apart(1,9) [OF queue_stepD(1) [OF qs], of n] queue_stepD(5) [OF qs] by auto
  then show "lq_next s' n = lq_next s n"
    using lq_relyD(9) [OF queue_stepD(4) [OF qs]] by blast
qed

lemma head_kept:
  assumes qs: "queue_step s Q P R s' Q' t u N"
    and a: "lq_head s' = (Some h, k)" "k \<le> snd (lq_head s)"
  shows "lq_head s = (Some h, k)" "fst (lq_next s h) = Some m \<Longrightarrow> fst (lq_next s' h) = Some m"
    "fst (lq_tail s) \<noteq> Some h \<Longrightarrow> fst (lq_tail s') \<noteq> Some h"
proof -
  show head: "lq_head s = (Some h, k)"
    using lq_relyD(2) [OF queue_stepD(4) [OF qs]] a by auto
  then have "h \<in> set Q"
    using queue_stepD(2) [OF qs] lq_chain_hd [of "lq_next s" h Q] by (auto simp: lq_links_def)
  then show "fst (lq_next s h) = Some m \<Longrightarrow> fst (lq_next s' h) = Some m"
    by (rule lq_relyD(6) [OF queue_stepD(4) [OF qs]])
  show "fst (lq_tail s) \<noteq> Some h \<Longrightarrow> fst (lq_tail s') \<noteq> Some h"
    using lq_relyD(5) [OF queue_stepD(4) [OF qs]] head a(1) by auto
qed

lemma tail_kept:
  assumes qs: "queue_step s Q P R s' Q' t u N"
    and a: "lq_tail s' = T" "snd T \<le> snd (lq_tail s)"
  shows "lq_tail s = T" "fst T = Some a \<Longrightarrow> fst (lq_next s a) = Some m \<Longrightarrow> fst (lq_next s' a) = Some m"
proof -
  show tail: "lq_tail s = T"
    using lq_relyD(3) [OF queue_stepD(4) [OF qs]] a by auto
  show "fst (lq_next s' a) = Some m" if "fst T = Some a" "fst (lq_next s a) = Some m"
  proof -
    have "a \<in> set Q"
      using queue_stepD(2) [OF qs] tail that(1) by (auto simp: lq_links_def)
    then show ?thesis
      using that(2) by (rule lq_relyD(6) [OF queue_stepD(4) [OF qs]])
  qed
qed

lemma stamps_grow:
  assumes qs: "queue_step s Q P R s' Q' t u N"
  shows "snd (lq_head s) \<le> snd (lq_head s')" "snd (lq_tail s) \<le> snd (lq_tail s')" "snd (lq_top s) \<le> snd (lq_top s')"
  using lq_relyD(2-4) [OF queue_stepD(4) [OF qs]] by auto

lemma cont_kept:
  assumes qs: "queue_step s Q P R s' Q' t u N"
    and a: "set (cont_del2 c) \<subseteq> set (lq_del2 (lq_pcs s u))" "cont_ok s u c"
  shows "cont_ok s' u c"
  using a awaited_kept [OF qs] queue_stepD(6-8) [OF qs] by (cases c) auto

lemma local_kept:
  assumes qs: "queue_step s Q P R s' Q' t u N"
    and a: "lq_local s Q u (lq_pcs s u)"
  shows "lq_local s' Q' u (lq_pcs s u)"
proof (cases "lq_pcs s u")
  case (LQ_Idle r)
  then show ?thesis using a queue_stepD(6-8) [OF qs] by (auto split: option.splits)
next
  case (PU_PoolNext v n k)
  then show ?thesis using a stamps_grow [OF qs] by auto
next
  case (PU_PoolCas v n k nxt)
  then show ?thesis using a stamps_grow(3) [OF qs] top_kept [OF qs, of n k] by auto
next
  case (PU_Tail n)
  then show ?thesis using a owned_kept [OF qs, of n] by (auto simp: node_ready_def)
next
  case (PU_Next n a k)
  then show ?thesis using a owned_kept [OF qs, of n] stamps_grow(2) [OF qs] by (auto simp: node_ready_def)
next
  case (PU_Check n a k nxt)
  then show ?thesis
    using a owned_kept [OF qs, of n] stamps_grow(2) [OF qs] tail_kept [OF qs, where T = "(Some a, k)"] lq_relyD(7) [OF queue_stepD(4) [OF qs], of a "snd nxt"]
    by (auto simp: node_ready_def split: option.splits)
next
  case (PU_Link n a k j)
  then show ?thesis
    using a owned_kept [OF qs, of n] stamps_grow(2) [OF qs] lq_relyD(7) [OF queue_stepD(4) [OF qs], of a j] by (auto simp: node_ready_def)
next
  case (PU_Help n a k m)
  then show ?thesis
    using a owned_kept [OF qs, of n] stamps_grow(2) [OF qs] tail_kept [OF qs, where T = "(Some a, k)"] by (auto simp: node_ready_def)
next
  case (PU_Swing n a k)
  then show ?thesis
    using a stamps_grow(2) [OF qs] tail_kept [OF qs, where T = "(Some a, k)"] by auto
next
  case (PO_Next h k)
  then show ?thesis using a stamps_grow(1) [OF qs] by auto
next
  case (PO_Tail h k nxt)
  then show ?thesis
    using a stamps_grow(1) [OF qs] head_kept [OF qs, where h = h and k = k] queue_stepD(6-8) [OF qs] by (auto split: option.splits)
next
  case (PO_Check h k nxt T)
  then show ?thesis
    using a stamps_grow(1,2) [OF qs] head_kept [OF qs, where h = h and k = k] queue_stepD(6-8) [OF qs] by (auto split: option.splits)
next
  case (PO_Cas h k n)
  then show ?thesis
    using a stamps_grow(1) [OF qs] head_kept [OF qs, where h = h and k = k] by auto
next
  case (PO_Help T n)
  then show ?thesis
    using a stamps_grow(2) [OF qs] tail_kept [OF qs, where T = T] by auto
next
  case (TP_Store n c T k)
  then show ?thesis using a owned_kept [OF qs, of n] cont_kept [OF qs, of c] by auto
next
  case (TP_Cas n c T k)
  then show ?thesis using a owned_kept [OF qs, of n] cont_kept [OF qs, of c] by auto
qed (use a cont_kept [OF qs] queue_stepD(6-8) [OF qs] in \<open>auto simp del: cont_ok.simps\<close>)

section \<open>Steps\<close>

lemma lq_okD:
  assumes "lq_ok s Q P R"
  shows "lq_nodes s Q P R" "lq_links s Q P" "lq_vals s Q" "lq_counts s Q P R" "lq_local s Q t (lq_pcs s t)" "\<not> lq_bad s"
  using assms by (simp_all add: lq_ok_def)

lemma lq_ok_step:
  assumes ok: "lq_ok s Q P R" and pcs: "lq_pcs s' = (lq_pcs s)(t := q)"
    and rely: "lq_rely N s Q s' Q'" and N: "N \<subseteq> insert (lq_fresh s) (set (lq_owned (lq_pcs s t)))"
    and other: "\<And>u. u \<noteq> t \<Longrightarrow> lq_res s' u = lq_res s u" "\<And>u. u \<noteq> t \<Longrightarrow> lq_empty s' u = lq_empty s u"
    and ok': "lq_nodes s' Q' P' R'" "lq_links s' Q' P'" "lq_vals s' Q'" "lq_counts s' Q' P' R'"
    and loc: "lq_local s' Q' t q" and bad: "\<not> lq_bad s'"
  shows "lq_ok s' Q' P' R'"
proof -
  have "lq_local s' Q' u (lq_pcs s' u)" for u
  proof (cases "u = t")
    case True
    with loc pcs show ?thesis by simp
  next
    case False
    then have "queue_step s Q P R s' Q' t u N"
      using lq_okD(1,2,4) [OF ok] rely N other by (simp add: queue_step_def)
    from local_kept [OF this lq_okD(5) [OF ok]] False pcs show ?thesis by simp
  qed
  with ok' bad show ?thesis by (simp add: lq_ok_def)
qed

lemma nodes_at_cong: "lq_owned (lq_pcs s' t) = lq_owned (lq_pcs s t) \<Longrightarrow> (\<And>u. u \<noteq> t \<Longrightarrow> lq_pcs s' u = lq_pcs s u) \<Longrightarrow>
    nodes_at s' Q P R = nodes_at s Q P R"
  by (rule ext, case_tac x) (simp_all, metis)

lemma D_cong:
  assumes "lq_pcs s' = (lq_pcs s)(t := q)"
  shows "D1 s' = (D1 s)(t := lq_del1 q)" "D2 s' = (D2 s)(t := lq_del2 q)"
  using assms by (auto simp: D1_def D2_def)

lemma nodes_at_upd:
  assumes "lq_pcs s' = (lq_pcs s)(t := q)"
  shows "nodes_at s' Q' P' R' = (nodes_at s Q P R)(QL_Queue := Q', QL_Pool := P', QL_Retired := R', QL_Thread t := lq_owned q)"
  using assms by (intro ext, case_tac x) simp_all

lemma nodes_at_self: "(nodes_at s Q P R)(QL_Queue := Q) = nodes_at s Q P R" "(nodes_at s Q P R)(QL_Pool := P) = nodes_at s Q P R"
  "(nodes_at s Q P R)(QL_Retired := R) = nodes_at s Q P R"
  "lq_owned (lq_pcs s t) = os \<Longrightarrow> (nodes_at s Q P R)(QL_Thread t := os) = nodes_at s Q P R"
  by (auto simp: fun_eq_iff)

text \<open>A step within a thread.\<close>

lemma lq_ok_goto:
  assumes ok: "lq_ok s Q P R" and p: "lq_pcs s t = p" and s': "s' = s\<lparr>lq_pcs := (lq_pcs s)(t := q), lq_res := r, lq_empty := e\<rparr>"
    and r: "\<And>u. u \<noteq> t \<Longrightarrow> r u = lq_res s u" "\<And>u. u \<noteq> t \<Longrightarrow> e u = lq_empty s u"
    and same: "lq_owned q = lq_owned p" "lq_del1 q = lq_del1 p" "lq_del2 q = lq_del2 p" and loc: "lq_local s' Q t q"
  shows "lq_ok s' Q P R"
proof (rule lq_ok_step [OF ok, of _ t q "{}"])
  note d = lq_okD [OF ok]
  have D: "D1 s' = D1 s" "D2 s' = D2 s"
    using p same by (auto simp: s' D1_def D2_def fun_eq_iff)
  have n: "nodes_at s' Q P R = nodes_at s Q P R"
    using p same by (intro nodes_at_cong [of _ t]) (auto simp: s')
  show "lq_nodes s' Q P R"
    using d(1) by (simp add: lq_nodes_def n) (simp add: s')
  show "lq_links s' Q P" "lq_vals s' Q" "\<not> lq_bad s'"
    using d(2,3,6) by (simp_all add: s' lq_links_def lq_vals_def)
  show "lq_counts s' Q P R"
    using d(4) p same unfolding lq_counts_def D by (auto simp: s')
  show "lq_rely {} s Q s' Q"
    by (auto simp: lq_rely_def s' seen_null_def)
qed (use r loc in \<open>simp_all add: s'\<close>)

lemma lq_ok_goto1:
  assumes ok: "lq_ok s Q P R" and p: "lq_pcs s t = p"
    and same: "lq_owned q = lq_owned p" "lq_del1 q = lq_del1 p" "lq_del2 q = lq_del2 p" and loc: "lq_local (lq_goto t q s) Q t q"
  shows "lq_ok (lq_goto t q s) Q P R"
  using lq_ok_goto [where r = "lq_res s" and e = "lq_empty s", OF ok p _ _ _ same loc] by simp

text \<open>Stamps that do not wrap.\<close>

lemma unwrapped:
  "\<not> lq_wrapped (set_head p k s) \<Longrightarrow> set_head p k s = s\<lparr>lq_head := (p, Suc k)\<rparr>"
  "\<not> lq_wrapped (set_tail p k s) \<Longrightarrow> set_tail p k s = s\<lparr>lq_tail := (p, Suc k)\<rparr>"
  "\<not> lq_wrapped (set_top p k s) \<Longrightarrow> set_top p k s = s\<lparr>lq_top := (p, Suc k)\<rparr>"
  "\<not> lq_wrapped (set_next n p k s) \<Longrightarrow> set_next n p k s = s\<lparr>lq_next := (lq_next s)(n := (p, Suc k))\<rparr>"
  by (simp_all add: set_head_def set_tail_def set_top_def set_next_def lq_stamp_def inc_stamp_def)

lemma lq_chain_upd: "n \<notin> set ns \<Longrightarrow> lq_chain (nx(n := v)) p ns = lq_chain nx p ns"
  by (induction ns arbitrary: p) auto

lemma lq_chain_append:
  assumes "lq_chain nx p Q" "distinct Q" "a \<in> set Q" "fst (nx a) = None" "n \<notin> set Q" "fst (nx n) = None" "fst v = Some n"
  shows "lq_chain (nx(a := v)) p (Q @ [n])"
  using assms
proof (induction Q arbitrary: p)
  case (Cons x Q)
  show ?case
  proof (cases "x = a")
    case True
    with Cons.prems have "Q = []"
      by (cases Q) auto
    with Cons.prems True show ?thesis by auto
  next
    case False
    with Cons show ?thesis by auto
  qed
qed simp

lemma lq_chain_next:
  assumes "lq_chain nx p Q" "a \<in> set Q" "fst (nx a) = Some m"
  shows "m \<in> set (tl Q)"
  using assms
proof (induction Q arbitrary: p)
  case (Cons x Q)
  show ?case
  proof (cases "x = a")
    case True
    with Cons.prems show ?thesis by (cases Q) auto
  next
    case False
    with Cons.IH [of "fst (nx x)"] Cons.prems show ?thesis by (cases Q) auto
  qed
qed simp

lemma lq_relyI:
  assumes "lq_fresh s' = lq_fresh s \<or> lq_fresh s' = Suc (lq_fresh s)"
    "lq_head s' = lq_head s \<or> snd (lq_head s) < snd (lq_head s')"
    "lq_tail s' = lq_tail s \<or> snd (lq_tail s) < snd (lq_tail s') \<and> (lq_head s' = lq_head s \<longrightarrow> fst (lq_tail s') \<noteq> fst (lq_head s'))"
    "lq_top s' = lq_top s \<or> snd (lq_top s) < snd (lq_top s')"
    "\<And>n m. n \<in> set Q \<Longrightarrow> fst (lq_next s n) = Some m \<Longrightarrow> fst (lq_next s' n) = Some m"
    "\<And>a j. seen_null s Q a j \<Longrightarrow> seen_null s' Q' a j"
    "\<And>n. n \<notin> N \<Longrightarrow> lq_val s' n = lq_val s n"
    "\<And>n. n \<notin> N \<Longrightarrow> n \<notin> set Q \<Longrightarrow> lq_next s' n = lq_next s n"
  shows "lq_rely N s Q s' Q'"
  using assms unfolding lq_rely_def by auto

lemma seen_null_same:
  assumes "seen_null s Q a j" "lq_fresh s' = lq_fresh s" "lq_next s' = lq_next s" "Q' = Q"
  shows "seen_null s' Q' a j"
  using assms by (simp add: seen_null_def)

text \<open>\<open>new Node(value)\<close>.\<close>

lemma step_new_node:
  assumes ok: "lq_ok s Q P R" and p: "lq_pcs s t = PU_PoolTop v" and n: "n = lq_fresh s"
    and s': "s' = lq_goto t (PU_Tail n) (snd (new_node v s))"
  shows "lq_ok s' Q P R"
proof (rule lq_ok_step [OF ok, of _ t "PU_Tail n" "{n}"])
  note d = lq_okD [OF ok]
  have out: "n \<notin> set Q" "n \<notin> set P" "n \<notin> set R" "\<And>u. n \<notin> set (lq_owned (lq_pcs s u))"
    using lq_nodes_apart(8-11) [OF d(1), of n] n by auto
  have D: "D1 s' = D1 s" "D2 s' = D2 s"
    using p by (auto simp: s' new_node_def D1_def D2_def fun_eq_iff)
  have "tracks ((nodes_at s Q P R)(QL_Thread t := n # nodes_at s Q P R (QL_Thread t))) ((\<lambda>n. n < lq_fresh s)(n := True))"
    using d(1) n by (intro tracks_take) (simp_all add: lq_nodes_def)
  moreover have "nodes_at s' Q P R = (nodes_at s Q P R)(QL_Thread t := n # nodes_at s Q P R (QL_Thread t))"
    using p by (intro ext, case_tac x) (simp_all add: s' new_node_def)
  moreover have "(\<lambda>m. m < lq_fresh s') = (\<lambda>n. n < lq_fresh s)(n := True)"
    using n by (auto simp: s' new_node_def fun_eq_iff)
  ultimately show "lq_nodes s' Q P R" unfolding lq_nodes_def by simp
  show "lq_links s' Q P"
    using d(2) out n by (simp add: s' new_node_def lq_links_def lq_chain_upd)
  have "n \<notin> set (tl Q)"
    using out(1) by (cases Q) auto
  then have v: "lq_val s' m = lq_val s m" "lq_del s' m = lq_del s m" if "m \<in> set (tl Q)" for m
    using that n by (auto simp: s' new_node_def)
  then show "lq_vals s' Q"
    using d(3) by (simp add: lq_vals_def s' new_node_def cong: map_cong)
  have "hd Q \<noteq> n"
    using out(1) d(2) by (cases Q) (auto simp: lq_links_def)
  then have del: "lq_del s' m = lq_del s m" if "m \<in> set (tl Q) \<or> m = hd Q \<or> m \<in> set R \<or> m \<in> set P \<or> (\<exists>u. m \<in> set (lq_owned (lq_pcs s u)))" for m
    using that out \<open>n \<notin> set (tl Q)\<close> n by (auto simp: s' new_node_def)
  show "lq_counts s' Q P R"
    using d(4) del p n unfolding lq_counts_def D by (auto simp: s' new_node_def split: if_splits)
  show "lq_rely {n} s Q s' Q"
    using out n by (intro lq_relyI) (auto simp: s' new_node_def seen_null_def)
qed (use lq_okD(6) [OF ok] n in \<open>auto simp: s' new_node_def node_ready_def\<close>)

text \<open>A node is taken from the pool, initialized, and later put back.\<close>

lemma counts_move:
  assumes "lq_counts s Q P R" "D1 s' = D1 s" "D2 s' = D2 s" "lq_del s' = lq_del s"
    "\<And>n. n \<in> set P' \<Longrightarrow> even (lq_del s n)" "\<And>u n. n \<in> set (lq_owned (lq_pcs s' u)) \<Longrightarrow> even (lq_del s n)"
  shows "lq_counts s' Q P' R"
  using assms unfolding lq_counts_def by simp

lemma countsD:
  assumes "lq_counts s Q P R"
  shows "n \<in> set P \<Longrightarrow> even (lq_del s n)" "n \<in> set (lq_owned (lq_pcs s t)) \<Longrightarrow> even (lq_del s n)"
    "n \<in> set (tl Q) \<Longrightarrow> even (lq_del s n)" "odd (lq_del s (hd Q)) \<longleftrightarrow> hd Q \<notin> placed (D2 s)"
    "n \<in> set R \<Longrightarrow> n \<in> placed (D1 s) \<or> n \<in> placed (D2 s)"
    "n \<in> set R \<Longrightarrow> odd (lq_del s n) \<longleftrightarrow> \<not> (n \<in> placed (D1 s) \<and> n \<in> placed (D2 s))"
    "n \<in> placed (D1 s) \<Longrightarrow> n \<in> set R" "n \<in> placed (D2 s) \<Longrightarrow> n = hd Q \<or> n \<in> set R" "places (D1 s)" "places (D2 s)"
  using assms unfolding lq_counts_def by auto

lemma countsI:
  assumes "places (D1 s)" "places (D2 s)" "\<And>n. n \<in> placed (D1 s) \<Longrightarrow> n \<in> set R"
    "\<And>n. n \<in> placed (D2 s) \<Longrightarrow> n = hd Q \<or> n \<in> set R" "\<And>n. n \<in> set (tl Q) \<Longrightarrow> even (lq_del s n)"
    "odd (lq_del s (hd Q)) \<longleftrightarrow> hd Q \<notin> placed (D2 s)"
    "\<And>n. n \<in> set R \<Longrightarrow> n \<in> placed (D1 s) \<or> n \<in> placed (D2 s)"
    "\<And>n. n \<in> set R \<Longrightarrow> odd (lq_del s n) \<longleftrightarrow> \<not> (n \<in> placed (D1 s) \<and> n \<in> placed (D2 s))"
    "\<And>n. n \<in> set P \<Longrightarrow> even (lq_del s n)" "\<And>t n. n \<in> set (lq_owned (lq_pcs s t)) \<Longrightarrow> even (lq_del s n)"
  shows "lq_counts s Q P R"
  unfolding lq_counts_def using assms by blast

lemma step_pool_pop:
  assumes ok: "lq_ok s Q P R" and p: "lq_pcs s t = PU_PoolCas v n k nxt" and top: "lq_top s = (Some n, k)"
    and s': "s' = lq_goto t (PU_Init v n) (s\<lparr>lq_top := (nxt, Suc k)\<rparr>)"
  shows "\<exists>P'. lq_ok s' Q P' R"
proof -
  note d = lq_okD [OF ok]
  obtain P' where P: "P = n # P'"
    using d(2) top lq_chain_hd [of "lq_next s" n P] by (auto simp: lq_links_def)
  have nxt: "fst (lq_next s n) = nxt"
    using d(5) [of t] p top by simp
  have "lq_ok s' Q P' R"
  proof (rule lq_ok_step [OF ok, of _ t "PU_Init v n" "{}"])
    have "tracks ((nodes_at s Q P R)(QL_Pool := P', QL_Thread t := [n])) (\<lambda>n. n < lq_fresh s)"
      using tracks_move [of "nodes_at s Q P R" _ QL_Pool "[]" n P' "QL_Thread t" "[]" "[]"] d(1) P p by (simp add: lq_nodes_def)
    moreover have "nodes_at s' Q P' R = (nodes_at s Q P R)(QL_Pool := P', QL_Thread t := [n])"
      by (intro ext, case_tac x) (simp_all add: s')
    ultimately show "lq_nodes s' Q P' R" by (simp add: lq_nodes_def) (simp add: s')
    show "lq_links s' Q P'"
      using d(2) P nxt by (simp add: s' lq_links_def)
    show "lq_vals s' Q"
      using d(3) by (simp add: s' lq_vals_def)
    show "lq_counts s' Q P' R"
    proof (rule counts_move [OF d(4)])
      show "D1 s' = D1 s" "D2 s' = D2 s"
        using p by (auto simp: s' D1_def D2_def fun_eq_iff)
      show "even (lq_del s m)" if "m \<in> set P'" for m
        using countsD(1) [OF d(4), of m] that P by simp
      show "even (lq_del s m)" if "m \<in> set (lq_owned (lq_pcs s' u))" for u m
        using countsD(1) [OF d(4), of n] countsD(2) [OF d(4), of m u] that P by (auto simp: s' split: if_splits)
    qed (simp add: s')
    show "lq_rely {} s Q s' Q"
      using top by (intro lq_relyI) (auto simp: s' seen_null_def)
  qed (use d(6) in \<open>simp_all add: s'\<close>)
  then show ?thesis ..
qed

lemma step_reuse:
  assumes ok: "lq_ok s Q P R" and p: "lq_pcs s t = PU_Init v n"
    and s': "s' = lq_goto t (PU_Tail n) (s\<lparr>lq_val := (lq_val s)(n \<mapsto> v), lq_next := (lq_next s)(n := (nullptr, Suc (snd (lq_next s n))))\<rparr>)"
  shows "lq_ok s' Q P R"
proof (rule lq_ok_step [OF ok, of _ t "PU_Tail n" "{n}"])
  note d = lq_okD [OF ok]
  have out: "n \<notin> set Q" "n \<notin> set P"
    using lq_nodes_apart(4,5) [OF d(1), of n t] p by auto
  have nt: "n \<notin> set (tl Q)"
    using out(1) by (cases Q) auto
  have "nodes_at s' Q P R = nodes_at s Q P R"
    using p by (intro nodes_at_cong [of _ t]) (auto simp: s')
  then show "lq_nodes s' Q P R"
    using d(1) by (simp add: lq_nodes_def) (simp add: s')
  show "lq_links s' Q P"
    using d(2) out by (simp add: s' lq_links_def lq_chain_upd)
  have "lq_val s' m = lq_val s m" if "m \<in> set (tl Q)" for m
    using that nt by (auto simp: s')
  then show "lq_vals s' Q"
    using d(3) by (simp add: lq_vals_def s' cong: map_cong)
  show "lq_counts s' Q P R"
  proof (rule counts_move [OF d(4)])
    show "D1 s' = D1 s" "D2 s' = D2 s"
      using p by (auto simp: s' D1_def D2_def fun_eq_iff)
    show "even (lq_del s m)" if "m \<in> set (lq_owned (lq_pcs s' u))" for u m
      using countsD(2) [OF d(4), of m u] that p by (auto simp: s' split: if_splits)
  qed (use countsD(1) [OF d(4)] in \<open>simp_all add: s'\<close>)
  show "lq_rely {n} s Q s' Q"
    using out by (intro lq_relyI) (auto simp: s' seen_null_def)
qed (use lq_okD(6) [OF ok] p in \<open>simp_all add: s' node_ready_def\<close>)

lemma step_store:
  assumes ok: "lq_ok s Q P R" and p: "lq_pcs s t = TP_Store n c T k"
    and s': "s' = lq_goto t (TP_Cas n c T k) (s\<lparr>lq_next := (lq_next s)(n := (fst T, Suc k))\<rparr>)"
  shows "lq_ok s' Q P R"
proof (rule lq_ok_step [OF ok, of _ t "TP_Cas n c T k" "{n}"])
  note d = lq_okD [OF ok]
  have out: "n \<notin> set Q" "n \<notin> set P"
    using lq_nodes_apart(4,5) [OF d(1), of n t] p by auto
  have loc: "cont_ok s t c" "snd (lq_next s n) \<le> Suc k"
    using d(5) [of t] p by simp_all
  have "nodes_at s' Q P R = nodes_at s Q P R"
    using p by (intro nodes_at_cong [of _ t]) (auto simp: s')
  then show "lq_nodes s' Q P R"
    using d(1) by (simp add: lq_nodes_def) (simp add: s')
  show "lq_links s' Q P"
    using d(2) out by (simp add: s' lq_links_def lq_chain_upd)
  show "lq_vals s' Q"
    using d(3) by (simp add: lq_vals_def s')
  show "lq_counts s' Q P R"
  proof (rule counts_move [OF d(4)])
    show "D1 s' = D1 s" "D2 s' = D2 s"
      using p by (auto simp: s' D1_def D2_def fun_eq_iff)
    show "even (lq_del s m)" if "m \<in> set (lq_owned (lq_pcs s' u))" for u m
      using countsD(2) [OF d(4), of m u] that p by (auto simp: s' split: if_splits)
  qed (use countsD(1) [OF d(4)] in \<open>simp_all add: s'\<close>)
  show "lq_rely {n} s Q s' Q"
    using out loc(2) by (intro lq_relyI) (auto simp: s' seen_null_def)
  show "lq_local s' Q t (TP_Cas n c T k)"
    using loc(1) by (cases c) (simp_all add: s')
qed (use lq_okD(6) [OF ok] p in \<open>simp_all add: s'\<close>)

lemma step_pool_push:
  assumes ok: "lq_ok s Q P R" and p: "lq_pcs s t = TP_Cas n c T k" and top: "lq_top s = T"
    and s': "s' = lq_goto t (after_pool c) (s\<lparr>lq_top := (Some n, Suc (snd T))\<rparr>)"
  shows "lq_ok s' Q (n # P) R"
proof (rule lq_ok_step [OF ok, of _ t "after_pool c" "{}"])
  note d = lq_okD [OF ok]
  have loc: "cont_ok s t c" "lq_next s n = (fst T, Suc k)"
    using d(5) [of t] p by simp_all
  have o: "lq_owned (after_pool c) = []" "lq_del1 (after_pool c) = []" "lq_del2 (after_pool c) = cont_del2 c"
    by (cases c; simp)+
  have "tracks ((nodes_at s Q P R)(QL_Thread t := [], QL_Pool := n # P)) (\<lambda>n. n < lq_fresh s)"
    using tracks_move [of "nodes_at s Q P R" _ "QL_Thread t" "[]" n "[]" QL_Pool "[]" P] d(1) p by (simp add: lq_nodes_def)
  moreover have "nodes_at s' Q (n # P) R = (nodes_at s Q P R)(QL_Thread t := [], QL_Pool := n # P)"
    using o by (intro ext, case_tac x) (simp_all add: s')
  ultimately show "lq_nodes s' Q (n # P) R" by (simp add: lq_nodes_def) (simp add: s')
  show "lq_links s' Q (n # P)"
    using d(2) loc(2) top by (auto simp: s' lq_links_def)
  show "lq_vals s' Q"
    using d(3) by (simp add: lq_vals_def s')
  show "lq_counts s' Q (n # P) R"
  proof (rule counts_move [OF d(4)])
    show "D1 s' = D1 s" "D2 s' = D2 s"
      using p o by (auto simp: s' D1_def D2_def fun_eq_iff)
    show "even (lq_del s m)" if "m \<in> set (n # P)" for m
      using countsD(1) [OF d(4), of m] countsD(2) [OF d(4), of n t] that p by auto
    show "even (lq_del s m)" if "m \<in> set (lq_owned (lq_pcs s' u))" for u m
      using countsD(2) [OF d(4), of m u] that o by (auto simp: s' split: if_splits)
  qed (simp add: s')
  show "lq_rely {} s Q s' Q"
    using top by (intro lq_relyI) (auto simp: s' seen_null_def)
  show "lq_local s' Q t (after_pool c)"
    using loc(1) by (cases c) (auto simp: s' split: option.splits)
qed (use lq_okD(6) [OF ok] in \<open>simp_all add: s'\<close>)

text \<open>A node is linked behind the last one.\<close>

lemma step_link:
  assumes ok: "lq_ok s Q P R" and p: "lq_pcs s t = PU_Link n a k j" and nxt: "lq_next s a = (nullptr, j)"
    and s': "s' = lq_goto t (PU_Swing n a k) (s\<lparr>lq_next := (lq_next s)(a := (Some n, Suc j)),
        lq_pushed := lq_pushed s @ (case lq_val s n of None \<Rightarrow> [] | Some v \<Rightarrow> [v])\<rparr>)"
  shows "lq_ok s' (Q @ [n]) P R"
proof (rule lq_ok_step [OF ok, of _ t "PU_Swing n a k" "{}"])
  note d = lq_okD [OF ok]
  have loc: "fst (lq_next s n) = None" "k \<le> snd (lq_tail s)" "a \<in> set Q"
    using d(5) [of t] p nxt by (auto simp: node_ready_def seen_null_def)
  obtain v where v: "lq_val s n = Some v"
    using d(5) [of t] p by (auto simp: node_ready_def)
  have n: "n \<notin> set Q" "n \<notin> set P"
    using lq_nodes_apart(4,5) [OF d(1), of n t] p by auto
  have a: "a \<notin> set P"
    using lq_nodes_apart(1) [OF d(1) loc(3)] .
  have Q: "Q \<noteq> []" "tl (Q @ [n]) = tl Q @ [n]" "hd (Q @ [n]) = hd Q" "distinct Q"
    using d(1,2) places_distinct [of "nodes_at s Q P R" QL_Queue] by (auto simp: lq_links_def lq_nodes_def tracks_def)
  have "tracks ((nodes_at s Q P R)(QL_Thread t := [], QL_Queue := Q @ [n])) (\<lambda>n. n < lq_fresh s)"
    using tracks_move [of "nodes_at s Q P R" _ "QL_Thread t" "[]" n "[]" QL_Queue Q "[]"] d(1) p by (simp add: lq_nodes_def)
  moreover have "nodes_at s' (Q @ [n]) P R = (nodes_at s Q P R)(QL_Thread t := [], QL_Queue := Q @ [n])"
    by (intro ext, case_tac x) (simp_all add: s')
  ultimately show "lq_nodes s' (Q @ [n]) P R" by (simp add: lq_nodes_def) (simp add: s')
  show "lq_links s' (Q @ [n]) P"
    using d(2) lq_chain_append [of "lq_next s" _ Q a n] loc n a nxt Q(4) by (auto simp: s' lq_links_def lq_chain_upd)
  show "lq_vals s' (Q @ [n])"
    using d(3) v by (auto simp: lq_vals_def s' Q)
  have D: "D1 s' = D1 s" "D2 s' = D2 s"
    using p by (auto simp: s' D1_def D2_def fun_eq_iff)
  have "even (lq_del s n)"
    using countsD(2) [OF d(4), of n t] p by simp
  then show "lq_counts s' (Q @ [n]) P R"
    using d(4) unfolding lq_counts_def D Q by (auto simp: s')
  show "lq_rely {} s Q s' (Q @ [n])"
    using nxt loc(3) by (intro lq_relyI) (auto simp: s' seen_null_def)
  show "lq_local s' (Q @ [n]) t (PU_Swing n a k)"
    using loc(2) by (simp add: s')
qed (use lq_okD(6) [OF ok] in \<open>simp_all add: s'\<close>)

text \<open>The tail is moved to the next node.\<close>

lemma step_tail:
  assumes ok: "lq_ok s Q P R" and p: "lq_pcs s t = p" and T: "lq_tail s = (Some a, k)" "fst (lq_next s a) = Some m"
    and same: "lq_owned q = lq_owned p" "lq_del1 q = lq_del1 p" "lq_del2 q = lq_del2 p"
    and s': "s' = lq_goto t q (s\<lparr>lq_tail := (Some m, Suc k)\<rparr>)" and loc: "lq_local s' Q t q"
  shows "lq_ok s' Q P R"
proof (rule lq_ok_step [OF ok, of _ t q "{}"])
  note d = lq_okD [OF ok]
  have "a \<in> set Q"
    using d(2) T by (auto simp: lq_links_def)
  then have m: "m \<in> set (tl Q)"
    using d(2) T(2) lq_chain_next by (auto simp: lq_links_def)
  have "distinct Q"
    using d(1) places_distinct [of "nodes_at s Q P R" QL_Queue] by (auto simp: lq_nodes_def tracks_def)
  with m d(2) have h: "fst (lq_head s) \<noteq> Some m" "m \<in> set Q"
    by (cases Q; auto simp: lq_links_def)+
  have "nodes_at s' Q P R = nodes_at s Q P R"
    using p same by (intro nodes_at_cong [of _ t]) (auto simp: s')
  then show "lq_nodes s' Q P R"
    using d(1) by (simp add: lq_nodes_def) (simp add: s')
  show "lq_links s' Q P"
    using d(2) h(2) by (simp add: s' lq_links_def)
  show "lq_vals s' Q"
    using d(3) by (simp add: lq_vals_def s')
  show "lq_counts s' Q P R"
  proof (rule counts_move [OF d(4)])
    show "D1 s' = D1 s" "D2 s' = D2 s"
      using p same by (auto simp: s' D1_def D2_def fun_eq_iff)
    show "even (lq_del s m)" if "m \<in> set (lq_owned (lq_pcs s' u))" for u m
      using countsD(2) [OF d(4), of m u] that p same by (auto simp: s' split: if_splits)
  qed (use countsD(1) [OF d(4)] in \<open>simp_all add: s'\<close>)
  show "lq_rely {} s Q s' Q"
    using T h(1) by (intro lq_relyI) (auto simp: s' seen_null_def)
qed (use lq_okD(6) [OF ok] loc in \<open>simp_all add: s'\<close>)

text \<open>The head is moved to the next node: the old dummy retires.\<close>

lemma step_head:
  assumes ok: "lq_ok s Q P R" and p: "lq_pcs s t = PO_Cas h k n" and head: "lq_head s = (Some h, k)"
    and s': "s' = lq_goto t (PO_Del1 h n) (s\<lparr>lq_head := (Some n, Suc k),
        lq_popped := lq_popped s @ (case lq_val s n of None \<Rightarrow> [] | Some v \<Rightarrow> [v]), lq_res := (lq_res s)(t := lq_val s n)\<rparr>)"
  shows "lq_ok s' (tl Q) P (h # R)"
proof (rule lq_ok_step [OF ok, of _ t "PO_Del1 h n" "{}"])
  note d = lq_okD [OF ok]
  have loc: "fst (lq_next s h) = Some n" "fst (lq_tail s) \<noteq> Some h"
    using d(5) [of t] p head by auto
  obtain Q1 where Q1: "Q = h # Q1"
    using d(2) head lq_chain_hd [of "lq_next s" h Q] by (auto simp: lq_links_def)
  then obtain ms where "Q1 = n # ms"
    using d(2) loc(1) lq_chain_hd [of "lq_next s" n Q1] by (auto simp: lq_links_def)
  with Q1 have Q: "Q = h # n # ms" by simp
  have dist: "distinct Q"
    using d(1) places_distinct [of "nodes_at s Q P R" QL_Queue] by (auto simp: lq_nodes_def tracks_def)
  obtain v where v: "lq_val s n = Some v"
    using d(3) Q by (auto simp: lq_vals_def)
  have R: "h \<notin> set R" "n \<notin> set R"
    using lq_nodes_apart(2) [OF d(1)] Q by simp_all
  have "tracks ((nodes_at s Q P R)(QL_Queue := n # ms, QL_Retired := h # R)) (\<lambda>n. n < lq_fresh s)"
    using tracks_move [of "nodes_at s Q P R" _ QL_Queue "[]" h "n # ms" QL_Retired "[]" R] d(1) Q by (simp add: lq_nodes_def)
  moreover have "nodes_at s' (tl Q) P (h # R) = (nodes_at s Q P R)(QL_Queue := n # ms, QL_Retired := h # R)"
    using p Q by (intro ext, case_tac x) (simp_all add: s')
  ultimately show "lq_nodes s' (tl Q) P (h # R)" by (simp add: lq_nodes_def) (simp add: s')
  show "lq_links s' (tl Q) P"
    using d(2) loc Q by (auto simp: s' lq_links_def)
  show "lq_vals s' (tl Q)"
    using d(3) v Q by (auto simp: lq_vals_def s')
  have D: "D1 s' = (D1 s)(t := [h])" "D2 s' = (D2 s)(t := [n])" "D1 s t = []" "D2 s t = []"
    using p by (auto simp: s' D1_def D2_def fun_eq_iff)
  have out: "h \<notin> placed (D1 s)" "n \<notin> placed (D2 s)"
    using countsD(7,8) [OF d(4)] R Q dist by auto
  have pl: "places (D1 s')" "placed (D1 s') = insert h (placed (D1 s))" "places (D2 s')" "placed (D2 s') = insert n (placed (D2 s))"
    using places_cons [OF countsD(9) [OF d(4)] out(1), of t] places_cons [OF countsD(10) [OF d(4)] out(2), of t] D by simp_all
  have hn: "h \<noteq> n" and del: "lq_del s' = lq_del s" and own: "\<And>u. lq_owned (lq_pcs s' u) = lq_owned (lq_pcs s u)"
    using dist Q p by (simp_all add: s')
  note c = countsD [OF d(4)]
  show "lq_counts s' (tl Q) P (h # R)"
  proof (rule countsI, unfold pl(2,4) del own)
    show "m = hd (tl Q) \<or> m \<in> set (h # R)" if "m \<in> insert n (placed (D2 s))" for m
      using c(8) [of m] that Q by auto
    show "odd (lq_del s (hd (tl Q))) \<longleftrightarrow> hd (tl Q) \<notin> insert n (placed (D2 s))"
      using c(3) [of n] Q by simp
    show "m \<in> insert h (placed (D1 s)) \<or> m \<in> insert n (placed (D2 s))" if "m \<in> set (h # R)" for m
      using c(5) [of m] that by auto
    show "odd (lq_del s m) \<longleftrightarrow> \<not> (m \<in> insert h (placed (D1 s)) \<and> m \<in> insert n (placed (D2 s)))" if "m \<in> set (h # R)" for m
      using c(4) c(6) [of m] that R hn Q by auto
    show "even (lq_del s m)" if "m \<in> set (tl (tl Q))" for m
      using c(3) [of m] that Q by simp
  qed (use pl c(7) [where n = m for m] c(1,2) in auto)
  show "lq_rely {} s Q s' (tl Q)"
    using head loc Q by (intro lq_relyI) (auto simp: s' seen_null_def)
  show "lq_local s' (tl Q) t (PO_Del1 h n)"
    using v by (simp add: s')
qed (use lq_okD(6) [OF ok] in \<open>simp_all add: s'\<close>)

text \<open>
  The two increments of a node: the one who is second takes the node, the other leaves it to the second.
  \<open>A\<close> and \<open>B\<close> are the pending increments of the kind at hand and of the other kind.
\<close>

lemma step_del_take:
  assumes ok: "lq_ok s Q P R" and p: "lq_pcs s t = p" "lq_owned p = []" and R: "R = us @ x # vs"
    and q: "lq_owned q = [x]" and D: "placed (D1 s') = placed (D1 s) - {x}" "placed (D2 s') = placed (D2 s) - {x}"
      "places (D1 s')" "places (D2 s')"
    and odd: "odd (lq_del s x)"
    and s': "s' = lq_goto t q (s\<lparr>lq_del := (lq_del s)(x := lq_del s x + 1)\<rparr>)"
    and loc: "lq_local s' Q t q"
  shows "lq_ok s' Q P (us @ vs)"
proof (rule lq_ok_step [OF ok, of _ t q "{}"])
  note d = lq_okD [OF ok]
  note c = countsD [OF d(4)]
  have x: "x \<in> set R" "x \<notin> set Q" "x \<notin> set P" "\<And>u. x \<notin> set (lq_owned (lq_pcs s u))"
    using lq_nodes_apart(2,3,6) [OF d(1), of x] R by auto
  have dist: "distinct R"
    using d(1) places_distinct [of "nodes_at s Q P R" QL_Retired] by (auto simp: lq_nodes_def tracks_def)
  have Q: "hd Q \<in> set Q"
    using d(2) by (simp add: lq_links_def)
  have "tracks ((nodes_at s Q P R)(QL_Retired := us @ vs, QL_Thread t := [x])) (\<lambda>n. n < lq_fresh s)"
    using tracks_move [of "nodes_at s Q P R" _ QL_Retired us x vs "QL_Thread t" "[]" "[]"] d(1) R p by (simp add: lq_nodes_def)
  moreover have "nodes_at s' Q P (us @ vs) l = ((nodes_at s Q P R)(QL_Retired := us @ vs, QL_Thread t := [x])) l" for l
    using q by (cases l) (simp_all add: s')
  then have "nodes_at s' Q P (us @ vs) = (nodes_at s Q P R)(QL_Retired := us @ vs, QL_Thread t := [x])" ..
  ultimately show "lq_nodes s' Q P (us @ vs)" by (simp add: lq_nodes_def) (simp add: s')
  show "lq_links s' Q P" "lq_vals s' Q"
    using d(2,3) by (simp_all add: lq_links_def lq_vals_def s')
  have del: "lq_del s' m = (if m = x then lq_del s x + 1 else lq_del s m)" for m
    by (simp add: s')
  show "lq_counts s' Q P (us @ vs)"
  proof (rule countsI, unfold D(1,2))
    show "odd (lq_del s' (hd Q)) \<longleftrightarrow> hd Q \<notin> placed (D2 s) - {x}"
      using c(4) x Q by (auto simp: del)
    show "even (lq_del s' m)" if "m \<in> set (tl Q)" for m
      using c(3) [OF that] x that by (cases Q) (auto simp: del)
    show "even (lq_del s' m)" if "m \<in> set (lq_owned (lq_pcs s' u))" for u m
      using c(2) [of m u] that x(4) [of u] odd q by (auto simp: del) (auto simp: s' split: if_splits)
    show "m \<in> placed (D1 s) - {x} \<or> m \<in> placed (D2 s) - {x}" if "m \<in> set (us @ vs)" for m
      using c(5) [of m] that R dist by auto
    show "odd (lq_del s' m) \<longleftrightarrow> \<not> (m \<in> placed (D1 s) - {x} \<and> m \<in> placed (D2 s) - {x})" if "m \<in> set (us @ vs)" for m
      using c(6) [of m] that R dist by (auto simp: del)
    show "m = hd Q \<or> m \<in> set (us @ vs)" if "m \<in> placed (D2 s) - {x}" for m
      using c(8) [of m] that R by auto
    show "m \<in> set (us @ vs)" if "m \<in> placed (D1 s) - {x}" for m
      using c(7) [of m] that R by auto
    show "even (lq_del s' m)" if "m \<in> set P" for m
      using c(1) [OF that] x that by (auto simp: del)
  qed (use D in simp_all)
  show "lq_rely {} s Q s' Q"
    by (intro lq_relyI) (auto simp: s' seen_null_def)
qed (use lq_okD(6) [OF ok] loc in \<open>simp_all add: s'\<close>)

lemma step_del_leave:
  assumes ok: "lq_ok s Q P R" and p: "lq_pcs s t = p" "lq_owned p = []"
    and q: "lq_owned q = []" and D: "places (D1 s')" "places (D2 s')"
      "placed (D1 s') \<subseteq> placed (D1 s)" "placed (D2 s') \<subseteq> placed (D2 s)"
    and x: "x \<in> set R \<Longrightarrow> (x \<in> placed (D1 s')) \<noteq> (x \<in> placed (D2 s'))" "x = hd Q \<Longrightarrow> x \<notin> placed (D2 s')" "x = hd Q \<or> x \<in> set R"
    and other: "\<And>m. m \<noteq> x \<Longrightarrow> m \<in> placed (D1 s') \<longleftrightarrow> m \<in> placed (D1 s)" "\<And>m. m \<noteq> x \<Longrightarrow> m \<in> placed (D2 s') \<longleftrightarrow> m \<in> placed (D2 s)"
    and even: "even (lq_del s x)"
    and s': "s' = lq_goto t q (s\<lparr>lq_del := (lq_del s)(x := lq_del s x + 1)\<rparr>)"
    and loc: "lq_local s' Q t q"
  shows "lq_ok s' Q P R"
proof (rule lq_ok_step [OF ok, of _ t q "{}"])
  note d = lq_okD [OF ok]
  note c = countsD [OF d(4)]
  have Q: "hd Q \<in> set Q"
    using d(2) by (simp add: lq_links_def)
  have out: "x \<notin> set P" "\<And>u. x \<notin> set (lq_owned (lq_pcs s u))"
    using lq_nodes_apart(1,3,4,6) [OF d(1), of x] x(3) Q by auto
  have dist: "distinct Q"
    using d(1) places_distinct [of "nodes_at s Q P R" QL_Queue] by (auto simp: lq_nodes_def tracks_def)
  have tlQ: "x \<notin> set (tl Q)"
    using x(3) Q dist lq_nodes_apart(2) [OF d(1), of x] by (cases Q) auto
  have "nodes_at s' Q P R = nodes_at s Q P R"
    using p q by (intro nodes_at_cong [of _ t]) (auto simp: s')
  then show "lq_nodes s' Q P R"
    using d(1) by (simp add: lq_nodes_def) (simp add: s')
  show "lq_links s' Q P" "lq_vals s' Q"
    using d(2,3) by (simp_all add: lq_links_def lq_vals_def s')
  have del: "lq_del s' m = (if m = x then lq_del s x + 1 else lq_del s m)" for m
    by (simp add: s')
  show "lq_counts s' Q P R"
  proof (rule countsI)
    show "odd (lq_del s' (hd Q)) \<longleftrightarrow> hd Q \<notin> placed (D2 s')"
      using c(4) x(2) other(2) [of "hd Q"] even by (cases "hd Q = x") (auto simp: del)
    show "even (lq_del s' m)" if "m \<in> set (tl Q)" for m
      using c(3) [OF that] tlQ that by (auto simp: del)
    show "even (lq_del s' m)" if "m \<in> set (lq_owned (lq_pcs s' u))" for u m
    proof -
      have "m \<in> set (lq_owned (lq_pcs s u))"
        using that q by (auto simp: s' split: if_splits)
      with c(2) [of m u] out(2) [of u] show ?thesis by (auto simp: del)
    qed
    show "m \<in> placed (D1 s') \<or> m \<in> placed (D2 s')" if "m \<in> set R" for m
      using c(5) [OF that] x(1) other [of m] that by (cases "m = x") auto
    show "odd (lq_del s' m) \<longleftrightarrow> \<not> (m \<in> placed (D1 s') \<and> m \<in> placed (D2 s'))" if "m \<in> set R" for m
      using c(6) [OF that] x(1) other [of m] that even by (cases "m = x") (auto simp: del)
    show "m = hd Q \<or> m \<in> set R" if "m \<in> placed (D2 s')" for m
      using c(8) [of m] D(4) that by auto
    show "m \<in> set R" if "m \<in> placed (D1 s')" for m
      using c(7) [of m] D(3) that by auto
    show "even (lq_del s' m)" if "m \<in> set P" for m
      using c(1) [OF that] out that by (auto simp: del)
  qed (use D in simp_all)
  show "lq_rely {} s Q s' Q"
    by (intro lq_relyI) (auto simp: s' seen_null_def)
qed (use lq_okD(6) [OF ok] loc in \<open>simp_all add: s'\<close>)

lemma step_del1:
  assumes ok: "lq_ok s Q P R" and p: "lq_pcs s t = PO_Del1 h n"
  shows "\<exists>R'. lq_ok (try_del t h (Then_Value n) s) Q P R'"
proof -
  note d = lq_okD [OF ok]
  note c = countsD [OF d(4)]
  let ?s = "try_del t h (Then_Value n) s"
  have D: "D1 ?s = (D1 s)(t := [])" "D1 s t = [h]" "D2 ?s = D2 s"
    using p by (auto simp: try_del_def D1_def D2_def fun_eq_iff)
  have pl: "places (D1 ?s)" "placed (D1 ?s) = placed (D1 s) - {h}"
    using places_tl [OF c(9) D(2)] D(1) by simp_all
  have h1: "h \<in> placed (D1 s)"
    using D(2) by (intro placedI [of h _ t]) simp
  then have hR: "h \<in> set R" by (rule c(7))
  then have hQ: "h \<noteq> hd Q"
    using lq_nodes_apart(2) [OF d(1), of h] d(2) by (cases Q) (auto simp: lq_links_def)
  show ?thesis
  proof (cases "odd (lq_del s h)")
    case True
    then have "h \<notin> placed (D2 s)"
      using c(6) [OF hR] h1 by simp
    then have "placed (D2 ?s) = placed (D2 s) - {h}"
      using D(3) by simp
    moreover obtain us vs where "R = us @ h # vs"
      using split_list [OF hR] by blast
    ultimately have "lq_ok ?s Q P (us @ vs)"
      using True pl c(10) D(3) d(5) [of t] p
      by (intro step_del_take [OF ok p, where q = "TP_Top h (Then_Value n)"]) (auto simp: try_del_def odd_iff_mod_2_eq_one)
    then show ?thesis ..
  next
    case False
    then have "h \<in> placed (D2 s)"
      using c(6) [OF hR] by simp
    then have "lq_ok ?s Q P R"
      using False pl c(10) D(3) d(5) [of t] p hR hQ
      by (intro step_del_leave [OF ok p, where q = "PO_Val n" and x = h]) (auto simp: try_del_def odd_iff_mod_2_eq_one)
    then show ?thesis ..
  qed
qed

lemma step_del2:
  assumes ok: "lq_ok s Q P R" and p: "lq_pcs s t = PO_Del2 n v"
  shows "\<exists>R'. lq_ok (try_del t n (Then_Return v) s) Q P R'"
proof -
  note d = lq_okD [OF ok]
  note c = countsD [OF d(4)]
  let ?s = "try_del t n (Then_Return v) s"
  have D: "D2 ?s = (D2 s)(t := [])" "D2 s t = [n]" "D1 ?s = D1 s"
    using p by (auto simp: try_del_def D1_def D2_def fun_eq_iff)
  have pl: "places (D2 ?s)" "placed (D2 ?s) = placed (D2 s) - {n}"
    using places_tl [OF c(10) D(2)] D(1) by simp_all
  have n2: "n \<in> placed (D2 s)"
    using D(2) by (intro placedI [of n _ t]) simp
  then have n: "n = hd Q \<or> n \<in> set R" by (rule c(8))
  have v: "lq_res s t \<noteq> None" "v = lq_res s t"
    using d(5) [of t] p by simp_all
  show ?thesis
  proof (cases "odd (lq_del s n)")
    case True
    then have nR: "n \<in> set R"
      using n n2 c(4) by auto
    then have "n \<notin> placed (D1 s)"
      using c(6) [OF nR] True n2 by simp
    then have "placed (D1 ?s) = placed (D1 s) - {n}"
      using D(3) by simp
    moreover obtain us vs where "R = us @ n # vs"
      using split_list [OF nR] by blast
    ultimately have "lq_ok ?s Q P (us @ vs)"
      using True pl c(9) D(3) v
      by (intro step_del_take [OF ok p, where q = "TP_Top n (Then_Return v)"]) (auto simp: try_del_def odd_iff_mod_2_eq_one)
    then show ?thesis ..
  next
    case False
    have n1: "n \<in> placed (D1 s)" if "n \<in> set R"
      using c(6) [OF that] False by simp
    have "lq_ok ?s Q P R"
    proof (rule step_del_leave [OF ok p, where q = "LQ_Idle (Some v)" and x = n])
      show "(n \<in> placed (D1 ?s)) \<noteq> (n \<in> placed (D2 ?s))" if "n \<in> set R"
        using n1 [OF that] by (simp add: pl(2) D(3))
      show "?s = lq_goto t (LQ_Idle (Some v)) (s\<lparr>lq_del := (lq_del s)(n := lq_del s n + 1)\<rparr>)"
        using False by (simp add: try_del_def odd_iff_mod_2_eq_one)
      show "lq_local ?s Q t (LQ_Idle (Some v))"
        using v by (auto simp: try_del_def)
    qed (use False n pl c(9) in \<open>simp_all add: D(3)\<close>)
    then show ?thesis ..
  qed
qed

section \<open>The invariant holds\<close>

lemma lq_wrapped_setters [simp]:
  "lq_wrapped (set_head p k s) \<longleftrightarrow> lq_wrapped s \<or> k + 1 \<ge> 2 ^ 16" "lq_wrapped (set_tail p k s) \<longleftrightarrow> lq_wrapped s \<or> k + 1 \<ge> 2 ^ 16"
  "lq_wrapped (set_top p k s) \<longleftrightarrow> lq_wrapped s \<or> k + 1 \<ge> 2 ^ 16" "lq_wrapped (set_next n p k s) \<longleftrightarrow> lq_wrapped s \<or> k + 1 \<ge> 2 ^ 16"
  by (simp_all add: set_head_def set_tail_def set_top_def set_next_def lq_stamp_def)

lemmas lq_act_defs = pool_load_def new_node_def pool_cas_def reuse_node_def push_load_tail_def push_check_def push_link_def
  advance_tail_def pop_load_head_def pop_check_def pop_cas_head_def try_del_def pool_push_cas_def

lemma lq_wrapped_mono:
  assumes "lq_step e s = Some s'" "lq_wrapped s"
  shows "lq_wrapped s'"
proof (cases e)
  case (LQ_Step t b)
  with assms show ?thesis
    by (cases "lq_pcs s t") (auto simp: lq_act_defs split: option.splits prod.splits if_splits)
qed (use assms in \<open>auto split: lq_pc.splits\<close>)

lemma inv_advance_tail:
  assumes ok: "lq_ok s Q P R" and p: "lq_pcs s t = p" and same: "lq_owned q = lq_owned p" "lq_del1 q = lq_del1 p" "lq_del2 q = lq_del2 p"
    and T: "lq_tail s = T \<Longrightarrow> \<exists>a. fst T = Some a \<and> fst (lq_next s a) = Some m"
    and loc: "\<And>s'. lq_next s' = lq_next s \<Longrightarrow> lq_val s' = lq_val s \<Longrightarrow> lq_local s' Q t q"
    and w: "\<not> lq_wrapped (lq_goto t q (advance_tail T m spurious s))"
  shows "lq_ok (lq_goto t q (advance_tail T m spurious s)) Q P R"
proof (cases "lq_tail s = T \<and> \<not> spurious")
  case True
  then obtain a k where a: "T = (Some a, k)" "fst (lq_next s a) = Some m"
    using T by (cases T) auto
  have s': "lq_goto t q (advance_tail T m spurious s) = lq_goto t q (s\<lparr>lq_tail := (Some m, Suc k)\<rparr>)"
    using True w a by (simp add: advance_tail_def unwrapped(2))
  have "lq_local (lq_goto t q (advance_tail T m spurious s)) Q t q"
    unfolding s' by (rule loc) simp_all
  with True a show ?thesis
    by (intro step_tail [OF ok p _ a(2) same s']) simp_all
next
  case False
  then have "lq_goto t q (advance_tail T m spurious s) = lq_goto t q s"
    by (auto simp: advance_tail_def)
  then show ?thesis
    using lq_ok_goto1 [OF ok p same] loc by simp
qed

lemma lq_ok_head:
  assumes ok: "lq_ok s Q P R" and h: "lq_head s = (Some h, k)"
  shows "\<exists>ms. Q = h # ms" "fst (lq_next s h) = None \<Longrightarrow> lq_pushed s = lq_popped s"
proof -
  show Q: "\<exists>ms. Q = h # ms"
    using lq_okD(2) [OF ok] h lq_chain_hd [of "lq_next s" h Q] by (auto simp: lq_links_def)
  then obtain ms where Q': "Q = h # ms" ..
  show "lq_pushed s = lq_popped s" if "fst (lq_next s h) = None"
  proof -
    have "ms = []"
      using lq_okD(2) [OF ok] Q' that by (cases ms) (auto simp: lq_links_def)
    then show ?thesis
      using lq_okD(3) [OF ok] Q' by (simp add: lq_vals_def)
  qed
qed

text \<open>The steps, by program point.\<close>

lemma act_PU_PoolTop:
  assumes ok: "lq_ok s Q P R" and p: "lq_pcs s t = PU_PoolTop v"
    and step: "lq_act t spurious (lq_pcs s t) s = Some s'" and w: "\<not> lq_wrapped s'"
  shows "lq_safe s'"
proof -
  show ?thesis
  proof (cases "lq_top s")
    case (Pair x k)
    show ?thesis
    proof (cases x)
      case None
      with Pair step p show ?thesis
        using step_new_node [OF ok p refl refl] by (auto intro: lq_safeI simp: pool_load_def new_node_def)
    next
      case (Some n)
      with Pair step p show ?thesis
        using lq_ok_goto1 [OF ok p, of "PU_PoolNext v n k"] by (auto intro: lq_safeI simp: pool_load_def)
    qed
  qed
qed

lemma act_PU_PoolNext:
  assumes ok: "lq_ok s Q P R" and p: "lq_pcs s t = PU_PoolNext v n k"
    and step: "lq_act t spurious (lq_pcs s t) s = Some s'" and w: "\<not> lq_wrapped s'"
  shows "lq_safe s'"
  using p step lq_okD(5) [OF ok, of t] lq_ok_goto1 [OF ok p, of "PU_PoolCas v n k (fst (lq_next s n))"] by (auto intro: lq_safeI)

lemma act_PU_PoolCas:
  assumes ok: "lq_ok s Q P R" and p: "lq_pcs s t = PU_PoolCas v n k nxt"
    and step: "lq_act t spurious (lq_pcs s t) s = Some s'" and w: "\<not> lq_wrapped s'"
  shows "lq_safe s'"
proof -
  show ?thesis
  proof (cases "lq_top s = (Some n, k) \<and> \<not> spurious")
    case True
    with step p w show ?thesis
      using step_pool_pop [OF ok p _ refl] by (auto intro: lq_safeI simp: pool_cas_def unwrapped(3))
  next
    case False
    then have "s' = lq_goto t (PU_PoolTop v) s"
      using step p by (auto intro: lq_safeI simp: pool_cas_def)
    then show ?thesis
      using lq_ok_goto1 [OF ok p, of "PU_PoolTop v"] by (auto intro: lq_safeI)
  qed
qed

lemma act_PU_Init:
  assumes ok: "lq_ok s Q P R" and p: "lq_pcs s t = PU_Init v n"
    and step: "lq_act t spurious (lq_pcs s t) s = Some s'" and w: "\<not> lq_wrapped s'"
  shows "lq_safe s'"
  using p step w step_reuse [OF ok p refl] by (auto intro: lq_safeI simp: reuse_node_def unwrapped(4))

lemma act_PU_Tail:
  assumes ok: "lq_ok s Q P R" and p: "lq_pcs s t = PU_Tail n"
    and step: "lq_act t spurious (lq_pcs s t) s = Some s'" and w: "\<not> lq_wrapped s'"
  shows "lq_safe s'"
proof -
  obtain a k where T: "lq_tail s = (Some a, k)"
    using lq_okD(2) [OF ok] by (cases "lq_tail s") (auto simp: lq_links_def)
  then show ?thesis
    using step p lq_okD(5) [OF ok, of t] lq_ok_goto1 [OF ok p, of "PU_Next n a k"]
    by (auto intro: lq_safeI simp: push_load_tail_def node_ready_def)
qed

lemma act_PU_Next:
  assumes ok: "lq_ok s Q P R" and p: "lq_pcs s t = PU_Next n a k"
    and step: "lq_act t spurious (lq_pcs s t) s = Some s'" and w: "\<not> lq_wrapped s'"
  shows "lq_safe s'"
proof -
  have "seen_null s Q a (snd (lq_next s a))" if "lq_tail s = (Some a, k)" "fst (lq_next s a) = None"
  proof -
    have "a \<in> set Q"
      using lq_okD(2) [OF ok] that(1) by (auto intro: lq_safeI simp: lq_links_def)
    with lq_nodes_apart(8) [OF lq_okD(1) [OF ok] this] that(2) show ?thesis
      by (cases "lq_next s a") (auto simp: seen_null_def)
  qed
  then have "lq_local (lq_goto t (PU_Check n a k (lq_next s a)) s) Q t (PU_Check n a k (lq_next s a))"
    using p lq_okD(5) [OF ok, of t] by (cases "fst (lq_next s a)") (auto simp: node_ready_def seen_null_def)
  then show ?thesis
    using step p lq_ok_goto1 [OF ok p, of "PU_Check n a k (lq_next s a)"] by (auto intro: lq_safeI simp del: lq_local.simps)
qed

lemma act_PU_Check:
  assumes ok: "lq_ok s Q P R" and p: "lq_pcs s t = PU_Check n a k nxt"
    and step: "lq_act t spurious (lq_pcs s t) s = Some s'" and w: "\<not> lq_wrapped s'"
  shows "lq_safe s'"
proof -
  have loc: "lq_local s Q t (PU_Check n a k nxt)"
    using lq_okD(5) [OF ok, of t] p by simp
  obtain x j where nxt: "nxt = (x, j)" by (cases nxt)
  show ?thesis
  proof (cases "lq_tail s = (Some a, k)")
    case False
    then have "s' = lq_goto t (PU_Tail n) s"
      using step p by (simp add: push_check_def)
    then show ?thesis
      using lq_ok_goto1 [OF ok p, of "PU_Tail n"] loc by (auto intro: lq_safeI simp: node_ready_def)
  next
    case True
    show ?thesis
    proof (cases x)
      case None
      with True step p nxt have "s' = lq_goto t (PU_Link n a k j) s"
        by (simp add: push_check_def)
      then show ?thesis
        using lq_ok_goto1 [OF ok p, of "PU_Link n a k j"] loc True nxt None by (auto intro: lq_safeI simp: node_ready_def seen_null_def)
    next
      case (Some m)
      with True step p nxt have "s' = lq_goto t (PU_Help n a k m) s"
        by (simp add: push_check_def)
      then show ?thesis
        using lq_ok_goto1 [OF ok p, of "PU_Help n a k m"] loc True nxt Some by (auto intro: lq_safeI simp: node_ready_def)
    qed
  qed
qed

lemma act_PU_Link:
  assumes ok: "lq_ok s Q P R" and p: "lq_pcs s t = PU_Link n a k j"
    and step: "lq_act t spurious (lq_pcs s t) s = Some s'" and w: "\<not> lq_wrapped s'"
  shows "lq_safe s'"
proof -
  have loc: "lq_local s Q t (PU_Link n a k j)"
    using lq_okD(5) [OF ok, of t] p by simp
  show ?thesis
  proof (cases "lq_next s a = (nullptr, j) \<and> \<not> spurious")
    case True
    with step p w have "s' = lq_goto t (PU_Swing n a k) (s\<lparr>lq_next := (lq_next s)(a := (Some n, Suc j)),
        lq_pushed := lq_pushed s @ (case lq_val s n of None \<Rightarrow> [] | Some v \<Rightarrow> [v])\<rparr>)"
      by (auto intro: lq_safeI simp: push_link_def unwrapped(4))
    then show ?thesis
      using step_link [OF ok p] True by (blast intro: lq_safeI)
  next
    case False
    then have "s' = lq_goto t (PU_Tail n) s"
      using step p by (auto intro: lq_safeI simp: push_link_def)
    then show ?thesis
      using lq_ok_goto1 [OF ok p, of "PU_Tail n"] loc by (auto intro: lq_safeI simp: node_ready_def)
  qed
qed

lemma act_PU_Help:
  assumes ok: "lq_ok s Q P R" and p: "lq_pcs s t = PU_Help n a k m"
    and step: "lq_act t spurious (lq_pcs s t) s = Some s'" and w: "\<not> lq_wrapped s'"
  shows "lq_safe s'"
proof -
  have "lq_local s Q t (PU_Help n a k m)"
    using lq_okD(5) [OF ok, of t] p by simp
  then show ?thesis
    using step p w inv_advance_tail [OF ok p, of "PU_Tail n" "(Some a, k)" m spurious] by (auto intro: lq_safeI simp: node_ready_def)
qed

lemma act_PU_Swing:
  assumes ok: "lq_ok s Q P R" and p: "lq_pcs s t = PU_Swing n a k"
    and step: "lq_act t spurious (lq_pcs s t) s = Some s'" and w: "\<not> lq_wrapped s'"
  shows "lq_safe s'"
proof -
  have "lq_local s Q t (PU_Swing n a k)"
    using lq_okD(5) [OF ok, of t] p by simp
  then show ?thesis
    using step p w inv_advance_tail [OF ok p, of "LQ_Idle None" "(Some a, k)" n spurious] by (auto intro: lq_safeI)
qed

lemma act_PO_Head:
  assumes ok: "lq_ok s Q P R" and p: "lq_pcs s t = PO_Head"
    and step: "lq_act t spurious (lq_pcs s t) s = Some s'" and w: "\<not> lq_wrapped s'"
  shows "lq_safe s'"
proof -
  obtain h k where h: "lq_head s = (Some h, k)"
    using lq_okD(2) [OF ok] by (cases "lq_head s"; cases Q) (auto simp: lq_links_def)
  then show ?thesis
    using step p lq_ok_goto1 [OF ok p, of "PO_Next h k"] by (auto intro: lq_safeI simp: pop_load_head_def)
qed

lemma act_PO_Next:
  assumes ok: "lq_ok s Q P R" and p: "lq_pcs s t = PO_Next h k"
    and step: "lq_act t spurious (lq_pcs s t) s = Some s'" and w: "\<not> lq_wrapped s'"
  shows "lq_safe s'"
proof -
  have "lq_ok s' Q P R"
    using step p lq_okD(5) [OF ok, of t] lq_ok_head(2) [OF ok, of h k]
    by (intro lq_ok_goto [where q = "PO_Tail h k (fst (lq_next s h))" and r = "lq_res s"
          and e = "(lq_empty s)(t := (lq_pushed s = lq_popped s))", OF ok p]) (auto split: option.splits)
  then show ?thesis by (blast intro: lq_safeI)
qed

lemma act_PO_Tail:
  assumes ok: "lq_ok s Q P R" and p: "lq_pcs s t = PO_Tail h k nxt"
    and step: "lq_act t spurious (lq_pcs s t) s = Some s'" and w: "\<not> lq_wrapped s'"
  shows "lq_safe s'"
  using p step lq_okD(5) [OF ok, of t] lq_ok_goto1 [OF ok p, of "PO_Check h k nxt (lq_tail s)"] by (auto intro: lq_safeI split: option.splits)

lemma act_PO_Check:
  assumes ok: "lq_ok s Q P R" and p: "lq_pcs s t = PO_Check h k nxt T"
    and step: "lq_act t spurious (lq_pcs s t) s = Some s'" and w: "\<not> lq_wrapped s'"
  shows "lq_safe s'"
proof -
  have loc: "lq_local s Q t (PO_Check h k nxt T)"
    using lq_okD(5) [OF ok, of t] p by simp
  have go: ?thesis if "s' = lq_goto t q s" "lq_owned q = []" "lq_del1 q = []" "lq_del2 q = []" "lq_local (lq_goto t q s) Q t q" for q
    using lq_ok_goto1 [OF ok p, of q] that by (auto intro: lq_safeI)
  show ?thesis
  proof (cases "lq_head s = (Some h, k)")
    case False
    with step p show ?thesis
      by (intro go [of PO_Head]) (auto simp: pop_check_def)
  next
    case h: True
    show ?thesis
    proof (cases "fst T = Some h")
      case T: True
      show ?thesis
      proof (cases nxt)
        case None
        with h T step p loc show ?thesis
          by (intro go [of "LQ_Idle (Some None)"]) (auto simp: pop_check_def)
      next
        case (Some n)
        with h T step p loc show ?thesis
          by (intro go [of "PO_Help T n"]) (auto simp: pop_check_def)
      qed
    next
      case T: False
      show ?thesis
      proof (cases nxt)
        case None
        with h T step p loc show ?thesis
          by (intro go [of PO_Head]) (auto simp: pop_check_def)
      next
        case (Some n)
        with h T step p loc show ?thesis
          by (intro go [of "PO_Cas h k n"]) (auto simp: pop_check_def)
      qed
    qed
  qed
qed

lemma act_PO_Cas:
  assumes ok: "lq_ok s Q P R" and p: "lq_pcs s t = PO_Cas h k n"
    and step: "lq_act t spurious (lq_pcs s t) s = Some s'" and w: "\<not> lq_wrapped s'"
  shows "lq_safe s'"
proof -
  show ?thesis
  proof (cases "lq_head s = (Some h, k) \<and> \<not> spurious")
    case True
    with step p w have "s' = lq_goto t (PO_Del1 h n) (s\<lparr>lq_head := (Some n, Suc k),
        lq_popped := lq_popped s @ (case lq_val s n of None \<Rightarrow> [] | Some v \<Rightarrow> [v]), lq_res := (lq_res s)(t := lq_val s n)\<rparr>)"
      by (auto intro: lq_safeI simp: pop_cas_head_def unwrapped(1))
    then show ?thesis
      using step_head [OF ok p] True by (blast intro: lq_safeI)
  next
    case False
    then have "s' = lq_goto t PO_Head s"
      using step p by (auto intro: lq_safeI simp: pop_cas_head_def)
    then show ?thesis
      using lq_ok_goto1 [OF ok p, of PO_Head] by (auto intro: lq_safeI)
  qed
qed

lemma act_PO_Help:
  assumes ok: "lq_ok s Q P R" and p: "lq_pcs s t = PO_Help T n"
    and step: "lq_act t spurious (lq_pcs s t) s = Some s'" and w: "\<not> lq_wrapped s'"
  shows "lq_safe s'"
proof -
  have "lq_local s Q t (PO_Help T n)"
    using lq_okD(5) [OF ok, of t] p by simp
  then show ?thesis
    using step p w inv_advance_tail [OF ok p, of PO_Head T n spurious] by (auto intro: lq_safeI)
qed

lemma act_PO_Del1:
  assumes ok: "lq_ok s Q P R" and p: "lq_pcs s t = PO_Del1 h n"
    and step: "lq_act t spurious (lq_pcs s t) s = Some s'" and w: "\<not> lq_wrapped s'"
  shows "lq_safe s'"
  using p step step_del1 [OF ok p] by (auto intro: lq_safeI)

lemma act_PO_Val:
  assumes ok: "lq_ok s Q P R" and p: "lq_pcs s t = PO_Val n"
    and step: "lq_act t spurious (lq_pcs s t) s = Some s'" and w: "\<not> lq_wrapped s'"
  shows "lq_safe s'"
  using p step lq_okD(5) [OF ok, of t] lq_ok_goto1 [OF ok p, of "PO_Del2 n (lq_val s n)"] by (auto intro: lq_safeI)

lemma act_PO_Del2:
  assumes ok: "lq_ok s Q P R" and p: "lq_pcs s t = PO_Del2 n v"
    and step: "lq_act t spurious (lq_pcs s t) s = Some s'" and w: "\<not> lq_wrapped s'"
  shows "lq_safe s'"
  using p step step_del2 [OF ok p] by (auto intro: lq_safeI)

lemma act_TP_Top:
  assumes ok: "lq_ok s Q P R" and p: "lq_pcs s t = TP_Top n c"
    and step: "lq_act t spurious (lq_pcs s t) s = Some s'" and w: "\<not> lq_wrapped s'"
  shows "lq_safe s'"
proof -
  have "cont_ok s t c"
    using lq_okD(5) [OF ok, of t] p by simp
  then have "cont_ok (lq_goto t (TP_Old n c (lq_top s)) s) t c" by (cases c) auto
  then show ?thesis
    using step p lq_ok_goto1 [OF ok p, of "TP_Old n c (lq_top s)"] by (auto intro: lq_safeI)
qed

lemma act_TP_Old:
  assumes ok: "lq_ok s Q P R" and p: "lq_pcs s t = TP_Old n c T"
    and step: "lq_act t spurious (lq_pcs s t) s = Some s'" and w: "\<not> lq_wrapped s'"
  shows "lq_safe s'"
proof -
  let ?q = "TP_Store n c T (snd (lq_next s n))"
  have "cont_ok s t c"
    using lq_okD(5) [OF ok, of t] p by simp
  then have "cont_ok (lq_goto t ?q s) t c" by (cases c) auto
  then show ?thesis
    using step p lq_ok_goto1 [OF ok p, of ?q] by (auto intro: lq_safeI)
qed

lemma act_TP_Store:
  assumes ok: "lq_ok s Q P R" and p: "lq_pcs s t = TP_Store n c T k"
    and step: "lq_act t spurious (lq_pcs s t) s = Some s'" and w: "\<not> lq_wrapped s'"
  shows "lq_safe s'"
  using p step w step_store [OF ok p refl] by (auto intro: lq_safeI simp: unwrapped(4))

lemma act_TP_Cas:
  assumes ok: "lq_ok s Q P R" and p: "lq_pcs s t = TP_Cas n c T k"
    and step: "lq_act t spurious (lq_pcs s t) s = Some s'" and w: "\<not> lq_wrapped s'"
  shows "lq_safe s'"
proof -
  have loc: "cont_ok s t c" "lq_next s n = (fst T, Suc k)"
    using lq_okD(5) [OF ok, of t] p by simp_all
  show ?thesis
  proof (cases "lq_top s = T \<and> \<not> spurious")
    case True
    with step p w show ?thesis
      using step_pool_push [OF ok p _ refl] by (auto intro: lq_safeI simp: pool_push_cas_def unwrapped(3))
  next
    case False
    let ?q = "TP_Store n c (lq_top s) k"
    have "s' = lq_goto t ?q s"
      using step p False by (auto intro: lq_safeI simp: pool_push_cas_def)
    moreover have "cont_ok (lq_goto t ?q s) t c"
      using loc(1) by (cases c) auto
    ultimately show ?thesis
      using lq_ok_goto1 [OF ok p, of ?q] loc(2) by (auto intro: lq_safeI)
  qed
qed

lemmas lq_acts = act_PU_PoolTop act_PU_PoolNext act_PU_PoolCas act_PU_Init act_PU_Tail act_PU_Next
  act_PU_Check act_PU_Link act_PU_Help act_PU_Swing act_PO_Head act_PO_Next act_PO_Tail act_PO_Check
  act_PO_Cas act_PO_Help act_PO_Del1 act_PO_Val act_PO_Del2 act_TP_Top act_TP_Old act_TP_Store act_TP_Cas

lemma lq_ok_act:
  assumes ok: "lq_ok s Q P R" and step: "lq_act t spurious (lq_pcs s t) s = Some s'" and w: "\<not> lq_wrapped s'"
  shows "lq_safe s'"
  using lq_acts [OF ok _ step w] step by (cases "lq_pcs s t") simp_all

lemma lq_ok_begin:
  assumes ok: "lq_ok s Q P R" and step: "lq_step e s = Some s'" and e: "\<And>t b. e \<noteq> LQ_Step t b"
  shows "lq_ok s' Q P R"
proof (cases e)
  case (LQ_Push t v)
  then obtain r where p: "lq_pcs s t = LQ_Idle r" and s': "s' = lq_goto t (PU_PoolTop v) s"
    using step by (auto split: lq_pc.splits)
  show ?thesis
    unfolding s' by (rule lq_ok_goto1 [OF ok p]) simp_all
next
  case (LQ_TryPop t)
  then obtain r where p: "lq_pcs s t = LQ_Idle r"
    and s': "s' = lq_goto t PO_Head (s\<lparr>lq_res := (lq_res s)(t := None), lq_empty := (lq_empty s)(t := False)\<rparr>)"
    using step by (auto split: lq_pc.splits)
  show ?thesis
    by (rule lq_ok_goto [where q = PO_Head and r = "(lq_res s)(t := None)" and e = "(lq_empty s)(t := False)", OF ok p])
      (simp_all add: s')
qed (use e in blast)

interpretation lock_free_queue: transition_invariant lq_step "LockFreeQueue :: 'v lfq" lq_inv
proof
  let ?s = "LockFreeQueue :: 'v lfq"
  have "nodes_at ?s [0] [] [] = (\<lambda>l. [])(QL_Queue := 0 # (\<lambda>l. []) QL_Queue)"
    by (rule ext, case_tac x) (simp_all add: LockFreeQueue_def)
  moreover have "(\<lambda>n. n < lq_fresh ?s) = (\<lambda>x. False)(0 := True)"
    by (auto simp: LockFreeQueue_def fun_eq_iff)
  ultimately have "lq_nodes ?s [0] [] []"
    unfolding lq_nodes_def using tracks_take [OF tracks_empty, of QL_Queue 0] by simp
  moreover have "D1 ?s = (\<lambda>t. [])" "D2 ?s = (\<lambda>t. [])"
    by (simp_all add: D1_def D2_def LockFreeQueue_def)
  then have "lq_counts ?s [0] [] []"
    unfolding lq_counts_def by (simp add: places_empty) (simp add: LockFreeQueue_def)
  ultimately have "lq_ok ?s [0] [] []"
    by (simp add: lq_ok_def) (simp add: LockFreeQueue_def lq_links_def lq_vals_def)
  then show "lq_inv ?s"
    by (auto simp: lq_inv_def intro: lq_safeI)
next
  fix s s' :: "'v lfq" and e
  assume inv: "lq_inv s" and step: "lq_step e s = Some s'"
  show "lq_inv s'"
  proof (cases "lq_wrapped s'")
    case False
    then have "\<not> lq_wrapped s"
      using lq_wrapped_mono [OF step] by blast
    with inv obtain Q P R where ok: "lq_ok s Q P R"
      by (auto simp: lq_inv_def lq_safe_def)
    show ?thesis
    proof (cases e)
      case (LQ_Step t b)
      with step lq_ok_act [OF ok, of t b s'] False show ?thesis
        by (simp add: lq_inv_def)
    qed (use lq_ok_begin [OF ok step] lq_safeI in \<open>auto simp: lq_inv_def\<close>)
  qed (simp add: lq_inv_def)
qed

text \<open>Deleting a list whose nodes are not deleted yet ends, and deletes just them.\<close>

lemma delete_nodes_chain:
  "lq_chain nx p ns \<Longrightarrow> distinct (freed @ ns) \<Longrightarrow> delete_nodes nx p freed = Some (Inr (freed @ ns))"
proof (induction ns arbitrary: p freed)
  case Nil
  then show ?case by (simp add: delete_nodes.simps)
next
  case (Cons n ns)
  then show ?case
    using Cons.IH [of "fst (nx n)" "freed @ [n]"] by (simp add: delete_nodes.simps)
qed

text \<open>While no call is in progress every node is in the queue or in the pool.\<close>

lemma lq_quiescent_nodes:
  assumes ok: "lq_ok s Q P R" and idle: "\<And>t. \<exists>r. lq_pcs s t = LQ_Idle r"
  shows "distinct (Q @ P)" "set (Q @ P) = {n. n < lq_fresh s}"
proof -
  note d = lq_okD [OF ok]
  have v: "lq_owned (lq_pcs s t) = []" "lq_del1 (lq_pcs s t) = []" "lq_del2 (lq_pcs s t) = []" for t
    using idle [of t] by auto
  then have "placed (D1 s) = {}" "placed (D2 s) = {}"
    by (auto simp: D1_def D2_def placed_def)
  then have R: "R = []"
    using d(4) by (cases R) (auto simp: lq_counts_def)
  have n: "places (nodes_at s Q P R)" "placed (nodes_at s Q P R) = {n. n < lq_fresh s}"
    using d(1) by (auto simp: lq_nodes_def tracks_def)
  have "x \<in> placed (nodes_at s Q P R) \<longleftrightarrow> x \<in> set (Q @ P)" for x
  proof
    assume "x \<in> placed (nodes_at s Q P R)"
    then obtain l where "x \<in> set (nodes_at s Q P R l)"
      by (auto simp: placed_def)
    then show "x \<in> set (Q @ P)"
      by (cases l) (simp_all add: v R)
  next
    assume "x \<in> set (Q @ P)"
    then have "x \<in> set (nodes_at s Q P R QL_Queue) \<or> x \<in> set (nodes_at s Q P R QL_Pool)"
      by simp
    then show "x \<in> placed (nodes_at s Q P R)"
      by (auto simp: placed_def simp del: nodes_at.simps)
  qed
  with n(2) show "set (Q @ P) = {n. n < lq_fresh s}" by blast
  have "set Q \<inter> set P = {}"
    using places_unique [OF n(1), of _ QL_Queue QL_Pool] by auto
  with places_distinct [OF n(1), of QL_Queue] places_distinct [OF n(1), of QL_Pool]
  show "distinct (Q @ P)" by simp
qed

section \<open>Properties\<close>

text \<open>A value pushed by thread 0 and popped by thread 1: the old dummy is in the pool.\<close>

lemma lq_run:
  "\<exists>s :: nat lfq. reachable lq_step LockFreeQueue s \<and> \<not> lq_wrapped s \<and> lq_pcs s 1 = LQ_Idle (Some (Some 7)) \<and>
     (\<forall>t. \<exists>r. lq_pcs s t = LQ_Idle r) \<and> lq_fresh s = 2 \<and> lq_top s = (Some 0, 1)"
proof (rule exec_reachable_ex)
  show "\<exists>s :: nat lfq. exec lq_step LockFreeQueue
      ([LQ_Push 0 7] @ map (\<lambda>_. LQ_Step 0 False) [1..6] @ [LQ_TryPop 1] @ map (\<lambda>_. LQ_Step 1 False) [1..12]) = Some s \<and>
      \<not> lq_wrapped s \<and> lq_pcs s 1 = LQ_Idle (Some (Some 7)) \<and> (\<forall>t. \<exists>r. lq_pcs s t = LQ_Idle r) \<and>
      lq_fresh s = 2 \<and> lq_top s = (Some 0, 1)"
    by (simp add: LockFreeQueue_def lq_act_defs set_head_def set_tail_def set_top_def set_next_def lq_stamp_def inc_stamp_def
        upto.simps)
qed

text \<open>
  C6: the lock-free queue is linearizable. While no stamp has wrapped around, in every reachable
  state the values linked so far are, in order, those removed so far followed by the values of the
  nodes behind the dummy: pushes take effect when they link their node, pops when they move the
  head. A \<open>TryPop\<close> that returned a value returned the one its exchange of the head removed; one that
  returned nothing saw the queue empty during the call. No null pointer is dereferenced, and
  every node allocated is in one place only: in the queue, in the pool, owned by one thread, or
  waiting for one of the two who are done with it.
\<close>

theorem lock_free_queue_linearizable:
  assumes "reachable lq_step LockFreeQueue s" "\<not> lq_wrapped s"
  shows "\<not> lq_bad s \<and>
    (\<exists>Q P R. lq_chain (lq_next s) (fst (lq_head s)) Q \<and> Q \<noteq> [] \<and> lq_chain (lq_next s) (fst (lq_top s)) P \<and>
       lq_pushed s = lq_popped s @ map (\<lambda>n. the (lq_val s n)) (tl Q) \<and>
       places (nodes_at s Q P R) \<and> placed (nodes_at s Q P R) = {n. n < lq_fresh s}) \<and>
    (\<forall>t v. lq_pcs s t = LQ_Idle (Some (Some v)) \<longrightarrow> lq_res s t = Some v) \<and>
    (\<forall>t. lq_pcs s t = LQ_Idle (Some None) \<longrightarrow> lq_empty s t)"
proof -
  from lock_free_queue.reachable_inv [OF assms(1)] assms(2) obtain Q P R where ok: "lq_ok s Q P R"
    by (auto simp: lq_inv_def lq_safe_def)
  note d = lq_okD [OF ok]
  have "placed (nodes_at s Q P R) = {n. n < lq_fresh s}" "places (nodes_at s Q P R)"
    using d(1) by (auto simp: lq_nodes_def tracks_def)
  moreover have "lq_res s t = Some v" if "lq_pcs s t = LQ_Idle (Some (Some v))" for t v
    using d(5) [of t] that by simp
  moreover have "lq_empty s t" if "lq_pcs s t = LQ_Idle (Some None)" for t
    using d(5) [of t] that by simp
  ultimately show ?thesis
    using d(2,3,6) unfolding lq_links_def lq_vals_def by blast
qed

theorem lock_free_queue_linearizable_witness:
  "\<exists>s :: nat lfq. reachable lq_step LockFreeQueue s \<and> \<not> lq_wrapped s \<and> lq_pcs s 1 = LQ_Idle (Some (Some 7)) \<and>
     lq_res s 1 = Some 7 \<and> \<not> lq_bad s \<and> lq_fresh s = 2 \<and> lq_top s = (Some 0, 1)"
proof -
  from lq_run obtain s :: "nat lfq" where s: "reachable lq_step LockFreeQueue s" "\<not> lq_wrapped s"
    "lq_pcs s 1 = LQ_Idle (Some (Some 7))" "lq_fresh s = 2" "lq_top s = (Some 0, 1)" by blast
  with lock_free_queue_linearizable [OF s(1,2)] show ?thesis by blast
qed

text \<open>
  C18: the destructor of the queue, run while no call is in progress and if no stamp wrapped around,
  ends, uses no node after deleting it, and deletes every node ever allocated exactly once.
\<close>

theorem lock_free_queue_destructor:
  assumes "reachable lq_step LockFreeQueue s" "\<not> lq_wrapped s" "\<And>t. \<exists>r. lq_pcs s t = LQ_Idle r"
  shows "\<exists>ns. LockFreeQueue_destroy s = Some (Inr ns) \<and> distinct ns \<and> set ns = {n. n < lq_fresh s}"
proof -
  from lock_free_queue.reachable_inv [OF assms(1)] assms(2) obtain Q P R where ok: "lq_ok s Q P R"
    by (auto simp: lq_inv_def lq_safe_def)
  note nodes = lq_quiescent_nodes [OF ok assms(3)]
  have c: "lq_chain (lq_next s) (fst (lq_head s)) Q" "lq_chain (lq_next s) (fst (lq_top s)) P"
    using lq_okD(2) [OF ok] by (simp_all add: lq_links_def)
  have "LockFreeQueue_destroy s = Some (Inr (Q @ P))"
    using delete_nodes_chain [OF c(1), of "[]"] delete_nodes_chain [OF c(2), of Q] nodes(1)
    by (simp add: LockFreeQueue_destroy_def LockFreePool_destroy_def)
  with nodes show ?thesis by blast
qed

theorem lock_free_queue_destructor_witness:
  "\<exists>s :: nat lfq. reachable lq_step LockFreeQueue s \<and> lq_fresh s = 2 \<and>
     (\<exists>ns. LockFreeQueue_destroy s = Some (Inr ns) \<and> distinct ns \<and> set ns = {0, 1})"
proof -
  from lq_run obtain s :: "nat lfq" where s: "reachable lq_step LockFreeQueue s" "\<not> lq_wrapped s"
    "\<forall>t. \<exists>r. lq_pcs s t = LQ_Idle r" "lq_fresh s = 2" by blast
  have "{n. n < lq_fresh s} = {0, 1}"
    using s(4) by auto
  with lock_free_queue_destructor [OF s(1,2)] s(1,3,4) show ?thesis by auto
qed

end
