(* ===== verification/Shared_Ptr.thy ===== *)
theory Shared_Ptr
  imports Stamped_Ptr
begin

text \<open>
  \<open>lf/memory/atomic_shared_ptr.hpp\<close>: reference counting with a split counter.

  A block has a value and the two halves of its \<open>SplitCount\<close>. \<open>sp_handles t k\<close> is the \<open>k\<close>-th
  \<open>SharedPtr\<close> variable of thread \<open>t\<close>, \<open>sp_cells c\<close> the pointer and stamp of the \<open>c\<close>-th \<open>AtomicSharedPtr\<close>.
  A thread inside an operation has a list of actions still to do; each action is one atomic
  access. The counters are unbounded integers here. The source has \<open>int32_t\<close>, whose overflow is
  undefined behaviour: \<open>sp_overflow\<close> records that an addition left that range. The stamp is
  taken modulo \<open>2^16\<close>, and \<open>sp_wrapped\<close> records that the stamp of a non-null pointer wrapped around.
  Touching a deleted block sets \<open>sp_uaf\<close>.
\<close>

section \<open>Split counters\<close>

record split_count =
  sc_transient :: int
  sc_strong :: int

text \<open>
  The loop common to the three fetch-and-add functions: other threads may change the counter
  before each attempt, which may also fail spuriously.
\<close>

type_synonym sc_interference = "(split_count \<Rightarrow> split_count) \<times> bool"

fun fetch_add_loop :: "(split_count \<Rightarrow> split_count) \<Rightarrow> sc_interference list \<Rightarrow> split_count \<Rightarrow> split_count \<Rightarrow>
    (split_count \<times> split_count) option" where
  "fetch_add_loop add [] old_sc sc = None"
| "fetch_add_loop add ((env, spurious) # is) old_sc sc =
     (let sc = env sc
      in if sc = old_sc \<and> \<not> spurious then Some (old_sc, add old_sc) else fetch_add_loop add is sc sc)"

definition add_both :: "int \<Rightarrow> int \<Rightarrow> split_count \<Rightarrow> split_count" where
  "add_both transient_add strong_add sc =
     \<lparr>sc_transient = sc_transient sc + transient_add, sc_strong = sc_strong sc + strong_add\<rparr>"

definition FetchAddTransient :: "int \<Rightarrow> sc_interference list \<Rightarrow> split_count \<Rightarrow> (split_count \<times> split_count) option" where
  "FetchAddTransient add is sc = fetch_add_loop (add_both add 0) is sc sc"

definition FetchAddStrong :: "int \<Rightarrow> sc_interference list \<Rightarrow> split_count \<Rightarrow> (split_count \<times> split_count) option" where
  "FetchAddStrong add is sc = fetch_add_loop (add_both 0 add) is sc sc"

definition FetchAddTransientAndStrong ::
    "int \<Rightarrow> int \<Rightarrow> sc_interference list \<Rightarrow> split_count \<Rightarrow> (split_count \<times> split_count) option" where
  "FetchAddTransientAndStrong transient_add strong_add is sc =
     fetch_add_loop (add_both transient_add strong_add) is sc sc"

text \<open>
  Whatever the interference, a loop that returns has replaced the value it returns by that value
  plus the increments in one exchange, and an attempt that is left alone succeeds. The machine
  below therefore takes each fetch-and-add as one step.
\<close>

lemma fetch_add_loop_atomic:
  assumes "fetch_add_loop add is old sc = Some (old', sc')"
  shows "sc' = add old' \<and> (\<exists>i < length is. fold (\<lambda>(env, _). env) (take (Suc i) is) sc = old')"
  using assms
proof (induction add "is" old sc rule: fetch_add_loop.induct)
  case (2 add env spurious "is" old sc)
  show ?case
  proof (cases "env sc = old \<and> \<not> spurious")
    case True
    with 2(2) show ?thesis by (auto simp: Let_def)
  next
    case False
    with 2(2) have "fetch_add_loop add is (env sc) (env sc) = Some (old', sc')" by (auto simp: Let_def split: if_splits)
    with 2(1) [OF refl False] obtain i where "sc' = add old'" "i < length is"
      "fold (\<lambda>(env, _). env) (take (Suc i) is) (env sc) = old'" by blast
    then show ?thesis by (auto intro!: exI [of _ "Suc i"])
  qed
qed simp

lemma fetch_add_loop_terminates:
  assumes "(id, False) \<in> set is" "old = sc"
  shows "fetch_add_loop add is old sc \<noteq> None"
  using assms by (induction add "is" old sc rule: fetch_add_loop.induct) (auto simp: Let_def)

section \<open>The machine\<close>

text \<open>
  The actions of a thread, in the order the functions perform them. \<open>SA_Reset p\<close> is \<open>Reset\<close> of a
  \<open>SharedPtr\<close> that holds \<open>p\<close> (or its destructor), \<open>SA_Delete b\<close> its \<open>delete\<close>, \<open>SA_Give k p\<close> the move
  assignment of a temporary holding \<open>p\<close> to variable \<open>k\<close>, \<open>SA_CopyInto\<close> and \<open>SA_MoveInto\<close> what the copy
  and the move assignment do after their \<open>Reset\<close>. The remaining actions are the steps of \<open>Load\<close> with \<open>TryUpdateTransient\<close>, of \<open>Store\<close>, of
  \<open>CompareExchangeWeak\<close> and of \<open>CleanupStampedBlock\<close>.
\<close>

datatype sp_action =
    SA_Reset "nat ptr"
  | SA_Delete nat
  | SA_Give nat "nat ptr"
  | SA_CopyInto nat nat
  | SA_MoveInto nat nat
  | SA_Load nat nat
  | SA_UpdAdd nat nat nat nat
  | SA_UpdCas nat nat nat nat
  | SA_UpdUndo nat nat nat
  | SA_UpdDone nat nat
  | SA_StoreStrong nat "nat ptr"
  | SA_Exchange nat "nat ptr"
  | SA_Cleanup "nat ptr" nat
  | SA_CasLoad nat nat "nat ptr"
  | SA_CasStrong nat nat "nat ptr" nat "nat ptr"
  | SA_CasExec nat nat "nat ptr" nat "nat ptr"
  | SA_CasUndo nat nat "nat ptr"

record 'v asp =
  sp_threads :: nat
  sp_vars :: nat
  sp_ncells :: nat
  sp_blocks :: "nat \<rightharpoonup> 'v \<times> split_count"
  sp_handles :: "nat \<Rightarrow> nat \<Rightarrow> nat ptr"
  sp_cells :: "nat \<Rightarrow> nat ptr \<times> nat"
  sp_todo :: "nat \<Rightarrow> sp_action list"
  sp_swapped :: "nat \<Rightarrow> bool"
  sp_wrapped :: bool
  sp_overflow :: bool
  sp_uaf :: bool

definition asp_init :: "nat \<Rightarrow> nat \<Rightarrow> nat \<Rightarrow> 'v asp" where
  "asp_init nt nv nc =
     \<lparr>sp_threads = nt, sp_vars = nv, sp_ncells = nc, sp_blocks = Map.empty, sp_handles = (\<lambda>_ _. nullptr),
      sp_cells = (\<lambda>_. (nullptr, 0)), sp_todo = (\<lambda>_. []), sp_swapped = (\<lambda>_. False),
      sp_wrapped = False, sp_overflow = False, sp_uaf = False\<rparr>"

abbreviation sp_set_todo :: "nat \<Rightarrow> sp_action list \<Rightarrow> 'v asp \<Rightarrow> 'v asp" where
  "sp_set_todo t as s \<equiv> s\<lparr>sp_todo := (sp_todo s)(t := as)\<rparr>"

abbreviation sp_set_handle :: "nat \<Rightarrow> nat \<Rightarrow> nat ptr \<Rightarrow> 'v asp \<Rightarrow> 'v asp" where
  "sp_set_handle t k p s \<equiv> s\<lparr>sp_handles := (sp_handles s)(t := (sp_handles s t)(k := p))\<rparr>"

text \<open>One fetch-and-add on the counter of a block: the state after it and the new counter.\<close>

definition int32_overflow :: "split_count \<Rightarrow> bool" where
  "int32_overflow sc = (sc_transient sc \<notin> {- (2 ^ 31)..<2 ^ 31} \<or> sc_strong sc \<notin> {- (2 ^ 31)..<2 ^ 31})"

definition sp_add :: "nat \<Rightarrow> int \<Rightarrow> int \<Rightarrow> 'v asp \<Rightarrow> 'v asp" where
  "sp_add b dt ds s =
     (case sp_blocks s b of
        None \<Rightarrow> s\<lparr>sp_uaf := True\<rparr>
      | Some (v, sc) \<Rightarrow> s\<lparr>sp_blocks := (sp_blocks s)(b \<mapsto> (v, add_both dt ds sc)),
                           sp_overflow := (sp_overflow s \<or> int32_overflow (add_both dt ds sc))\<rparr>)"

definition sp_zero :: "nat \<Rightarrow> 'v asp \<Rightarrow> bool" where
  "sp_zero b s = (case sp_blocks s b of None \<Rightarrow> False | Some (v, sc) \<Rightarrow> sc_transient sc = 0 \<and> sc_strong sc = 0)"

definition sp_add_opt :: "nat ptr \<Rightarrow> int \<Rightarrow> 'v asp \<Rightarrow> 'v asp" where
  "sp_add_opt p ds s = (case p of None \<Rightarrow> s | Some b \<Rightarrow> sp_add b 0 ds s)"

text \<open>The next action of thread \<open>t\<close>; \<open>rest\<close> is what follows it. \<open>spurious\<close> lets a weak exchange fail.\<close>

fun sp_act :: "bool \<Rightarrow> nat \<Rightarrow> sp_action \<Rightarrow> sp_action list \<Rightarrow> 'v asp \<Rightarrow> 'v asp" where
  "sp_act spurious t (SA_Reset None) rest s = sp_set_todo t rest s"
| "sp_act spurious t (SA_Reset (Some b)) rest s =
     (let s' = sp_add b (-1) 0 s in sp_set_todo t (if sp_zero b s' then SA_Delete b # rest else rest) s')"
| "sp_act spurious t (SA_Delete b) rest s =
     (if sp_blocks s b = None then s\<lparr>sp_uaf := True\<rparr>
      else sp_set_todo t rest (s\<lparr>sp_blocks := (sp_blocks s)(b := None)\<rparr>))"
| "sp_act spurious t (SA_Give k p) rest s =
     sp_set_todo t (SA_Reset (sp_handles s t k) # rest) (sp_set_handle t k p s)"
| "sp_act spurious t (SA_CopyInto k k') rest s =
     (case sp_handles s t k of
        None \<Rightarrow> sp_set_todo t (SA_Give k' nullptr # rest) s
      | Some b \<Rightarrow> sp_set_todo t (SA_Give k' (Some b) # rest) (sp_add b 1 0 s))"
| "sp_act spurious t (SA_MoveInto k k') rest s =
     sp_set_todo t (SA_Give k' (sp_handles s t k) # rest) (sp_set_handle t k nullptr s)"
| "sp_act spurious t (SA_Load c k) rest s =
     (case sp_cells s c of (p, n) \<Rightarrow>
        let s' = s\<lparr>sp_cells := (sp_cells s)(c := (p, Suc n mod 2 ^ 16)),
                   sp_wrapped := (sp_wrapped s \<or> p \<noteq> nullptr \<and> Suc n \<ge> 2 ^ 16)\<rparr>
        in case p of
             None \<Rightarrow> sp_set_todo t (SA_Give k nullptr # rest) s'
           | Some b \<Rightarrow> sp_set_todo t
               ((if Suc n > 10000 then SA_UpdAdd c b (Suc n) k else SA_Give k (Some b)) # rest) s')"
| "sp_act spurious t (SA_UpdAdd c b n k) rest s =
     sp_set_todo t (SA_UpdCas c b n k # rest) (sp_add b (int n) 1 s)"
| "sp_act spurious t (SA_UpdCas c b n k) rest s =
     (if sp_cells s c = (Some b, n) \<and> \<not> spurious
      then sp_set_todo t (SA_UpdDone b k # rest) (s\<lparr>sp_cells := (sp_cells s)(c := (Some b, 0))\<rparr>)
      else sp_set_todo t (SA_UpdUndo b n k # rest) s)"
| "sp_act spurious t (SA_UpdUndo b n k) rest s =
     sp_set_todo t (SA_Give k (Some b) # rest) (sp_add b (- int n) (-1) s)"
| "sp_act spurious t (SA_UpdDone b k) rest s =
     sp_set_todo t (SA_Give k (Some b) # rest) (sp_add b 0 (-1) s)"
| "sp_act spurious t (SA_StoreStrong c p) rest s =
     sp_set_todo t (SA_Exchange c p # rest) (sp_add_opt p 1 s)"
| "sp_act spurious t (SA_Exchange c p) rest s =
     (case sp_cells s c of (q, n) \<Rightarrow>
        sp_set_todo t (SA_Cleanup q n # SA_Reset p # rest) (s\<lparr>sp_cells := (sp_cells s)(c := (p, 0))\<rparr>))"
| "sp_act spurious t (SA_Cleanup None n) rest s = sp_set_todo t rest s"
| "sp_act spurious t (SA_Cleanup (Some b) n) rest s =
     (let s' = sp_add b (int n) (-1) s in sp_set_todo t (if sp_zero b s' then SA_Delete b # rest else rest) s')"
| "sp_act spurious t (SA_CasLoad c k p) rest s =
     sp_set_todo t (SA_CasStrong c k (sp_handles s t k) (snd (sp_cells s c)) p # rest) s"
| "sp_act spurious t (SA_CasStrong c k e n p) rest s =
     sp_set_todo t (SA_CasExec c k e n p # rest) (sp_add_opt p 1 s)"
| "sp_act spurious t (SA_CasExec c k e n p) rest s =
     (if sp_cells s c = (e, n) \<and> \<not> spurious
      then sp_set_todo t (SA_Cleanup e n # SA_Reset p # rest)
             (s\<lparr>sp_cells := (sp_cells s)(c := (p, 0)), sp_swapped := (sp_swapped s)(t := True)\<rparr>)
      else sp_set_todo t (SA_CasUndo c k p # rest) s)"
| "sp_act spurious t (SA_CasUndo c k p) rest s =
     sp_set_todo t (SA_Load c k # SA_Reset p # rest)
       ((sp_add_opt p (-1) s)\<lparr>sp_swapped := (sp_swapped s)(t := False)\<rparr>)"

text \<open>
  The calls. \<open>SP_Make\<close> is \<open>k = MakeShared(v)\<close>, \<open>SP_Copy\<close> is \<open>k' = k\<close>, \<open>SP_Move\<close> is \<open>k' = std::move(k)\<close>,
  \<open>SP_Reset\<close> is \<open>k.Reset()\<close>, \<open>SP_Deref\<close> is \<open>*k\<close>, \<open>SP_Load\<close> is \<open>k = c.Load()\<close>, \<open>SP_Store\<close> is \<open>c.Store(std::move(k))\<close>
  and \<open>SP_Cas\<close> is \<open>c.CompareExchangeWeak(k, std::move(k'))\<close>. The destructor of an \<open>AtomicSharedPtr\<close>
  is \<open>SP_Store\<close> with a null variable.
\<close>

datatype 'v sp_event =
    SP_Make nat nat 'v nat
  | SP_Copy nat nat nat
  | SP_Move nat nat nat
  | SP_ResetVar nat nat
  | SP_Deref nat nat
  | SP_LoadTo nat nat nat
  | SP_Store nat nat nat
  | SP_Cas nat nat nat nat
  | SP_Step nat bool

definition sp_idle :: "'v asp \<Rightarrow> nat \<Rightarrow> bool" where
  "sp_idle s t = (t < sp_threads s \<and> sp_todo s t = [])"

fun asp_step :: "'v sp_event \<Rightarrow> 'v asp \<Rightarrow> 'v asp option" where
  "asp_step (SP_Make t k v b) s =
     (if sp_idle s t \<and> k < sp_vars s \<and> sp_blocks s b = None
      then Some (sp_set_todo t [SA_Give k (Some b)]
             (s\<lparr>sp_blocks := (sp_blocks s)(b \<mapsto> (v, add_both 1 0 \<lparr>sc_transient = 0, sc_strong = 0\<rparr>))\<rparr>))
      else None)"
| "asp_step (SP_Copy t k k') s =
     (if sp_idle s t \<and> k < sp_vars s \<and> k' < sp_vars s
      then Some (sp_set_todo t [SA_Reset (sp_handles s t k'), SA_CopyInto k k'] (sp_set_handle t k' nullptr s))
      else None)"
| "asp_step (SP_Move t k k') s =
     (if sp_idle s t \<and> k < sp_vars s \<and> k' < sp_vars s
      then Some (sp_set_todo t [SA_Reset (sp_handles s t k'), SA_MoveInto k k'] (sp_set_handle t k' nullptr s))
      else None)"
| "asp_step (SP_ResetVar t k) s =
     (if sp_idle s t \<and> k < sp_vars s
      then Some (sp_set_todo t [SA_Reset (sp_handles s t k)] (sp_set_handle t k nullptr s)) else None)"
| "asp_step (SP_Deref t k) s =
     (if sp_idle s t \<and> k < sp_vars s
      then case sp_handles s t k of
             None \<Rightarrow> None
           | Some b \<Rightarrow> Some (if sp_blocks s b = None then s\<lparr>sp_uaf := True\<rparr> else s)
      else None)"
| "asp_step (SP_LoadTo t c k) s =
     (if sp_idle s t \<and> k < sp_vars s \<and> c < sp_ncells s then Some (sp_set_todo t [SA_Load c k] s) else None)"
| "asp_step (SP_Store t c k) s =
     (if sp_idle s t \<and> k < sp_vars s \<and> c < sp_ncells s
      then Some (sp_set_todo t [SA_StoreStrong c (sp_handles s t k)] (sp_set_handle t k nullptr s)) else None)"
| "asp_step (SP_Cas t c k k') s =
     (if sp_idle s t \<and> k < sp_vars s \<and> k' < sp_vars s \<and> k \<noteq> k' \<and> c < sp_ncells s
      then Some (sp_set_todo t [SA_CasLoad c k (sp_handles s t k')] (sp_set_handle t k' nullptr s)) else None)"
| "asp_step (SP_Step t spurious) s =
     (if t < sp_threads s
      then case sp_todo s t of [] \<Rightarrow> None | a # rest \<Rightarrow> Some (sp_act spurious t a rest s)
      else None)"

section \<open>What the counters count\<close>

text \<open>
  Everything that keeps a block alive is a \<open>hold\<close> on it: a \<open>SharedPtr\<close> (\<open>HRef\<close>, worth one transient
  count), or one strong count together with \<open>x\<close> transient ones (\<open>HOwn\<close>). A cell with stamp \<open>n\<close> is
  \<open>HOwn b (-n)\<close>: the \<open>n\<close> references it gave out are not yet in the block's counter. \<open>HDel\<close> is a
  pending \<open>delete\<close>.
\<close>

datatype hold = HRef (hblk: nat) | HOwn (hblk: nat) int | HDel (hblk: nat)

fun wt :: "hold \<Rightarrow> int" where
  "wt (HRef _) = 1" | "wt (HOwn _ x) = x" | "wt (HDel _) = 0"

fun ws :: "hold \<Rightarrow> int" where
  "ws (HRef _) = 0" | "ws (HOwn _ _) = 1" | "ws (HDel _) = 0"

definition on_block :: "nat \<Rightarrow> hold multiset \<Rightarrow> hold multiset" where
  "on_block b M = filter_mset (\<lambda>h. hblk h = b) M"

definition tsum :: "nat \<Rightarrow> hold multiset \<Rightarrow> int" where
  "tsum b M = (\<Sum>h\<in>#on_block b M. wt h)"

definition ssum :: "nat \<Rightarrow> hold multiset \<Rightarrow> int" where
  "ssum b M = (\<Sum>h\<in>#on_block b M. ws h)"

fun ptr_holds :: "(nat \<Rightarrow> hold) \<Rightarrow> nat ptr \<Rightarrow> hold multiset" where
  "ptr_holds f None = {#}"
| "ptr_holds f (Some b) = {#f b#}"

abbreviation ref_holds :: "nat ptr \<Rightarrow> hold multiset" where
  "ref_holds \<equiv> ptr_holds HRef"

definition cell_holds :: "nat ptr \<times> nat \<Rightarrow> hold multiset" where
  "cell_holds x = ptr_holds (\<lambda>b. HOwn b (- int (snd x))) (fst x)"

fun act_holds :: "sp_action \<Rightarrow> hold multiset" where
  "act_holds (SA_Reset p) = ref_holds p"
| "act_holds (SA_Delete b) = {#HDel b#}"
| "act_holds (SA_Give k p) = ref_holds p"
| "act_holds (SA_CopyInto k k') = {#}"
| "act_holds (SA_MoveInto k k') = {#}"
| "act_holds (SA_Load c k) = {#}"
| "act_holds (SA_UpdAdd c b n k) = {#HRef b#}"
| "act_holds (SA_UpdCas c b n k) = {#HRef b, HOwn b (int n)#}"
| "act_holds (SA_UpdUndo b n k) = {#HRef b, HOwn b (int n)#}"
| "act_holds (SA_UpdDone b k) = {#HRef b, HOwn b 0#}"
| "act_holds (SA_StoreStrong c p) = ref_holds p"
| "act_holds (SA_Exchange c p) = ref_holds p + ptr_holds (\<lambda>b. HOwn b 0) p"
| "act_holds (SA_Cleanup p n) = cell_holds (p, n)"
| "act_holds (SA_CasLoad c k p) = ref_holds p"
| "act_holds (SA_CasStrong c k e n p) = ref_holds p"
| "act_holds (SA_CasExec c k e n p) = ref_holds p + ptr_holds (\<lambda>b. HOwn b 0) p"
| "act_holds (SA_CasUndo c k p) = ref_holds p + ptr_holds (\<lambda>b. HOwn b 0) p"

definition acts_holds :: "sp_action list \<Rightarrow> hold multiset" where
  "acts_holds as = sum_list (map act_holds as)"

definition holds_of :: "nat \<Rightarrow> nat \<Rightarrow> nat \<Rightarrow> (nat \<Rightarrow> nat \<Rightarrow> nat ptr) \<Rightarrow> (nat \<Rightarrow> nat ptr \<times> nat) \<Rightarrow>
    (nat \<Rightarrow> sp_action list) \<Rightarrow> hold multiset" where
  "holds_of nt nv nc handles cells todo =
     (\<Sum>t < nt. \<Sum>k < nv. ref_holds (handles t k)) + (\<Sum>c < nc. cell_holds (cells c)) +
     (\<Sum>t < nt. acts_holds (todo t))"

abbreviation sp_holds :: "'v asp \<Rightarrow> hold multiset" where
  "sp_holds s \<equiv> holds_of (sp_threads s) (sp_vars s) (sp_ncells s) (sp_handles s) (sp_cells s) (sp_todo s)"

text \<open>The counters agree with the holds, and a block is gone exactly when nothing holds it.\<close>

definition block_ok :: "hold multiset \<Rightarrow> ('v \<times> split_count) option \<Rightarrow> nat \<Rightarrow> bool" where
  "block_ok M x b =
     (case x of
        None \<Rightarrow> on_block b M = {#}
      | Some (v, sc) \<Rightarrow> on_block b M \<noteq> {#} \<and> sc_transient sc = tsum b M \<and> sc_strong sc = ssum b M \<and>
          (HDel b \<in># M \<longrightarrow> on_block b M = {#HDel b#}))"

definition holds_ok :: "hold multiset \<Rightarrow> (nat \<rightharpoonup> 'v \<times> split_count) \<Rightarrow> bool" where
  "holds_ok M bl = (\<forall>b. block_ok M (bl b) b)"

lemma on_block_simps [simp]:
  "on_block b {#} = {#}"
  "on_block b (M + N) = on_block b M + on_block b N"
  "on_block b (add_mset h M) = (if hblk h = b then add_mset h (on_block b M) else on_block b M)"
  by (simp_all add: on_block_def)

lemma tsum_simps [simp]:
  "tsum b {#} = 0" "tsum b (M + N) = tsum b M + tsum b N"
  "tsum b (add_mset h M) = (if hblk h = b then wt h else 0) + tsum b M"
  by (simp_all add: tsum_def)

lemma ssum_simps [simp]:
  "ssum b {#} = 0" "ssum b (M + N) = ssum b M + ssum b N"
  "ssum b (add_mset h M) = (if hblk h = b then ws h else 0) + ssum b M"
  by (simp_all add: ssum_def)

lemma del_on_block: "HDel b \<in># M \<longleftrightarrow> HDel b \<in># on_block b M"
  by (simp add: on_block_def)

lemma block_ok_cong:
  assumes "on_block b M = on_block b N"
  shows "block_ok M x b = block_ok N x b"
  unfolding block_ok_def tsum_def ssum_def del_on_block [of b M] del_on_block [of b N] assms ..

text \<open>No transient and no strong count left means that nothing but a pending \<open>delete\<close> is left.\<close>

lemma live_weights:
  assumes "\<forall>h\<in>#N. \<forall>b. h \<noteq> HDel b"
  shows "0 \<le> (\<Sum>h\<in>#N. ws h) \<and> ((\<Sum>h\<in>#N. ws h) = 0 \<longrightarrow> (\<Sum>h\<in>#N. wt h) = int (size N))"
  using assms
proof (induction N)
  case (add h N)
  then show ?case by (cases h) auto
qed simp

lemma zero_counts:
  assumes "HDel b \<notin># M" "tsum b M = 0" "ssum b M = 0"
  shows "on_block b M = {#}"
proof -
  have "\<forall>h\<in>#on_block b M. \<forall>b. h \<noteq> HDel b" using assms(1) by (auto simp: on_block_def)
  from live_weights [OF this] assms(2,3) show ?thesis by (simp add: tsum_def ssum_def)
qed

lemma on_block_eq_empty: "on_block b M = {#} \<Longrightarrow> tsum b M = 0 \<and> ssum b M = 0"
  by (simp add: tsum_def ssum_def)

text \<open>Holds on \<open>b\<close> change from \<open>A\<close> to \<open>B\<close> while its counter changes by the difference.\<close>

lemma holds_ok_upd:
  assumes ok: "holds_ok (R + A) bl" and bl: "bl b = Some (v, sc)"
    and ab: "\<forall>h\<in>#A. hblk h = b \<and> h \<noteq> HDel b" "\<forall>h\<in>#B. hblk h = b \<and> h \<noteq> HDel b" "A \<noteq> {#}"
    and B: "B \<noteq> {#} \<or> on_block b R \<noteq> {#}"
    and d: "dt = tsum b B - tsum b A" "ds = ssum b B - ssum b A"
  shows "holds_ok (R + B) (bl(b \<mapsto> (v, add_both dt ds sc)))"
  unfolding holds_ok_def
proof
  fix b'
  have other: "b' \<noteq> b \<Longrightarrow> on_block b' A = {#} \<and> on_block b' B = {#}"
    using ab(1,2) by (auto simp: on_block_def filter_mset_eq_mempty_iff)
  have same: "on_block b A = A" "on_block b B = B"
    using ab(1,2) by (auto simp: on_block_def filter_mset_eq_conv)
  from ok have ok': "block_ok (R + A) (bl b') b'" by (simp add: holds_ok_def)
  show "block_ok (R + B) ((bl(b \<mapsto> (v, add_both dt ds sc))) b') b'"
  proof (cases "b' = b")
    case True
    have "HDel b \<notin># R" using ok' ab(1,3) bl True same
      by (auto simp: block_ok_def union_is_single dest!: multi_member_split)
    moreover have "HDel b \<notin># B" using ab(2) by blast
    ultimately show ?thesis using ok' bl True B d same
      by (auto simp: block_ok_def add_both_def)
  next
    case False
    with other have "on_block b' (R + A) = on_block b' (R + B)" by simp
    from block_ok_cong [OF this, of "bl b'"] ok' False show ?thesis by simp
  qed
qed

text \<open>The last hold goes away: the counter reaches zero exactly then.\<close>

lemma holds_ok_last:
  assumes ok: "holds_ok (add_mset h R) bl" and h: "hblk h = b" "h \<noteq> HDel b" and bl: "bl b = Some (v, sc)"
    and sc': "sc' = add_both (- wt h) (- ws h) sc"
  shows "holds_ok (if sc_transient sc' = 0 \<and> sc_strong sc' = 0 then add_mset (HDel b) R else R) (bl(b \<mapsto> (v, sc')))"
proof (cases "sc_transient sc' = 0 \<and> sc_strong sc' = 0")
  case True
  from ok have ok': "block_ok (add_mset h R) (bl x) x" for x by (simp add: holds_ok_def)
  have del: "HDel b \<notin># R" using ok' [of b] h bl
    by (auto simp: block_ok_def on_block_def dest!: multi_member_split)
  have "on_block b R = {#}"
    using zero_counts [OF del] ok' [of b] True h bl sc' by (auto simp: block_ok_def add_both_def)
  then have "block_ok (add_mset (HDel b) R) ((bl(b \<mapsto> (v, sc'))) x) x" for x
    using ok' [of x] True h block_ok_cong [of x "add_mset h R" "add_mset (HDel b) R"]
    by (cases "x = b") (auto simp: block_ok_def on_block_eq_empty)
  with True show ?thesis by (simp add: holds_ok_def)
next
  case False
  from ok have "block_ok (add_mset h R) (bl b) b" by (simp add: holds_ok_def)
  with bl h sc' False have "on_block b R \<noteq> {#}"
    by (auto simp: block_ok_def add_both_def dest: on_block_eq_empty)
  with holds_ok_upd [of R "{#h#}" bl b v sc "{#}" "- wt h" "- ws h"] ok bl h sc'
  have "holds_ok R (bl(b \<mapsto> (v, sc')))" by simp
  with False show ?thesis by auto
qed

lemma holds_ok_fresh:
  assumes "holds_ok M bl" "bl b = None"
  shows "holds_ok (add_mset (HRef b) M) (bl(b \<mapsto> (v, \<lparr>sc_transient = 1, sc_strong = 0\<rparr>)))"
  unfolding holds_ok_def
proof
  fix b'
  from assms(1) have ok: "block_ok M (bl x) x" for x by (simp add: holds_ok_def)
  from ok [of b] assms(2) have "on_block b M = {#}" by (simp add: block_ok_def)
  with ok [of b'] show "block_ok (add_mset (HRef b) M) ((bl(b \<mapsto> (v, \<lparr>sc_transient = 1, sc_strong = 0\<rparr>))) b') b'"
    using block_ok_cong [of b' "add_mset (HRef b) M" M "bl b'"]
    by (cases "b' = b") (auto simp: block_ok_def on_block_eq_empty del_on_block [of b M])
qed

lemma holds_ok_delete:
  assumes "holds_ok (add_mset (HDel b) M) bl"
  shows "bl b \<noteq> None \<and> holds_ok M (bl(b := None))"
proof -
  from assms have ok: "block_ok (add_mset (HDel b) M) (bl b') b'" for b' by (simp add: holds_ok_def)
  from ok [of b] have b: "bl b \<noteq> None" "on_block b M = {#}" by (auto simp: block_ok_def split: option.splits)
  have "block_ok M ((bl(b := None)) b') b'" for b'
    using ok [of b'] b block_ok_cong [of b' "add_mset (HDel b) M" M]
    by (cases "b' = b") (auto simp: block_ok_def)
  with b show ?thesis by (simp add: holds_ok_def)
qed

lemma holds_ok_alive:
  assumes "holds_ok M bl" "h \<in># M"
  shows "bl (hblk h) \<noteq> None"
  using assms by (auto simp: holds_ok_def block_ok_def on_block_def filter_mset_eq_mempty_iff split: option.splits)

text \<open>One count moves from a cell to the references it gave out, or from an extra count to the cell.\<close>

lemma holds_ok_swap:
  assumes ok: "holds_ok (R + A) bl" and ab: "\<forall>h\<in>#A. hblk h = b \<and> h \<noteq> HDel b" "\<forall>h\<in>#B. hblk h = b \<and> h \<noteq> HDel b"
    and ne: "A \<noteq> {#}" "B \<noteq> {#}" and d: "tsum b B = tsum b A" "ssum b B = ssum b A"
  shows "holds_ok (R + B) bl"
proof -
  from ne obtain h where "h \<in># A" by blast
  with holds_ok_alive [OF ok, of h] ab(1) obtain v sc where bl: "bl b = Some (v, sc)" by auto
  from holds_ok_upd [of R A bl b v sc B 0 0] ok bl ab ne d
  have "holds_ok (R + B) (bl(b \<mapsto> (v, add_both 0 0 sc)))" by simp
  moreover have "bl(b \<mapsto> (v, add_both 0 0 sc)) = bl" using bl by (auto simp: add_both_def)
  ultimately show ?thesis by simp
qed

section \<open>The invariant\<close>

fun act_wf :: "nat \<Rightarrow> nat \<Rightarrow> sp_action \<Rightarrow> bool" where
  "act_wf nv nc (SA_Give k p) = (k < nv)"
| "act_wf nv nc (SA_CopyInto k k') = (k < nv \<and> k' < nv)"
| "act_wf nv nc (SA_MoveInto k k') = (k < nv \<and> k' < nv)"
| "act_wf nv nc (SA_Load c k) = (k < nv \<and> c < nc)"
| "act_wf nv nc (SA_UpdAdd c b n k) = (k < nv \<and> c < nc)"
| "act_wf nv nc (SA_UpdCas c b n k) = (k < nv \<and> c < nc)"
| "act_wf nv nc (SA_UpdUndo b n k) = (k < nv)"
| "act_wf nv nc (SA_UpdDone b k) = (k < nv)"
| "act_wf nv nc (SA_StoreStrong c p) = (c < nc)"
| "act_wf nv nc (SA_Exchange c p) = (c < nc)"
| "act_wf nv nc (SA_CasLoad c k p) = (k < nv \<and> c < nc)"
| "act_wf nv nc (SA_CasStrong c k e n p) = (k < nv \<and> c < nc)"
| "act_wf nv nc (SA_CasExec c k e n p) = (k < nv \<and> c < nc)"
| "act_wf nv nc (SA_CasUndo c k p) = (k < nv \<and> c < nc)"
| "act_wf nv nc _ = True"

definition asp_wf :: "'v asp \<Rightarrow> bool" where
  "asp_wf s = (\<forall>t< sp_threads s. \<forall>a\<in>set (sp_todo s t). act_wf (sp_vars s) (sp_ncells s) a)"

definition asp_safe :: "'v asp \<Rightarrow> bool" where
  "asp_safe s = (\<not> sp_uaf s \<and> holds_ok (sp_holds s) (sp_blocks s))"

definition asp_inv :: "'v asp \<Rightarrow> bool" where
  "asp_inv s = (asp_wf s \<and> (sp_wrapped s \<or> asp_safe s))"

lemma sp_add_simps [simp]:
  "sp_threads (sp_add b dt ds s) = sp_threads s" "sp_vars (sp_add b dt ds s) = sp_vars s"
  "sp_ncells (sp_add b dt ds s) = sp_ncells s" "sp_handles (sp_add b dt ds s) = sp_handles s"
  "sp_cells (sp_add b dt ds s) = sp_cells s" "sp_todo (sp_add b dt ds s) = sp_todo s"
  "sp_wrapped (sp_add b dt ds s) = sp_wrapped s"
  by (auto simp: sp_add_def split: option.splits)

lemma sp_add_opt_simps [simp]:
  "sp_threads (sp_add_opt p ds s) = sp_threads s" "sp_vars (sp_add_opt p ds s) = sp_vars s"
  "sp_ncells (sp_add_opt p ds s) = sp_ncells s" "sp_handles (sp_add_opt p ds s) = sp_handles s"
  "sp_cells (sp_add_opt p ds s) = sp_cells s" "sp_todo (sp_add_opt p ds s) = sp_todo s"
  "sp_wrapped (sp_add_opt p ds s) = sp_wrapped s"
  by (simp_all add: sp_add_opt_def split: option.splits)

text \<open>How the holds change with a thread's actions, a variable and a cell.\<close>

lemma acts_holds_simps [simp]:
  "acts_holds [] = {#}" "acts_holds (a # as) = act_holds a + acts_holds as"
  by (simp_all add: acts_holds_def)

lemma cancel_middle:
  fixes x y z w a b :: "'m multiset"
  assumes "x + y = z + w" "w + a = y + b"
  shows "x + a = z + b"
proof -
  have "x + a + y = x + y + a" by (simp add: ac_simps)
  also have "\<dots> = z + (w + a)" using assms(1) by (simp add: ac_simps)
  also have "\<dots> = z + b + y" using assms(2) by (simp add: ac_simps)
  finally show ?thesis by simp
qed

lemma cancel_right:
  fixes x y z a b :: "'m multiset"
  assumes "y = z + a" "x + a = y + b"
  shows "x = z + b"
proof -
  from assms have "x + a = (z + b) + a" by (simp add: ac_simps)
  then show ?thesis by simp
qed

lemma holds_push:
  assumes "t < nt"
  shows "holds_of nt nv nc hs cs (f(t := a # rest)) = holds_of nt nv nc hs cs (f(t := rest)) + act_holds a"
proof -
  from sum_fun_upd [OF assms, of acts_holds "f(t := rest)" "a # rest"]
  have "(\<Sum>i < nt. acts_holds ((f(t := a # rest)) i)) + acts_holds rest =
      ((\<Sum>i < nt. acts_holds ((f(t := rest)) i)) + act_holds a) + acts_holds rest"
    by (simp add: ac_simps)
  then show ?thesis unfolding holds_of_def add_right_cancel by (simp add: ac_simps)
qed

lemma holds_pop:
  assumes "t < nt" "f t = a # rest"
  shows "holds_of nt nv nc hs cs f = holds_of nt nv nc hs cs (f(t := rest)) + act_holds a"
  using holds_push [OF assms(1), of nv nc hs cs f a rest] fun_upd_triv [of f t] assms(2) by simp

lemma holds_all:
  assumes "t < nt"
  shows "holds_of nt nv nc hs cs (f(t := as)) = holds_of nt nv nc hs cs (f(t := [])) + acts_holds as"
proof (induction as)
  case (Cons a as)
  show ?case unfolding holds_push [OF assms] Cons.IH acts_holds_simps by (simp only: ac_simps)
qed simp

lemma cell_split:
  assumes "c < nc"
  obtains R where "holds_of nt nv nc hs cs f = R + cell_holds (cs c)"
    "\<And>x. holds_of nt nv nc hs (cs(c := x)) f = R + cell_holds x"
proof -
  let ?S = "\<lambda>cs. \<Sum>c < nc. cell_holds (cs c)"
  let ?R = "?S (cs(c := (nullptr, 0)))"
  have upd: "?S (cs(c := x)) + cell_holds (cs c) = ?S cs + cell_holds x" for x
    by (rule sum_fun_upd [OF assms])
  have R: "?S cs = ?R + cell_holds (cs c)" using upd [of "(nullptr, 0)"] by (simp add: cell_holds_def)
  have upd': "?S (cs(c := x)) = ?R + cell_holds x" for x using R upd by (rule cancel_right)
  show thesis
    by (rule that [of "(\<Sum>t < nt. \<Sum>k < nv. ref_holds (hs t k)) + ?R + (\<Sum>t < nt. acts_holds (f t))"];
        unfold holds_of_def, subst R upd', simp only: ac_simps)
qed

lemma handle_split:
  assumes "t < nt" "k < nv"
  obtains R where "holds_of nt nv nc hs cs f = R + ref_holds (hs t k)"
    "\<And>p. holds_of nt nv nc (hs(t := (hs t)(k := p))) cs f = R + ref_holds p"
proof -
  let ?g = "\<lambda>h. \<Sum>k < nv. ref_holds (h k)"
  let ?S = "\<lambda>hs. \<Sum>t < nt. ?g (hs t)"
  let ?R = "?S (hs(t := (hs t)(k := nullptr)))"
  have upd: "?S (hs(t := (hs t)(k := p))) + ref_holds (hs t k) = ?S hs + ref_holds p" for p
    using sum_fun_upd [OF assms(1), of ?g hs "(hs t)(k := p)"] sum_fun_upd [OF assms(2), of ref_holds "hs t" p]
    by (rule cancel_middle)
  have R: "?S hs = ?R + ref_holds (hs t k)" using upd [of nullptr] by simp
  have upd': "?S (hs(t := (hs t)(k := p))) = ?R + ref_holds p" for p using R upd by (rule cancel_right)
  show thesis
    by (rule that [of "?R + (\<Sum>c < nc. cell_holds (cs c)) + (\<Sum>t < nt. acts_holds (f t))"];
        unfold holds_of_def, subst R upd', simp only: ac_simps)
qed

text \<open>A fetch-and-add on a block that something holds.\<close>

lemma sp_add_ok:
  assumes ok: "holds_ok (R + A) (sp_blocks s)"
    and ab: "\<forall>h\<in>#A. hblk h = b \<and> h \<noteq> HDel b" "\<forall>h\<in>#B. hblk h = b \<and> h \<noteq> HDel b" "A \<noteq> {#}" "B \<noteq> {#}"
    and d: "dt = tsum b B - tsum b A" "ds = ssum b B - ssum b A"
  shows "sp_uaf (sp_add b dt ds s) = sp_uaf s \<and> holds_ok (R + B) (sp_blocks (sp_add b dt ds s))"
proof -
  from ab(3) obtain h where "h \<in># A" by blast
  with holds_ok_alive [OF ok, of h] ab(1) obtain v sc where "sp_blocks s b = Some (v, sc)" by auto
  with holds_ok_upd [OF ok this ab(1-3) _ d] ab(4) show ?thesis by (simp add: sp_add_def)
qed

lemma sp_add_last:
  assumes ok: "holds_ok (add_mset h R) (sp_blocks s)" and h: "hblk h = b" "h \<noteq> HDel b"
    and d: "dt = - wt h" "ds = - ws h"
  shows "sp_uaf (sp_add b dt ds s) = sp_uaf s \<and>
    holds_ok (if sp_zero b (sp_add b dt ds s) then add_mset (HDel b) R else R) (sp_blocks (sp_add b dt ds s))"
proof -
  from holds_ok_alive [OF ok, of h] h obtain v sc where "sp_blocks s b = Some (v, sc)" by auto
  with holds_ok_last [OF ok h this refl] show ?thesis by (simp add: sp_add_def sp_zero_def d)
qed

text \<open>The actions one group at a time.\<close>

lemma reset_safe:
  assumes "asp_safe s" "t < sp_threads s" "sp_todo s t = a # rest"
    and a: "a = SA_Reset p \<or> a = SA_Cleanup p n \<or> a = SA_Delete b"
  shows "asp_safe (sp_act spurious t a rest s)"
proof -
  let ?H = "sp_holds (sp_set_todo t rest s)"
  from assms(1) have u: "\<not> sp_uaf s" and ok: "holds_ok (?H + act_holds a) (sp_blocks s)"
    using holds_pop [of t "sp_threads s" "sp_todo s", OF assms(2,3)] by (simp_all add: asp_safe_def)
  consider "a = SA_Reset p" | "a = SA_Cleanup p n" | "a = SA_Delete b" using a by blast
  then show ?thesis
  proof cases
    case 1
    with u ok assms(2) sp_add_last [of "HRef (the p)" ?H s "the p" "-1" 0] show ?thesis
      by (cases p) (auto simp: asp_safe_def Let_def holds_push split: if_splits)
  next
    case 2
    with u ok assms(2) sp_add_last [of "HOwn (the p) (- int n)" ?H s "the p" "int n" "-1"] show ?thesis
      by (cases p) (auto simp: asp_safe_def Let_def holds_push cell_holds_def split: if_splits)
  next
    case 3
    with u ok holds_ok_delete [of b ?H "sp_blocks s"] show ?thesis by (auto simp: asp_safe_def)
  qed
qed

lemma give_safe:
  assumes "asp_safe s" "t < sp_threads s" "sp_todo s t = a # rest" "k < sp_vars s"
    and a: "a = SA_Give k p \<or> a = SA_CopyInto k k' \<or> a = SA_MoveInto k k'"
  shows "asp_safe (sp_act spurious t a rest s)"
proof -
  let ?u = "sp_set_todo t rest s"
  from assms(1) have u: "\<not> sp_uaf s" and ok: "holds_ok (sp_holds ?u + act_holds a) (sp_blocks s)"
    using holds_pop [of t "sp_threads s" "sp_todo s", OF assms(2,3)] by (simp_all add: asp_safe_def)
  from assms(2,4) obtain R where R: "sp_holds ?u = R + ref_holds (sp_handles s t k)"
      "\<And>p. sp_holds (sp_set_handle t k p ?u) = R + ref_holds p"
    by (rule handle_split [where hs = "sp_handles s" and f = "(sp_todo s)(t := rest)" and nc = "sp_ncells s"
          and cs = "sp_cells s"]) simp
  consider "a = SA_Give k p" | "a = SA_CopyInto k k'" | "a = SA_MoveInto k k'" using a by blast
  then show ?thesis
  proof cases
    case 1
    have "holds_ok (R + ref_holds p + ref_holds (sp_handles s t k)) (sp_blocks s)"
      using ok R(1) 1 by (simp add: ac_simps)
    with 1 u R(2) [of p] assms(2) show ?thesis by (simp add: asp_safe_def holds_push ac_simps)
  next
    case 2
    show ?thesis
    proof (cases "sp_handles s t k")
      case None
      with 2 u ok assms(2) show ?thesis by (simp add: asp_safe_def holds_push)
    next
      case (Some b)
      with 2 u ok R(1) assms(2) sp_add_ok [of R "{#HRef b#}" s b "{#HRef b, HRef b#}" 1 0]
      show ?thesis by (simp add: asp_safe_def holds_push)
    qed
  next
    case 3
    with u ok R(1) R(2) [of nullptr] assms(2) show ?thesis by (simp add: asp_safe_def holds_push)
  qed
qed

lemma load_safe:
  assumes "asp_safe s" "t < sp_threads s" "sp_todo s t = SA_Load c k # rest" "c < sp_ncells s"
  shows "sp_wrapped (sp_act spurious t (SA_Load c k) rest s) \<or> asp_safe (sp_act spurious t (SA_Load c k) rest s)"
proof -
  let ?u = "sp_set_todo t rest s"
  obtain p n where c: "sp_cells s c = (p, n)" by fastforce
  from assms(1) have u: "\<not> sp_uaf s" and ok: "holds_ok (sp_holds ?u) (sp_blocks s)"
    using holds_pop [of t "sp_threads s" "sp_todo s", OF assms(2,3)] by (simp_all add: asp_safe_def)
  from assms(4) obtain R where R: "sp_holds ?u = R + cell_holds (p, n)"
      "\<And>x. sp_holds (?u\<lparr>sp_cells := (sp_cells s)(c := x)\<rparr>) = R + cell_holds x"
    by (rule cell_split [where cs = "sp_cells s" and f = "(sp_todo s)(t := rest)" and nt = "sp_threads s"
          and nv = "sp_vars s" and hs = "sp_handles s"]) (simp add: c)
  show ?thesis
  proof (cases p)
    case None
    with u ok R R(2) [of "(None, Suc n mod 65536)"] c assms(2) show ?thesis
      by (simp add: asp_safe_def holds_push cell_holds_def)
  next
    case (Some b)
    show ?thesis
    proof (cases "Suc n < 65536")
      case True
      from holds_ok_swap [of R "{#HOwn b (- int n)#}" _ b "{#HOwn b (- 1 - int n), HRef b#}"] ok R(1) Some
      have "holds_ok (R + {#HOwn b (- 1 - int n), HRef b#}) (sp_blocks s)" by (simp add: cell_holds_def)
      with u R(2) [of "(Some b, Suc n)"] Some True c assms(2) show ?thesis
        by (simp add: asp_safe_def holds_push cell_holds_def add_mset_commute algebra_simps)
    next
      case False
      with Some c show ?thesis by simp
    qed
  qed
qed

lemma update_safe:
  assumes "asp_safe s" "t < sp_threads s" "sp_todo s t = a # rest" "c < sp_ncells s"
    and a: "a = SA_UpdAdd c b n k \<or> a = SA_UpdCas c b n k"
  shows "asp_safe (sp_act spurious t a rest s)"
proof -
  let ?u = "sp_set_todo t rest s"
  from assms(1) have u: "\<not> sp_uaf s" and ok: "holds_ok (sp_holds ?u + act_holds a) (sp_blocks s)"
    using holds_pop [of t "sp_threads s" "sp_todo s", OF assms(2,3)] by (simp_all add: asp_safe_def)
  from assms(4) obtain R where R: "sp_holds ?u = R + cell_holds (sp_cells s c)"
      "\<And>x. sp_holds (?u\<lparr>sp_cells := (sp_cells s)(c := x)\<rparr>) = R + cell_holds x"
    by (rule cell_split [where cs = "sp_cells s" and f = "(sp_todo s)(t := rest)" and nt = "sp_threads s"
          and nv = "sp_vars s" and hs = "sp_handles s"]) simp
  consider "a = SA_UpdAdd c b n k" | "a = SA_UpdCas c b n k" "sp_cells s c = (Some b, n) \<and> \<not> spurious"
    | "a = SA_UpdCas c b n k" "\<not> (sp_cells s c = (Some b, n) \<and> \<not> spurious)" using a by blast
  then show ?thesis
  proof cases
    case 1
    with u ok assms(2) sp_add_ok [of "sp_holds ?u" "{#HRef b#}" s b "{#HRef b, HOwn b (int n)#}" "int n" 1]
    show ?thesis by (simp add: asp_safe_def holds_push)
  next
    case 2
    have "holds_ok (R + {#HOwn b 0, HRef b, HOwn b 0#}) (sp_blocks s)"
      by (rule holds_ok_swap [of _ "{#HOwn b (- int n), HRef b, HOwn b (int n)#}" _ b])
        (use ok R(1) 2 in \<open>simp_all add: cell_holds_def add_mset_commute\<close>)
    with 2 u R(2) [of "(Some b, 0)"] assms(2) show ?thesis
      by (simp add: asp_safe_def holds_push cell_holds_def add_mset_commute)
  next
    case 3
    with u ok assms(2) show ?thesis by (auto simp: asp_safe_def holds_push)
  qed
qed

lemma update_end_safe:
  assumes "asp_safe s" "t < sp_threads s" "sp_todo s t = a # rest"
    and a: "a = SA_UpdUndo b n k \<or> a = SA_UpdDone b k"
  shows "asp_safe (sp_act spurious t a rest s)"
proof -
  let ?u = "sp_set_todo t rest s"
  from assms(1) have u: "\<not> sp_uaf s" and ok: "holds_ok (sp_holds ?u + act_holds a) (sp_blocks s)"
    using holds_pop [of t "sp_threads s" "sp_todo s", OF assms(2,3)] by (simp_all add: asp_safe_def)
  from a show ?thesis
  proof
    assume "a = SA_UpdUndo b n k"
    with u ok assms(2) sp_add_ok [of "sp_holds ?u" "{#HRef b, HOwn b (int n)#}" s b "{#HRef b#}" "- int n" "- 1"]
    show ?thesis by (simp add: asp_safe_def holds_push)
  next
    assume "a = SA_UpdDone b k"
    with u ok assms(2) sp_add_ok [of "sp_holds ?u" "{#HRef b, HOwn b 0#}" s b "{#HRef b#}" 0 "- 1"]
    show ?thesis by (simp add: asp_safe_def holds_push)
  qed
qed

lemma sp_add_opt_ok:
  assumes "holds_ok (R + ref_holds p) (sp_blocks s)"
  shows "sp_uaf (sp_add_opt p 1 s) = sp_uaf s \<and>
    holds_ok (R + (ref_holds p + ptr_holds (\<lambda>b. HOwn b 0) p)) (sp_blocks (sp_add_opt p 1 s))"
proof (cases p)
  case (Some b)
  with sp_add_ok [of R "{#HRef b#}" s b "{#HRef b, HOwn b 0#}" 0 1] assms show ?thesis
    by (simp add: sp_add_opt_def add_mset_commute)
qed (use assms in \<open>simp add: sp_add_opt_def\<close>)

lemma sp_sub_opt_ok:
  assumes "holds_ok (R + (ref_holds p + ptr_holds (\<lambda>b. HOwn b 0) p)) (sp_blocks s)"
  shows "sp_uaf (sp_add_opt p (- 1) s) = sp_uaf s \<and> holds_ok (R + ref_holds p) (sp_blocks (sp_add_opt p (- 1) s))"
proof (cases p)
  case (Some b)
  with sp_add_ok [of R "{#HRef b, HOwn b 0#}" s b "{#HRef b#}" 0 "- 1"] assms show ?thesis
    by (simp add: sp_add_opt_def add_mset_commute)
qed (use assms in \<open>simp add: sp_add_opt_def\<close>)

lemma store_safe:
  assumes "asp_safe s" "t < sp_threads s" "sp_todo s t = a # rest" "c < sp_ncells s"
    and a: "a = SA_StoreStrong c p \<or> a = SA_Exchange c p \<or> a = SA_CasLoad c k p \<or> a = SA_CasStrong c k e n p \<or>
      a = SA_CasExec c k e n p \<or> a = SA_CasUndo c k p"
  shows "asp_safe (sp_act spurious t a rest s)"
proof -
  let ?u = "sp_set_todo t rest s"
  from assms(1) have u: "\<not> sp_uaf s" and ok: "holds_ok (sp_holds ?u + act_holds a) (sp_blocks s)"
    using holds_pop [of t "sp_threads s" "sp_todo s", OF assms(2,3)] by (simp_all add: asp_safe_def)
  from assms(4) obtain R where R: "sp_holds ?u = R + cell_holds (sp_cells s c)"
      "\<And>x. sp_holds (?u\<lparr>sp_cells := (sp_cells s)(c := x)\<rparr>) = R + cell_holds x"
    by (rule cell_split [where cs = "sp_cells s" and f = "(sp_todo s)(t := rest)" and nt = "sp_threads s"
          and nv = "sp_vars s" and hs = "sp_handles s"]) simp
  consider "a = SA_StoreStrong c p \<or> a = SA_CasStrong c k e n p" | "a = SA_Exchange c p" | "a = SA_CasLoad c k p"
    | "a = SA_CasExec c k e n p" "sp_cells s c = (e, n) \<and> \<not> spurious"
    | "a = SA_CasExec c k e n p" "\<not> (sp_cells s c = (e, n) \<and> \<not> spurious)" | "a = SA_CasUndo c k p" using a by blast
  then show ?thesis
  proof cases
    case 1
    with u ok assms(2) sp_add_opt_ok [of "sp_holds ?u" p s] show ?thesis
      by (auto simp: asp_safe_def holds_push)
  next
    case 2
    obtain q m where c: "sp_cells s c = (q, m)" by fastforce
    from ok R(1) 2 c have "holds_ok (R + cell_holds (p, 0) + ref_holds p + cell_holds (q, m)) (sp_blocks s)"
      by (simp add: cell_holds_def ac_simps)
    with 2 c u R(2) [of "(p, 0)"] assms(2) show ?thesis by (simp add: asp_safe_def holds_push)
  next
    case 3
    with u ok assms(2) show ?thesis by (simp add: asp_safe_def holds_push)
  next
    case 4
    from ok R(1) 4 have "holds_ok (R + cell_holds (p, 0) + ref_holds p + cell_holds (e, n)) (sp_blocks s)"
      by (simp add: cell_holds_def ac_simps)
    with 4 u R(2) [of "(p, 0)"] assms(2) show ?thesis by (simp add: asp_safe_def holds_push)
  next
    case 5
    with u ok assms(2) show ?thesis by (auto simp: asp_safe_def holds_push)
  next
    case 6
    with u ok assms(2) sp_sub_opt_ok [of "sp_holds ?u" p s] show ?thesis by (simp add: asp_safe_def holds_push)
  qed
qed

lemma act_safe:
  assumes "asp_safe s" "t < sp_threads s" "sp_todo s t = a # rest" "act_wf (sp_vars s) (sp_ncells s) a"
  shows "sp_wrapped (sp_act spurious t a rest s) \<or> asp_safe (sp_act spurious t a rest s)"
proof (cases a)
  case (SA_Reset p)
  with assms(4) reset_safe [OF assms(1-3)] show ?thesis by simp
next
  case (SA_Delete b)
  with assms(4) reset_safe [OF assms(1-3)] show ?thesis by simp
next
  case (SA_Give k p)
  with assms(4) give_safe [OF assms(1-3)] show ?thesis by simp
next
  case (SA_CopyInto k k')
  with assms(4) give_safe [OF assms(1-3)] show ?thesis by simp
next
  case (SA_MoveInto k k')
  with assms(4) give_safe [OF assms(1-3)] show ?thesis by simp
next
  case (SA_Load c k)
  with assms load_safe [OF assms(1,2)] show ?thesis by simp
next
  case (SA_UpdAdd c b n k)
  with assms(4) update_safe [OF assms(1-3)] show ?thesis by simp
next
  case (SA_UpdCas c b n k)
  with assms(4) update_safe [OF assms(1-3)] show ?thesis by simp
next
  case (SA_UpdUndo b n k)
  with assms(4) update_end_safe [OF assms(1-3)] show ?thesis by simp
next
  case (SA_UpdDone b k)
  with assms(4) update_end_safe [OF assms(1-3)] show ?thesis by simp
next
  case (SA_StoreStrong c p)
  with assms(4) store_safe [OF assms(1-3)] show ?thesis by simp
next
  case (SA_Exchange c p)
  with assms(4) store_safe [OF assms(1-3)] show ?thesis by simp
next
  case (SA_Cleanup p n)
  with assms(4) reset_safe [OF assms(1-3)] show ?thesis by simp
next
  case (SA_CasLoad c k p)
  with assms(4) store_safe [OF assms(1-3)] show ?thesis by simp
next
  case (SA_CasStrong c k e n p)
  with assms(4) store_safe [OF assms(1-3)] show ?thesis by simp
next
  case (SA_CasExec c k e n p)
  with assms(4) store_safe [OF assms(1-3)] show ?thesis by simp
next
  case (SA_CasUndo c k p)
  with assms(4) store_safe [OF assms(1-3)] show ?thesis by simp
qed

lemma sp_act_wrapped: "sp_wrapped s \<Longrightarrow> sp_wrapped (sp_act spurious t a rest s)"
  by (cases "(spurious, t, a, rest, s)" rule: sp_act.cases) (auto simp: Let_def split: option.splits prod.splits)

lemma sp_act_consts [simp]:
  "sp_threads (sp_act spurious t a rest s) = sp_threads s" "sp_vars (sp_act spurious t a rest s) = sp_vars s"
  "sp_ncells (sp_act spurious t a rest s) = sp_ncells s"
  by (cases "(spurious, t, a, rest, s)" rule: sp_act.cases; auto simp: Let_def split: option.splits prod.splits)+

lemma act_todo_wf:
  assumes "\<forall>b\<in>set (a # rest). act_wf (sp_vars s) (sp_ncells s) b" "sp_todo s t = a # rest"
  shows "\<forall>b\<in>set (sp_todo (sp_act spurious t a rest s) t). act_wf (sp_vars s) (sp_ncells s) b"
  using assms
  by (cases "(spurious, t, a, rest, s)" rule: sp_act.cases) (auto simp: Let_def split: option.splits prod.splits)

lemma sp_act_todo_other: "t' \<noteq> t \<Longrightarrow> sp_todo (sp_act spurious t a rest s) t' = sp_todo s t'"
  by (cases "(spurious, t, a, rest, s)" rule: sp_act.cases) (auto simp: Let_def split: option.splits prod.splits)

text \<open>A call that starts: the variables it empties become holds of its actions.\<close>

lemma start_safe:
  assumes "asp_safe s" "sp_idle s t" "k < sp_vars s"
    and "ref_holds p + acts_holds as = ref_holds (sp_handles s t k)"
  shows "asp_safe (sp_set_todo t as (sp_set_handle t k p s))"
proof -
  from assms(2) have t: "t < sp_threads s" and idle: "(sp_todo s)(t := []) = sp_todo s"
    by (simp_all add: sp_idle_def fun_upd_idem)
  from t assms(3) obtain R where R: "sp_holds s = R + ref_holds (sp_handles s t k)"
      "\<And>p. sp_holds (sp_set_handle t k p s) = R + ref_holds p"
    by (rule handle_split [where hs = "sp_handles s" and f = "sp_todo s" and nc = "sp_ncells s"
          and cs = "sp_cells s"]) simp
  have "sp_holds (sp_set_todo t as (sp_set_handle t k p s)) = sp_holds (sp_set_handle t k p s) + acts_holds as"
    using holds_all [OF t, where f = "sp_todo s" and as = as] idle by simp
  with R(2) have "sp_holds (sp_set_todo t as (sp_set_handle t k p s)) = R + (ref_holds p + acts_holds as)" by simp
  with assms(1,4) R(1) show ?thesis by (simp add: asp_safe_def)
qed

lemma start_plain_safe:
  assumes "asp_safe s" "sp_idle s t" "acts_holds as = {#}"
  shows "asp_safe (sp_set_todo t as s)"
proof -
  from assms(2) have t: "t < sp_threads s" and idle: "(sp_todo s)(t := []) = sp_todo s"
    by (simp_all add: sp_idle_def fun_upd_idem)
  from holds_all [OF t, where f = "sp_todo s" and as = as] idle assms(1,3) show ?thesis
    by (simp add: asp_safe_def)
qed

lemma make_safe:
  assumes "asp_safe s" "sp_idle s t" "sp_blocks s b = None"
  shows "asp_safe (sp_set_todo t [SA_Give k (Some b)]
    (s\<lparr>sp_blocks := (sp_blocks s)(b \<mapsto> (v, add_both 1 0 \<lparr>sc_transient = 0, sc_strong = 0\<rparr>))\<rparr>))"
proof -
  from assms(2) have t: "t < sp_threads s" and idle: "(sp_todo s)(t := []) = sp_todo s"
    by (simp_all add: sp_idle_def fun_upd_idem)
  have "sp_holds (sp_set_todo t [SA_Give k (Some b)] s) = add_mset (HRef b) (sp_holds s)"
    using holds_all [OF t, where f = "sp_todo s" and as = "[SA_Give k (Some b)]"] idle by simp
  with holds_ok_fresh [of "sp_holds s" "sp_blocks s" b v] assms(1,3) show ?thesis
    by (simp add: asp_safe_def add_both_def)
qed

lemma asp_step_safe:
  assumes "asp_safe s" "asp_wf s" "asp_step e s = Some s'"
  shows "sp_wrapped s' \<or> asp_safe s'"
proof (cases e)
  case (SP_Make t k v b)
  with assms make_safe [OF assms(1), where t = t and b = b and k = k and v = v] show ?thesis by (simp split: if_splits)
next
  case (SP_Copy t k k')
  with assms start_safe [OF assms(1), of t k' nullptr] show ?thesis by (auto split: if_splits)
next
  case (SP_Move t k k')
  with assms start_safe [OF assms(1), of t k' nullptr] show ?thesis by (auto split: if_splits)
next
  case (SP_ResetVar t k)
  with assms start_safe [OF assms(1), of t k nullptr] show ?thesis by (auto split: if_splits)
next
  case (SP_Deref t k)
  with assms obtain b where b: "t < sp_threads s" "k < sp_vars s" "sp_handles s t k = Some b"
    and s': "s' = (if sp_blocks s b = None then s\<lparr>sp_uaf := True\<rparr> else s)"
    by (auto simp: sp_idle_def split: if_splits option.splits)
  from b(1,2) have "HRef b \<in># sp_holds s"
    by (rule handle_split [where hs = "sp_handles s" and f = "sp_todo s" and nc = "sp_ncells s"
          and cs = "sp_cells s"]) (simp add: b)
  with holds_ok_alive [of "sp_holds s" "sp_blocks s" "HRef b"] assms(1) s' show ?thesis
    by (auto simp: asp_safe_def)
next
  case (SP_LoadTo t c k)
  with assms start_plain_safe [OF assms(1), of t] show ?thesis by (auto split: if_splits)
next
  case (SP_Store t c k)
  with assms start_safe [OF assms(1), of t k nullptr] show ?thesis by (auto split: if_splits)
next
  case (SP_Cas t c k k')
  with assms start_safe [OF assms(1), of t k' nullptr] show ?thesis by (auto split: if_splits)
next
  case (SP_Step t spurious)
  with assms(3) obtain a rest where "t < sp_threads s" "sp_todo s t = a # rest" "s' = sp_act spurious t a rest s"
    by (auto split: if_splits list.splits)
  with act_safe [OF assms(1)] assms(2) show ?thesis by (simp add: asp_wf_def)
qed

lemma asp_step_wf:
  assumes "asp_wf s" "asp_step e s = Some s'"
  shows "asp_wf s'"
proof (cases e)
  case (SP_Step t spurious)
  with assms(2) obtain a rest where a: "t < sp_threads s" "sp_todo s t = a # rest" "s' = sp_act spurious t a rest s"
    by (auto split: if_splits list.splits)
  have "\<forall>b\<in>set (sp_todo s' t'). act_wf (sp_vars s) (sp_ncells s) b" if "t' < sp_threads s" for t'
  proof (cases "t' = t")
    case True
    from assms(1) a(1) have "\<forall>b\<in>set (sp_todo s t). act_wf (sp_vars s) (sp_ncells s) b" by (simp add: asp_wf_def)
    then have "\<forall>b\<in>set (a # rest). act_wf (sp_vars s) (sp_ncells s) b" unfolding a(2) .
    from act_todo_wf [OF this a(2)] show ?thesis unfolding True a(3) .
  next
    case False
    with assms(1) that show ?thesis unfolding a(3) asp_wf_def sp_act_todo_other [OF False] by blast
  qed
  with a(3) show ?thesis unfolding asp_wf_def by simp
qed (use assms in \<open>auto simp: asp_wf_def split: if_splits option.splits\<close>)

lemma asp_step_wrapped: "asp_step e s = Some s' \<Longrightarrow> sp_wrapped s \<Longrightarrow> sp_wrapped s'"
  by (cases e) (auto simp: sp_act_wrapped split: if_splits option.splits list.splits)

lemma asp_step_consts:
  "asp_step e s = Some s' \<Longrightarrow> sp_threads s' = sp_threads s \<and> sp_vars s' = sp_vars s \<and> sp_ncells s' = sp_ncells s"
  by (cases e) (auto split: if_splits option.splits list.splits)

interpretation asp: transition_invariant asp_step "asp_init nt nv nc"
  "\<lambda>s. asp_inv s \<and> sp_threads s = nt \<and> sp_vars s = nv \<and> sp_ncells s = nc"
proof
  show "asp_inv (asp_init nt nv nc) \<and> sp_threads (asp_init nt nv nc) = nt \<and> sp_vars (asp_init nt nv nc) = nv \<and>
      sp_ncells (asp_init nt nv nc) = nc"
    by (simp add: asp_inv_def asp_wf_def asp_safe_def asp_init_def holds_ok_def block_ok_def holds_of_def cell_holds_def)
next
  fix s e s'
  assume inv: "asp_inv s \<and> sp_threads s = nt \<and> sp_vars s = nv \<and> sp_ncells s = nc" and step: "asp_step e s = Some s'"
  from inv asp_step_wf [OF _ step] asp_step_safe [OF _ _ step] asp_step_wrapped [OF step]
  have "asp_inv s'" unfolding asp_inv_def by blast
  with inv asp_step_consts [OF step] show "asp_inv s' \<and> sp_threads s' = nt \<and> sp_vars s' = nv \<and> sp_ncells s' = nc"
    by simp
qed

section \<open>Reading the holds\<close>



lemma tsum_sum: "tsum b (\<Sum>i < (n::nat). f i) = (\<Sum>i < n. tsum b (f i))"
  by (induction n) simp_all

lemma ssum_sum: "ssum b (\<Sum>i < (n::nat). f i) = (\<Sum>i < n. ssum b (f i))"
  by (induction n) simp_all

text \<open>The number of variables and of cells that point to a block.\<close>

definition var_count :: "nat \<Rightarrow> 'v asp \<Rightarrow> int" where
  "var_count b s = (\<Sum>t < sp_threads s. \<Sum>k < sp_vars s. if sp_handles s t k = Some b then 1 else 0)"

definition cell_count :: "nat \<Rightarrow> 'v asp \<Rightarrow> int" where
  "cell_count b s = (\<Sum>c < sp_ncells s. if fst (sp_cells s c) = Some b then 1 else 0)"

definition stamp_count :: "nat \<Rightarrow> 'v asp \<Rightarrow> int" where
  "stamp_count b s = (\<Sum>c < sp_ncells s. if fst (sp_cells s c) = Some b then int (snd (sp_cells s c)) else 0)"

lemma quiescent_counts:
  assumes "\<forall>t < sp_threads s. sp_todo s t = []"
  shows "tsum b (sp_holds s) = var_count b s - stamp_count b s" "ssum b (sp_holds s) = cell_count b s"
proof -
  have r: "tsum b (ref_holds p) = (if p = Some b then 1 else 0)" "ssum b (ref_holds p) = 0" for p
    by (cases p; simp)+
  have c: "tsum b (cell_holds x) = - (if fst x = Some b then int (snd x) else 0)"
      "ssum b (cell_holds x) = (if fst x = Some b then 1 else 0)" for x
    by (cases "fst x"; simp add: cell_holds_def)+
  have "(\<Sum>t < sp_threads s. acts_holds (sp_todo s t)) = {#}" using assms by simp
  then show "tsum b (sp_holds s) = var_count b s - stamp_count b s" "ssum b (sp_holds s) = cell_count b s"
    by (simp_all add: holds_of_def tsum_sum ssum_sum r c var_count_def stamp_count_def cell_count_def sum_negf)
qed

lemma on_block_sum: "on_block b (\<Sum>i < (n::nat). f i) = (\<Sum>i < n. on_block b (f i))"
  by (induction n) simp_all

lemma sum_mset_empty: "(\<Sum>i < (n::nat). f i) = {#} \<longleftrightarrow> (\<forall>i < n. f i = {#})"
  by (induction n) (auto simp: less_Suc_eq)

lemma quiescent_unheld:
  assumes "\<forall>t < sp_threads s. sp_todo s t = []"
  shows "on_block b (sp_holds s) = {#} \<longleftrightarrow> var_count b s = 0 \<and> cell_count b s = 0"
proof -
  have r: "on_block b (ref_holds p) = {#} \<longleftrightarrow> p \<noteq> Some b" for p by (cases p) auto
  have c: "on_block b (cell_holds x) = {#} \<longleftrightarrow> fst x \<noteq> Some b" for x by (cases "fst x") (auto simp: cell_holds_def)
  have e: "(\<Sum>t < sp_threads s. acts_holds (sp_todo s t)) = {#}" using assms by simp
  have "on_block b (sp_holds s) = {#} \<longleftrightarrow>
      (\<forall>t < sp_threads s. \<forall>k < sp_vars s. sp_handles s t k \<noteq> Some b) \<and> (\<forall>i < sp_ncells s. fst (sp_cells s i) \<noteq> Some b)"
    unfolding holds_of_def e by (simp add: on_block_sum sum_mset_empty r c)
  also have "\<dots> \<longleftrightarrow> var_count b s = 0 \<and> cell_count b s = 0"
    by (auto simp: var_count_def cell_count_def sum_nonneg_eq_0_iff sum_nonneg)
  finally show ?thesis .
qed

text \<open>
  Copy assignment resets the target before it reads the source. On self-assignment the source is
  the target, so the assignment drops the reference instead of keeping it.
\<close>

lemma self_assignment_drops_reference:
  "\<exists>s. exec asp_step (asp_init 1 1 0)
     [SP_Make 0 0 v 7, SP_Step 0 False, SP_Step 0 False,
      SP_Copy 0 0 0, SP_Step 0 False, SP_Step 0 False, SP_Step 0 False, SP_Step 0 False, SP_Step 0 False] = Some s \<and>
     sp_todo s 0 = [] \<and> sp_handles s 0 0 = nullptr \<and> sp_blocks s 7 = None"
  by (simp add: asp_init_def sp_idle_def sp_add_def sp_zero_def add_both_def Let_def)

text \<open>One thread stores a pointer in a cell, the other loads it.\<close>

lemma shared_ptr_run:
  "\<exists>s. exec asp_step (asp_init 2 1 1)
     [SP_Make 0 0 True 7, SP_Step 0 False, SP_Step 0 False,
      SP_Store 0 0 0, SP_Step 0 False, SP_LoadTo 1 0 0, SP_Step 0 False, SP_Step 1 False,
      SP_Step 0 False, SP_Step 0 False, SP_Step 1 False, SP_Step 1 False] = Some s \<and>
     sp_todo s = (\<lambda>_. []) \<and> sp_handles s 1 0 = Some 7 \<and> sp_cells s 0 = (Some 7, 1) \<and>
     \<not> sp_wrapped s \<and> \<not> sp_overflow s \<and> (\<exists>sc. sp_blocks s 7 = Some (True, sc))"
  by (simp add: asp_init_def sp_idle_def sp_add_def sp_add_opt_def sp_zero_def add_both_def int32_overflow_def Let_def fun_eq_iff)

section \<open>Properties\<close>



text \<open>
  C14: the counters are exact and nothing leaks. As long as no stamp has wrapped around and no
  counter has left the range of \<open>int32_t\<close>, the following holds whenever no call is in progress.
  A block is allocated exactly if some variable or cell points to it. Its strong count is the number
  of cells that do, and its transient count the number of variables less the stamps those cells have
  given out.
\<close>

theorem shared_ptr_counts_exact:
  assumes "reachable asp_step (asp_init nt nv nc) s" "\<not> sp_wrapped s" "\<not> sp_overflow s"
    "\<forall>t < nt. sp_todo s t = []"
  shows "case sp_blocks s b of
      None \<Rightarrow> var_count b s = 0 \<and> cell_count b s = 0
    | Some (v, sc) \<Rightarrow> (var_count b s \<noteq> 0 \<or> cell_count b s \<noteq> 0) \<and>
        sc_transient sc = var_count b s - stamp_count b s \<and> sc_strong sc = cell_count b s"
proof -
  from asp.reachable_inv [OF assms(1)] assms(2)
  have inv: "holds_ok (sp_holds s) (sp_blocks s)" and n: "sp_threads s = nt"
    by (auto simp: asp_inv_def asp_safe_def)
  from inv have "block_ok (sp_holds s) (sp_blocks s b) b" by (simp add: holds_ok_def)
  with quiescent_unheld [of s b] quiescent_counts [of s b] assms(4) n show ?thesis
    by (auto simp: block_ok_def split: option.splits)
qed

theorem shared_ptr_counts_exact_witness:
  "\<exists>s. reachable asp_step (asp_init 2 1 1) s \<and> \<not> sp_wrapped s \<and> \<not> sp_overflow s \<and> (\<forall>t < 2. sp_todo s t = []) \<and>
     sp_blocks (s :: bool asp) 7 \<noteq> None \<and> (var_count 7 s \<noteq> 0 \<or> cell_count 7 s \<noteq> 0)"
proof -
  from exec_reachable_ex [OF shared_ptr_run] obtain s :: "bool asp" where
    s: "reachable asp_step (asp_init 2 1 1) s" "\<not> sp_wrapped s" "\<not> sp_overflow s"
       "sp_todo s = (\<lambda>_. [])" "sp_blocks s 7 \<noteq> None" by auto
  then have idle: "\<forall>t < 2. sp_todo s t = []" by simp
  from shared_ptr_counts_exact [OF s(1,2,3) idle, of 7] s(5) have "var_count 7 s \<noteq> 0 \<or> cell_count 7 s \<noteq> 0"
    by (simp split: option.splits prod.splits)
  with s idle show ?thesis by blast
qed

end
