(* ===== verification/Result.thy ===== *)
theory Result
  imports Prelude
begin

text \<open>
  \<open>exe/result\<close>: values of type \<open>Result<T> = std::expected<T, Error>\<close> and the combinators that are
  applied to them with the pipe operator. \<open>expected_transform\<close>, \<open>expected_and_then\<close> and
  \<open>expected_or_else\<close> are the member functions of \<open>std::expected\<close> the code calls.
\<close>

datatype ('t, 'e) expected = Expected 't | Unexpected 'e

text \<open>\<open>std::error_code\<close>: a value and the identity of its category.\<close>

record error_code =
  ec_value :: int
  ec_category :: nat

type_synonym Error = error_code
type_synonym 't Result = "('t, Error) expected"
type_synonym Status = "unit Result"

primrec has_value :: "('t, 'e) expected \<Rightarrow> bool" where
  "has_value (Expected _) = True"
| "has_value (Unexpected _) = False"

primrec expected_transform :: "('t \<Rightarrow> 'u) \<Rightarrow> ('t, 'e) expected \<Rightarrow> ('u, 'e) expected" where
  "expected_transform user (Expected v) = Expected (user v)"
| "expected_transform user (Unexpected e) = Unexpected e"

primrec expected_and_then :: "('t \<Rightarrow> ('u, 'e) expected) \<Rightarrow> ('t, 'e) expected \<Rightarrow> ('u, 'e) expected" where
  "expected_and_then user (Expected v) = user v"
| "expected_and_then user (Unexpected e) = Unexpected e"

primrec expected_or_else :: "('e \<Rightarrow> ('t, 'e) expected) \<Rightarrow> ('t, 'e) expected \<Rightarrow> ('t, 'e) expected" where
  "expected_or_else user (Expected v) = Expected v"
| "expected_or_else user (Unexpected e) = user e"

section \<open>The library's functions\<close>

definition Ok :: "'t \<Rightarrow> 't Result" where
  "Ok value = Expected value"

definition Ok_Status :: Status where
  "Ok_Status = Expected ()"

definition Err :: "Error \<Rightarrow> 't Result" where
  "Err error = Unexpected error"

definition result_Map :: "('t \<Rightarrow> 'u) \<Rightarrow> 't Result \<Rightarrow> 'u Result" where
  "result_Map user r = expected_transform user r"

definition result_AndThen :: "('t \<Rightarrow> 'u Result) \<Rightarrow> 't Result \<Rightarrow> 'u Result" where
  "result_AndThen user r = expected_and_then user r"

definition result_OrElse :: "(Error \<Rightarrow> 't Result) \<Rightarrow> 't Result \<Rightarrow> 't Result" where
  "result_OrElse user r = expected_or_else user r"

definition result_pipe :: "'t Result \<Rightarrow> ('t Result \<Rightarrow> 'c) \<Rightarrow> 'c" where
  "result_pipe r c = c r"

lemmas result_defs = Ok_def Ok_Status_def Err_def result_Map_def result_AndThen_def result_OrElse_def result_pipe_def

lemma result_cases [case_names Ok Err]:
  obtains (Ok) v where "r = Ok v" | (Err) e where "r = Err e"
  by (cases r) (auto simp: result_defs)

lemma result_simps [simp]:
  "result_Map user (Ok v) = Ok (user v)" "result_Map user (Err e) = Err e"
  "result_AndThen f (Ok v) = f v" "result_AndThen f (Err e) = Err e"
  "result_OrElse g (Ok v) = Ok v" "result_OrElse g (Err e) = g e"
  "has_value (Ok v)" "\<not> has_value (Err e)" "Ok v \<noteq> Err e" "Err e \<noteq> Ok v"
  by (simp_all add: result_defs)

text \<open>The laws that let pipelines be regrouped.\<close>

lemma result_AndThen_assoc: "result_AndThen g (result_AndThen f r) = result_AndThen (\<lambda>v. result_AndThen g (f v)) r"
  by (cases r rule: result_cases) simp_all

lemma result_AndThen_Ok: "result_AndThen Ok r = r"
  by (cases r rule: result_cases) simp_all

lemma result_Map_AndThen: "result_Map f r = result_AndThen (\<lambda>v. Ok (f v)) r"
  by (cases r rule: result_cases) simp_all

lemma result_OrElse_assoc: "result_OrElse g (result_OrElse f r) = result_OrElse (\<lambda>e. result_OrElse g (f e)) r"
  by (cases r rule: result_cases) simp_all

end
