(* ===== verification/Future_Seq.thy ===== *)
theory Future_Seq
  imports Sched Result
begin

text \<open>
  \<open>exe/future\<close>: lazy futures and the combinators that compose them one after the other.

  A thunk is a function from the consumer it is materialized with to what the \<open>Start\<close> of the
  resulting computation does. A consumer is its \<open>Resume\<close>: a function of the value and of the
  \<open>State\<close> (the scheduler further continuations run on). What a call does is a value of type
  \<open>act\<close>: it finishes, with an outcome the caller observes, or it submits a task to a scheduler
  and returns; the rest then happens when the scheduler runs the task. The classes of the source
  that hold a consumer (\<open>MapContinuation\<close> and the others) become the functions their \<open>Resume\<close>,
  \<open>Run\<close> and \<open>Start\<close> are, with the members as arguments.
\<close>

section \<open>State, continuations, thunks\<close>

record State =
  scheduler :: "nat ptr"

definition State_default :: State where
  "State_default = \<lparr>scheduler = nullptr\<rparr>"

datatype 'x act = Finished 'x | Hop nat SchedulerHint "'x act"

type_synonym ('v, 'x) cont = "'v \<Rightarrow> State \<Rightarrow> 'x act"
type_synonym ('v, 'x) thunk = "('v, 'x) cont \<Rightarrow> 'x act"

definition Demand_Resume :: "('v, unit) cont" where
  "Demand_Resume v s = Finished ()"

definition FuncDemand_Resume :: "('v \<Rightarrow> State \<Rightarrow> 'x act) \<Rightarrow> ('v, 'x) cont" where
  "FuncDemand_Resume func val state = func val state"

section \<open>Making futures\<close>

definition ComputeValueFor_Start :: "('v, 'x) cont \<Rightarrow> 'v \<Rightarrow> 'x act" where
  "ComputeValueFor_Start consumer value = consumer value State_default"

definition ReadyThunk :: "'v \<Rightarrow> ('v, 'x) thunk" where
  "ReadyThunk value = (\<lambda>c. ComputeValueFor_Start c value)"

definition Ready :: "'v \<Rightarrow> ('v, 'x) thunk" where
  "Ready value = ReadyThunk value"

definition Return :: "'v \<Rightarrow> ('v, 'x) thunk" where
  "Return value = Ready value"

definition Value :: "'v \<Rightarrow> ('v, 'x) thunk" where
  "Value v = Ready v"

definition JustComputation_Start :: "(unit, 'x) cont \<Rightarrow> 'x act" where
  "JustComputation_Start consumer = consumer () State_default"

definition JustThunk :: "(unit, 'x) thunk" where
  "JustThunk = (\<lambda>consumer. JustComputation_Start consumer)"

definition Just :: "(unit, 'x) thunk" where
  "Just = JustThunk"

definition future_Ok :: "'t \<Rightarrow> ('t Result, 'x) thunk" where
  "future_Ok value = Ready (Ok value)"

definition future_Err :: "Error \<Rightarrow> ('t Result, 'x) thunk" where
  "future_Err e = Ready (Err e)"

definition SubmitComputation_Run :: "('v, 'x) cont \<Rightarrow> nat \<Rightarrow> (unit \<Rightarrow> 'v) \<Rightarrow> 'x act" where
  "SubmitComputation_Run consumer sched func = consumer (func ()) \<lparr>scheduler = Some sched\<rparr>"

definition SubmitComputation_Start :: "('v, 'x) cont \<Rightarrow> nat \<Rightarrow> (unit \<Rightarrow> 'v) \<Rightarrow> 'x act" where
  "SubmitComputation_Start consumer sched func = Hop sched UpToYou (SubmitComputation_Run consumer sched func)"

definition SubmitThunk :: "nat \<Rightarrow> (unit \<Rightarrow> 'v) \<Rightarrow> ('v, 'x) thunk" where
  "SubmitThunk sched func = (\<lambda>consumer. SubmitComputation_Start consumer sched func)"

definition future_Submit :: "nat \<Rightarrow> (unit \<Rightarrow> 'v) \<Rightarrow> ('v, 'x) thunk" where
  "future_Submit sched user = SubmitThunk sched user"

section \<open>Sequential combinators\<close>

definition MapContinuation_Run :: "('u, 'x) cont \<Rightarrow> ('v \<Rightarrow> 'u) \<Rightarrow> 'v \<Rightarrow> State \<Rightarrow> 'x act" where
  "MapContinuation_Run consumer func val s = consumer (func val) s"

definition MapContinuation_Resume :: "('u, 'x) cont \<Rightarrow> ('v \<Rightarrow> 'u) \<Rightarrow> ('v, 'x) cont" where
  "MapContinuation_Resume consumer func val s =
     (case scheduler s of
        None \<Rightarrow> consumer (func val) s
      | Some sched \<Rightarrow> Hop sched UpToYou (MapContinuation_Run consumer func val s))"

definition MapThunk :: "('v, 'x) thunk \<Rightarrow> ('v \<Rightarrow> 'u) \<Rightarrow> ('u, 'x) thunk" where
  "MapThunk producer func = (\<lambda>consumer. producer (MapContinuation_Resume consumer func))"

definition Map_Pipe :: "('v \<Rightarrow> 'u) \<Rightarrow> ('v, 'x) thunk \<Rightarrow> ('u, 'x) thunk" where
  "Map_Pipe user future = MapThunk future user"

definition ViaThunk :: "('v, 'x) thunk \<Rightarrow> nat \<Rightarrow> ('v, 'x) thunk" where
  "ViaThunk producer sched =
     (\<lambda>consumer. producer (FuncDemand_Resume (\<lambda>val s. consumer val (s\<lparr>scheduler := Some sched\<rparr>))))"

definition Via_Pipe :: "nat \<Rightarrow> ('v, 'x) thunk \<Rightarrow> ('v, 'x) thunk" where
  "Via_Pipe sched future = ViaThunk future sched"

definition InnerFlattenContinuation_Resume :: "('v, 'x) cont \<Rightarrow> State \<Rightarrow> ('v, 'x) cont" where
  "InnerFlattenContinuation_Resume consumer s val s' = consumer val s"

definition FlattenContinuation_Resume :: "('v, 'x) cont \<Rightarrow> (('v, 'x) thunk, 'x) cont" where
  "FlattenContinuation_Resume consumer future_val s = future_val (InnerFlattenContinuation_Resume consumer s)"

definition FlattenThunk :: "(('v, 'x) thunk, 'x) thunk \<Rightarrow> ('v, 'x) thunk" where
  "FlattenThunk producer = (\<lambda>consumer. producer (FlattenContinuation_Resume consumer))"

definition Flatten_Pipe :: "(('v, 'x) thunk, 'x) thunk \<Rightarrow> ('v, 'x) thunk" where
  "Flatten_Pipe future = FlattenThunk future"

definition future_pipe :: "('v, 'x) thunk \<Rightarrow> (('v, 'x) thunk \<Rightarrow> 'c) \<Rightarrow> 'c" where
  "future_pipe f c = c f"

definition FlatMap_Pipe :: "('v \<Rightarrow> ('u, 'x) thunk) \<Rightarrow> ('v, 'x) thunk \<Rightarrow> ('u, 'x) thunk" where
  "FlatMap_Pipe user future = future_pipe (future_pipe future (Map_Pipe user)) Flatten_Pipe"

text \<open>\<open>AndThen\<close> answers \<open>Err<T>\<close> where \<open>T\<close> is the input's value type, so the user's function returns the same type.\<close>

definition AndThen_Pipe :: "('t \<Rightarrow> ('t Result, 'x) thunk) \<Rightarrow> ('t Result, 'x) thunk \<Rightarrow> ('t Result, 'x) thunk" where
  "AndThen_Pipe user future =
     future_pipe future (FlatMap_Pipe (\<lambda>val. case val of Expected v \<Rightarrow> user v | Unexpected e \<Rightarrow> future_Err e))"

definition OrElse_Pipe :: "(Error \<Rightarrow> ('t Result, 'x) thunk) \<Rightarrow> ('t Result, 'x) thunk \<Rightarrow> ('t Result, 'x) thunk" where
  "OrElse_Pipe user future =
     future_pipe future (FlatMap_Pipe (\<lambda>val_or_err. case val_or_err of
       Expected v \<Rightarrow> future_Ok v | Unexpected e \<Rightarrow> user e))"

definition MapOkContinuation_Run :: "('u Result, 'x) cont \<Rightarrow> ('t \<Rightarrow> 'u) \<Rightarrow> 't Result \<Rightarrow> State \<Rightarrow> 'x act" where
  "MapOkContinuation_Run consumer func val s =
     (case val of
        Expected v \<Rightarrow> consumer (Ok (func v)) s
      | Unexpected e \<Rightarrow> consumer (Err e) s)"

definition MapOkContinuation_Resume :: "('u Result, 'x) cont \<Rightarrow> ('t \<Rightarrow> 'u) \<Rightarrow> ('t Result, 'x) cont" where
  "MapOkContinuation_Resume consumer func val s =
     (case scheduler s of
        None \<Rightarrow> MapOkContinuation_Run consumer func val s
      | Some sched \<Rightarrow> Hop sched UpToYou (MapOkContinuation_Run consumer func val s))"

definition MapOkThunk :: "('t Result, 'x) thunk \<Rightarrow> ('t \<Rightarrow> 'u) \<Rightarrow> ('u Result, 'x) thunk" where
  "MapOkThunk producer func = (\<lambda>consumer. producer (MapOkContinuation_Resume consumer func))"

definition MapOk_Pipe :: "('t \<Rightarrow> 'u) \<Rightarrow> ('t Result, 'x) thunk \<Rightarrow> ('u Result, 'x) thunk" where
  "MapOk_Pipe user future = MapOkThunk future user"

text \<open>\<open>AsTryFuture\<close> is the identity on futures of results and wraps plain values.\<close>

definition AsTryFuture_Result :: "('t Result, 'x) thunk \<Rightarrow> ('t Result, 'x) thunk" where
  "AsTryFuture_Result f = f"

definition AsTryFuture :: "('v, 'x) thunk \<Rightarrow> ('v Result, 'x) thunk" where
  "AsTryFuture f = future_pipe f (Map_Pipe (\<lambda>v. Ok v))"

text \<open>Type erasure: the wrappers call what they wrap.\<close>

definition BoxConsumer_Resume :: "('v, 'x) cont \<Rightarrow> ('v, 'x) cont" where
  "BoxConsumer_Resume cons val s = cons val s"

definition BoxComputation_Start :: "'x act \<Rightarrow> 'x act" where
  "BoxComputation_Start computation = computation"

definition BoxThunk :: "('v, 'x) thunk \<Rightarrow> ('v, 'x) thunk" where
  "BoxThunk producer = (\<lambda>cons. BoxComputation_Start (producer (BoxConsumer_Resume cons)))"

definition Box_Pipe :: "('v, 'x) thunk \<Rightarrow> ('v, 'x) thunk" where
  "Box_Pipe f = BoxThunk f"

lemmas future_defs = State_default_def FuncDemand_Resume_def ComputeValueFor_Start_def ReadyThunk_def Ready_def
  Return_def Value_def JustComputation_Start_def JustThunk_def Just_def future_Ok_def future_Err_def
  SubmitComputation_Run_def SubmitComputation_Start_def SubmitThunk_def future_Submit_def MapContinuation_Run_def
  MapContinuation_Resume_def MapThunk_def Map_Pipe_def ViaThunk_def Via_Pipe_def InnerFlattenContinuation_Resume_def
  FlattenContinuation_Resume_def FlattenThunk_def Flatten_Pipe_def future_pipe_def FlatMap_Pipe_def AndThen_Pipe_def
  OrElse_Pipe_def MapOkContinuation_Run_def MapOkContinuation_Resume_def MapOkThunk_def MapOk_Pipe_def
  AsTryFuture_Result_def AsTryFuture_def BoxConsumer_Resume_def BoxComputation_Start_def BoxThunk_def Box_Pipe_def

section \<open>Running futures\<close>

text \<open>
  A task of a scheduler is the rest of an \<open>act\<close>. \<open>act_task loop inl\<close> runs one, in a program whose
  schedulers are one run loop and the inline scheduler: a task submitted to the loop is
  queued there, one submitted to the inline scheduler runs at once. The world is the list of outcomes
  observed so far. The \<open>Start\<close> of a computation is run in the same way.
\<close>

fun act_task :: "nat \<Rightarrow> nat \<Rightarrow> ('x act, 'x list) task_run" where
  "act_task loop inl (Finished x) w = Some (w @ [x], [])"
| "act_task loop inl (Hop sched hint a) w =
     (if sched = loop then Some (w, [a]) else if sched = inl then act_task loop inl a w else None)"

fun outcome :: "'x act \<Rightarrow> 'x" where
  "outcome (Finished x) = x"
| "outcome (Hop sched hint a) = outcome a"

fun act_hops :: "'x act \<Rightarrow> nat list" where
  "act_hops (Finished x) = []"
| "act_hops (Hop sched hint a) = sched # act_hops a"

text \<open>
  \<open>Get\<close> blocks until the consumer has stored the value: what it returns is the outcome of the
  computation whose consumer keeps the value.
\<close>

definition Get :: "('v, 'v) thunk \<Rightarrow> 'v" where
  "Get future = outcome (future (FuncDemand_Resume (\<lambda>val _. Finished val)))"

text \<open>
  \<open>Detach\<close> puts the computation on the heap, at \<open>addr\<close>; the value's arrival deletes it. The outcome
  is the address deleted.
\<close>

definition DestructingDemand_Resume :: "nat \<Rightarrow> ('v, nat) cont" where
  "DestructingDemand_Resume addr val s = Finished addr"

definition SelfDestructingComputation :: "nat \<Rightarrow> ('v, nat) thunk \<Rightarrow> nat act" where
  "SelfDestructingComputation addr future = future (DestructingDemand_Resume addr)"

definition Detach :: "nat \<Rightarrow> ('v, nat) thunk \<Rightarrow> nat act" where
  "Detach addr future = SelfDestructingComputation addr future"

section \<open>What a future delivers\<close>

text \<open>
  A thunk delivers \<open>v\<close> in state \<open>s\<close> after running on the schedulers \<open>hs\<close>, in this order, if whatever
  the consumer is, its \<open>Resume\<close> is called once, with these arguments, at the end of that chain of tasks.
\<close>

definition hops :: "nat list \<Rightarrow> 'x act \<Rightarrow> 'x act" where
  "hops hs a = foldr (\<lambda>sched. Hop sched UpToYou) hs a"

definition delivers :: "('v, 'x) thunk \<Rightarrow> nat list \<Rightarrow> 'v \<Rightarrow> State \<Rightarrow> bool" where
  "delivers t hs v s = (\<forall>k. t k = hops hs (k v s))"

text \<open>The scheduler a continuation started in state \<open>s\<close> moves to.\<close>

definition hop_of :: "State \<Rightarrow> nat list" where
  "hop_of s = (case scheduler s of None \<Rightarrow> [] | Some sched \<Rightarrow> [sched])"

lemma hops_simps [simp]: "hops [] a = a" "hops (h # hs) a = Hop h UpToYou (hops hs a)" "hops (hs @ hs') a = hops hs (hops hs' a)"
  by (simp_all add: hops_def)

lemma outcome_hops [simp]: "outcome (hops hs a) = outcome a"
  by (induction hs) simp_all

lemma act_hops_hops [simp]: "act_hops (hops hs a) = hs @ act_hops a"
  by (induction hs) simp_all

named_theorems delivers \<open>what each combinator delivers\<close>

lemma delivers_make [delivers]:
  "delivers (Ready v) [] v State_default" "delivers (Value v) [] v State_default" "delivers (Return v) [] v State_default"
  "delivers Just [] () State_default"
  "delivers (future_Ok x) [] (Ok x) State_default" "delivers (future_Err e) [] (Err e) State_default"
  "delivers (future_Submit sched f) [sched] (f ()) \<lparr>scheduler = Some sched\<rparr>"
  by (simp_all add: delivers_def future_defs)

lemma delivers_Map [delivers]:
  "delivers t hs v s \<Longrightarrow> delivers (Map_Pipe f t) (hs @ hop_of s) (f v) s"
  by (simp add: delivers_def future_defs hop_of_def split: option.splits)

lemma delivers_Via [delivers]:
  "delivers t hs v s \<Longrightarrow> delivers (Via_Pipe sched t) hs v (s\<lparr>scheduler := Some sched\<rparr>)"
  by (simp add: delivers_def future_defs)

lemma delivers_Flatten [delivers]:
  "delivers t hs t' s \<Longrightarrow> delivers t' hs' v s' \<Longrightarrow> delivers (Flatten_Pipe t) (hs @ hs') v s"
  by (simp add: delivers_def future_defs)

lemma delivers_FlatMap [delivers]:
  assumes "delivers t hs v s" "delivers (f v) hs' w s'"
  shows "delivers (FlatMap_Pipe f t) (hs @ hop_of s @ hs') w s"
  using delivers_Flatten [OF delivers_Map [OF assms(1), of f] assms(2)]
  by (simp add: FlatMap_Pipe_def future_pipe_def)

lemma delivers_Box [delivers]: "delivers t hs v s \<Longrightarrow> delivers (Box_Pipe t) hs v s"
  by (simp add: delivers_def future_defs)

lemma delivers_MapOk [delivers]:
  "delivers t hs r s \<Longrightarrow> delivers (MapOk_Pipe f t) (hs @ hop_of s) (result_Map f r) s"
  by (cases r) (auto simp: delivers_def future_defs hop_of_def result_defs split: option.splits)

lemma delivers_AsTryFuture [delivers]:
  "delivers t hs v s \<Longrightarrow> delivers (AsTryFuture t) (hs @ hop_of s) (Ok v) s"
  unfolding AsTryFuture_def future_pipe_def by (rule delivers_Map)

lemma delivers_AndThen [delivers]:
  assumes "delivers t hs r s" "\<And>v. r = Ok v \<Longrightarrow> delivers (f v) hs' (q v) s'" "\<And>e. r = Err e \<Longrightarrow> hs' = []"
  shows "delivers (AndThen_Pipe f t) (hs @ hop_of s @ hs') (result_AndThen q r) s"
proof (cases r rule: result_cases)
  case (Ok v)
  with delivers_FlatMap [OF assms(1), of "case_expected f future_Err" hs' "q v" s'] assms(2)
  show ?thesis by (simp add: AndThen_Pipe_def future_pipe_def result_defs)
next
  case (Err e)
  with delivers_FlatMap [OF assms(1), of "case_expected f future_Err" "[]" "Err e" State_default]
    delivers_make(6) [of e] assms(3)
  show ?thesis by (simp add: AndThen_Pipe_def future_pipe_def result_defs)
qed

lemma delivers_OrElse [delivers]:
  assumes "delivers t hs r s" "\<And>e. r = Err e \<Longrightarrow> delivers (f e) hs' (q e) s'" "\<And>v. r = Ok v \<Longrightarrow> hs' = []"
  shows "delivers (OrElse_Pipe f t) (hs @ hop_of s @ hs') (result_OrElse q r) s"
proof (cases r rule: result_cases)
  case (Ok v)
  with delivers_FlatMap [OF assms(1), of "case_expected future_Ok f" "[]" "Ok v" State_default]
    delivers_make(5) [of v] assms(3)
  show ?thesis by (simp add: OrElse_Pipe_def future_pipe_def result_defs)
next
  case (Err e)
  with delivers_FlatMap [OF assms(1), of "case_expected future_Ok f" hs' "q e" s'] assms(2)
  show ?thesis by (simp add: OrElse_Pipe_def future_pipe_def result_defs)
qed

lemma delivers_Get: "delivers t hs v s \<Longrightarrow> Get t = v"
  by (simp add: Get_def delivers_def FuncDemand_Resume_def)

lemma delivers_Detach: "delivers t hs v s \<Longrightarrow> Detach addr t = hops hs (Finished addr)"
  by (simp add: Detach_def SelfDestructingComputation_def DestructingDemand_Resume_def delivers_def)

section \<open>Pipelines\<close>

text \<open>
  A pipeline is an expression over the sequential combinators. \<open>future_of\<close> is the future it builds.
  Three functions say what to expect of it without looking at continuations: the value, the scheduler in
  the state delivered with it, and the schedulers of the tasks it takes, in order. \<open>Map\<close> and
  \<open>FlatMap\<close> take a task of their own if a scheduler is set.
\<close>

datatype 'v pipeline =
    P_Value 'v
  | P_Submit nat "unit \<Rightarrow> 'v"
  | P_Map "'v \<Rightarrow> 'v" "'v pipeline"
  | P_Via nat "'v pipeline"
  | P_FlatMap "'v \<Rightarrow> 'v pipeline" "'v pipeline"
  | P_Box "'v pipeline"

primrec future_of :: "'v pipeline \<Rightarrow> ('v, 'x) thunk" where
  "future_of (P_Value v) = Value v"
| "future_of (P_Submit sched f) = future_Submit sched f"
| "future_of (P_Map f p) = Map_Pipe f (future_of p)"
| "future_of (P_Via sched p) = Via_Pipe sched (future_of p)"
| "future_of (P_FlatMap f p) = FlatMap_Pipe (\<lambda>v. future_of (f v)) (future_of p)"
| "future_of (P_Box p) = Box_Pipe (future_of p)"

primrec pipeline_value :: "'v pipeline \<Rightarrow> 'v" where
  "pipeline_value (P_Value v) = v"
| "pipeline_value (P_Submit sched f) = f ()"
| "pipeline_value (P_Map f p) = f (pipeline_value p)"
| "pipeline_value (P_Via sched p) = pipeline_value p"
| "pipeline_value (P_FlatMap f p) = (let v = pipeline_value p in pipeline_value (f v))"
| "pipeline_value (P_Box p) = pipeline_value p"

primrec pipeline_scheduler :: "'v pipeline \<Rightarrow> nat ptr" where
  "pipeline_scheduler (P_Value v) = nullptr"
| "pipeline_scheduler (P_Submit sched f) = Some sched"
| "pipeline_scheduler (P_Map f p) = pipeline_scheduler p"
| "pipeline_scheduler (P_Via sched p) = Some sched"
| "pipeline_scheduler (P_FlatMap f p) = pipeline_scheduler p"
| "pipeline_scheduler (P_Box p) = pipeline_scheduler p"

primrec pipeline_tasks :: "'v pipeline \<Rightarrow> nat list" where
  "pipeline_tasks (P_Value v) = []"
| "pipeline_tasks (P_Submit sched f) = [sched]"
| "pipeline_tasks (P_Map f p) = pipeline_tasks p @ (case pipeline_scheduler p of None \<Rightarrow> [] | Some sched \<Rightarrow> [sched])"
| "pipeline_tasks (P_Via sched p) = pipeline_tasks p"
| "pipeline_tasks (P_FlatMap f p) = pipeline_tasks p @
     (case pipeline_scheduler p of None \<Rightarrow> [] | Some sched \<Rightarrow> [sched]) @ (let v = pipeline_value p in pipeline_tasks (f v))"
| "pipeline_tasks (P_Box p) = pipeline_tasks p"

lemma delivers_pipeline:
  "delivers (future_of p) (pipeline_tasks p) (pipeline_value p) \<lparr>scheduler = pipeline_scheduler p\<rparr>"
proof (induction p)
  case (P_Value v)
  show ?case using delivers_make(2) [of v] by (simp add: State_default_def)
next
  case (P_Submit sched f)
  show ?case using delivers_make(7) [of sched f] by simp
next
  case (P_Map f p)
  from delivers_Map [OF this, of f] show ?case by (simp add: hop_of_def)
next
  case (P_Via sched p)
  from delivers_Via [OF this, of sched] show ?case by simp
next
  case (P_FlatMap f p)
  note inner = P_FlatMap.IH(1) [OF rangeI, of "pipeline_value p"]
  from delivers_FlatMap [OF P_FlatMap.IH(2), of "\<lambda>v. future_of (f v)", OF inner] show ?case by (simp add: hop_of_def Let_def)
next
  case (P_Box p)
  from delivers_Box [OF this] show ?case by simp
qed

section \<open>Running to completion\<close>

text \<open>The rest of an \<open>act\<close> runs up to its end or to the next task it submits to the loop.\<close>

definition loop_tasks :: "nat \<Rightarrow> 'x act \<Rightarrow> nat" where
  "loop_tasks loop a = count_list (act_hops a) loop"

lemma act_task_cases:
  assumes "set (act_hops a) \<subseteq> {loop, inl}"
  shows "(loop_tasks loop a = 0 \<and> act_task loop inl a w = Some (w @ [outcome a], [])) \<or>
    (\<exists>b. act_task loop inl a w = Some (w, [b]) \<and> outcome b = outcome a \<and>
       loop_tasks loop a = Suc (loop_tasks loop b) \<and> set (act_hops b) \<subseteq> {loop, inl})"
  using assms by (induction a) (auto simp: loop_tasks_def)

lemma Run_loop_acts:
  assumes "\<forall>a \<in> set q. set (act_hops a) \<subseteq> {loop, inl}"
  shows "\<exists>w'. Run_loop (act_task loop inl) n w q = Some (n + sum_list (map (\<lambda>a. Suc (loop_tasks loop a)) q), w', []) \<and>
     mset w' = mset w + mset (map outcome q)"
  using assms
proof (induction "sum_list (map (\<lambda>a. Suc (loop_tasks loop a)) q)" arbitrary: n w q rule: less_induct)
  case less
  show ?case
  proof (cases q)
    case Nil
    then show ?thesis by (simp add: Run_loop.simps)
  next
    case (Cons a q')
    note unf = Run_loop.simps [of "act_task loop inl" n w "a # q'"]
    from less.prems Cons have "set (act_hops a) \<subseteq> {loop, inl}" by simp
    from act_task_cases [OF this, of w] show ?thesis
    proof (elim disjE exE conjE)
      assume "loop_tasks loop a = 0" "act_task loop inl a w = Some (w @ [outcome a], [])"
      with Cons less.prems less.hyps [of q' "Suc n" "w @ [outcome a]"] show ?thesis
        by (simp add: unf submit_all_append)
    next
      fix b assume "act_task loop inl a w = Some (w, [b])" "outcome b = outcome a"
        "loop_tasks loop a = Suc (loop_tasks loop b)" "set (act_hops b) \<subseteq> {loop, inl}"
      with Cons less.prems less.hyps [of "q' @ [b]" "Suc n" w] show ?thesis
        by (simp add: unf submit_all_append add.commute [of "loop_tasks loop b"])
    qed
  qed
qed

lemma run_seq_starts:
  assumes "\<forall>a \<in> set as. set (act_hops a) \<subseteq> {loop, inl}"
  shows "\<exists>q. run_seq (act_task loop inl) as w =
      Some (w @ map outcome (filter (\<lambda>a. loop_tasks loop a = 0) as), q) \<and>
    (\<forall>a \<in> set q. set (act_hops a) \<subseteq> {loop, inl}) \<and>
    sum_list (map (\<lambda>a. Suc (loop_tasks loop a)) q) = sum_list (map (loop_tasks loop) as) \<and>
    map outcome q = map outcome (filter (\<lambda>a. loop_tasks loop a \<noteq> 0) as)"
  using assms
proof (induction as arbitrary: w)
  case (Cons a as)
  then have "set (act_hops a) \<subseteq> {loop, inl}" by simp
  from act_task_cases [OF this, of w] show ?case
  proof (elim disjE exE conjE)
    assume "loop_tasks loop a = 0" "act_task loop inl a w = Some (w @ [outcome a], [])"
    with Cons.IH [of "w @ [outcome a]"] Cons.prems show ?thesis by auto
  next
    fix b assume b: "act_task loop inl a w = Some (w, [b])" "outcome b = outcome a"
      "loop_tasks loop a = Suc (loop_tasks loop b)" "set (act_hops b) \<subseteq> {loop, inl}"
    from Cons.IH [of w, OF ballI] Cons.prems obtain q where
      "run_seq (act_task loop inl) as w = Some (w @ map outcome (filter (\<lambda>a. loop_tasks loop a = 0) as), q)"
      "\<forall>a \<in> set q. set (act_hops a) \<subseteq> {loop, inl}"
      "sum_list (map (\<lambda>a. Suc (loop_tasks loop a)) q) = sum_list (map (loop_tasks loop) as)"
      "map outcome q = map outcome (filter (\<lambda>a. loop_tasks loop a \<noteq> 0) as)" by (metis list.set_intros(2))
    with b show ?thesis by (intro exI [of _ "b # q"]) simp
  qed
qed simp

lemma mset_split_filter: "mset (map f (filter P xs)) + mset (map f (filter (\<lambda>x. \<not> P x) xs)) = mset (map f xs)"
  by (induction xs) auto

lemma pipeline_act:
  "outcome (future_of p (\<lambda>v s. Finished (g v s))) = g (pipeline_value p) \<lparr>scheduler = pipeline_scheduler p\<rparr>"
  "act_hops (future_of p (\<lambda>v s. Finished (g v s))) = pipeline_tasks p"
  by (simp_all add: delivers_pipeline [unfolded delivers_def, rule_format])

section \<open>Properties\<close>

text \<open>
  C25: \<open>Return\<close> and \<open>FlatMap\<close> satisfy the monad laws as far as values are concerned: both groupings of
  a chain deliver the same value in the same state, and \<open>Return\<close> is neutral. They differ in where the
  steps run: the last function of the chain is scheduled by the state of the first future in one
  grouping, and by the state of the inner future in the other; on the left \<open>Return\<close> drops the
  inner future's scheduler.
\<close>

theorem future_monad_laws:
  assumes "delivers t hs v s" "delivers (f v) hs1 w s1" "delivers (g w) hs2 x s2"
  shows "delivers (FlatMap_Pipe g (FlatMap_Pipe f t)) (hs @ hop_of s @ hs1 @ hop_of s @ hs2) x s \<and>
    delivers (FlatMap_Pipe (\<lambda>y. FlatMap_Pipe g (f y)) t) (hs @ hop_of s @ hs1 @ hop_of s1 @ hs2) x s \<and>
    delivers (FlatMap_Pipe f (Return v)) hs1 w State_default \<and>
    delivers (FlatMap_Pipe Return t) (hs @ hop_of s) v s"
proof (intro conjI)
  note bind = delivers_FlatMap [where f = f, OF assms(1,2)]
  show "delivers (FlatMap_Pipe g (FlatMap_Pipe f t)) (hs @ hop_of s @ hs1 @ hop_of s @ hs2) x s"
    using delivers_FlatMap [where f = g, OF bind assms(3)] by simp
  show "delivers (FlatMap_Pipe (\<lambda>y. FlatMap_Pipe g (f y)) t) (hs @ hop_of s @ hs1 @ hop_of s1 @ hs2) x s"
    using delivers_FlatMap [where f = "\<lambda>y. FlatMap_Pipe g (f y)", OF assms(1)
        delivers_FlatMap [where f = g, OF assms(2,3)]] by simp
  show "delivers (FlatMap_Pipe f (Return v)) hs1 w State_default"
    using delivers_FlatMap [where f = f, OF delivers_make(3) assms(2)] by (simp add: hop_of_def State_default_def)
  show "delivers (FlatMap_Pipe Return t) (hs @ hop_of s) v s"
    using delivers_FlatMap [where f = Return, OF assms(1) delivers_make(3)] by simp
qed

theorem future_monad_laws_witness:
  "delivers (FlatMap_Pipe (\<lambda>y. Value (y + 1)) (FlatMap_Pipe (\<lambda>y. future_Submit 2 (\<lambda>_. y * 2)) (future_Submit 1 (\<lambda>_. 20))) ::
      (int, 'x) thunk) [1, 1, 2, 1] 41 \<lparr>scheduler = Some 1\<rparr>"
proof -
  let ?f = "\<lambda>y. future_Submit 2 (\<lambda>_. y * 2) :: (int, 'x) thunk"
  let ?g = "\<lambda>y. Value (y + 1) :: (int, 'x) thunk"
  have "delivers (future_Submit 1 (\<lambda>_. 20) :: (int, 'x) thunk) [1] 20 \<lparr>scheduler = Some 1\<rparr>"
    "delivers (?f 20) [2] 40 \<lparr>scheduler = Some 2\<rparr>" "delivers (?g 40) [] 41 State_default"
    using delivers_make(7) [of 1 "\<lambda>_. 20 :: int"] delivers_make(7) [of 2 "\<lambda>_. 40 :: int"] delivers_make(2) [of "41 :: int"]
    by simp_all
  from future_monad_laws [where f = ?f and g = ?g, OF this] show ?thesis by (simp add: hop_of_def)
qed

text \<open>
  C26: the combinators on futures of results agree with the combinators on results: \<open>MapOk\<close>, \<open>AndThen\<close>
  and \<open>OrElse\<close> deliver what \<open>result::Map\<close>, \<open>result::AndThen\<close> and \<open>result::OrElse\<close> compute from the
  result delivered and from the results the user's futures deliver. The state stays that of the
  input, an error skips the user's function of \<open>AndThen\<close>, and a value that of \<open>OrElse\<close>.
\<close>

theorem try_future_matches_result:
  assumes "delivers t hs r s" "\<And>v. delivers (u v) (hu v) (ru v) (su v)" "\<And>e. delivers (w e) (hw e) (rw e) (sw e)"
  shows "delivers (MapOk_Pipe f t) (hs @ hop_of s) (result_Map f r) s \<and>
    delivers (AndThen_Pipe u t) (hs @ hop_of s @ (case r of Expected v \<Rightarrow> hu v | Unexpected e \<Rightarrow> [])) (result_AndThen ru r) s \<and>
    delivers (OrElse_Pipe w t) (hs @ hop_of s @ (case r of Expected v \<Rightarrow> [] | Unexpected e \<Rightarrow> hw e)) (result_OrElse rw r) s \<and>
    delivers (Box_Pipe t) hs r s \<and> delivers (AsTryFuture_Result t) hs r s"
proof (intro conjI)
  show "delivers (MapOk_Pipe f t) (hs @ hop_of s) (result_Map f r) s" by (rule delivers_MapOk [OF assms(1)])
  show "delivers (AndThen_Pipe u t) (hs @ hop_of s @ (case r of Expected v \<Rightarrow> hu v | Unexpected e \<Rightarrow> [])) (result_AndThen ru r) s"
    by (rule delivers_AndThen [OF assms(1), of _ _ _ "case r of Expected v \<Rightarrow> su v | Unexpected e \<Rightarrow> s"])
      (use assms(2) in \<open>auto simp: result_defs\<close>)
  show "delivers (OrElse_Pipe w t) (hs @ hop_of s @ (case r of Expected v \<Rightarrow> [] | Unexpected e \<Rightarrow> hw e)) (result_OrElse rw r) s"
    by (rule delivers_OrElse [OF assms(1), of _ _ _ "case r of Expected v \<Rightarrow> s | Unexpected e \<Rightarrow> sw e"])
      (use assms(3) in \<open>auto simp: result_defs\<close>)
  show "delivers (Box_Pipe t) hs r s" by (rule delivers_Box [OF assms(1)])
  show "delivers (AsTryFuture_Result t) hs r s" using assms(1) by (simp add: AsTryFuture_Result_def)
qed

theorem try_future_matches_result_witness:
  "delivers (AndThen_Pipe (\<lambda>v. future_Ok (v + 1)) (future_Ok 6) :: (int Result, 'x) thunk) [] (Ok 7) State_default"
proof -
  let ?u = "\<lambda>v. future_Ok (v + 1) :: (int Result, 'x) thunk"
  have "delivers (?u v) [] (Ok (v + 1)) State_default" for v by (rule delivers_make(5))
  from try_future_matches_result [where f = "\<lambda>v. v" and u = ?u and w = future_Err, OF delivers_make(5) [of 6] this delivers_make(6)]
  show ?thesis by (simp add: hop_of_def State_default_def result_defs)
qed

text \<open>
  C27: pipelines on a run loop. Build any number of futures from \<open>Value\<close>, \<open>Submit\<close>, \<open>Map\<close>, \<open>Via\<close>, \<open>FlatMap\<close>
  and \<open>Box\<close>, with one \<open>RunLoop\<close> and the inline scheduler as their schedulers, and start each with a
  consumer of its own. The consumers of the futures that need no task on the loop are called before
  \<open>Start\<close> returns. \<open>Run\<close> of the loop then returns: it leaves the queue empty, every consumer
  has been called exactly once, with the value and the scheduler the combinators stand for, and
  the number of tasks it reports is the number of \<open>Submit\<close>s, \<open>Map\<close>s and \<open>FlatMap\<close>s that had the loop
  as their scheduler.
\<close>

theorem pipelines_on_run_loop:
  assumes "\<forall>(p, g) \<in> set ps. set (pipeline_tasks p) \<subseteq> {loop, inl}"
  shows "\<exists>q w. run_seq (act_task loop inl) (map (\<lambda>(p, g). future_of p (\<lambda>v s. Finished (g v s))) ps) [] =
      Some (map (\<lambda>(p, g). g (pipeline_value p) \<lparr>scheduler = pipeline_scheduler p\<rparr>)
              (filter (\<lambda>(p, g). loop \<notin> set (pipeline_tasks p)) ps), q) \<and>
    Run (act_task loop inl) (map (\<lambda>(p, g). g (pipeline_value p) \<lparr>scheduler = pipeline_scheduler p\<rparr>)
              (filter (\<lambda>(p, g). loop \<notin> set (pipeline_tasks p)) ps)) q =
      Some (\<Sum>(p, g)\<leftarrow>ps. count_list (pipeline_tasks p) loop, w, []) \<and>
    mset w = mset (map (\<lambda>(p, g). g (pipeline_value p) \<lparr>scheduler = pipeline_scheduler p\<rparr>) ps)"
proof -
  let ?act = "\<lambda>(p, g). future_of p (\<lambda>v s. Finished (g v s))"
  let ?out = "\<lambda>(p, g). g (pipeline_value p) \<lparr>scheduler = pipeline_scheduler p\<rparr>"
  have out: "outcome \<circ> ?act = ?out" by (auto simp: pipeline_act)
  have cnt: "loop_tasks loop \<circ> ?act = (\<lambda>(p, g). count_list (pipeline_tasks p) loop)"
    by (auto simp: loop_tasks_def pipeline_act)
  have fil: "(\<lambda>a. loop_tasks loop a = 0) \<circ> ?act = (\<lambda>(p, g). loop \<notin> set (pipeline_tasks p))"
    by (auto simp: loop_tasks_def pipeline_act count_list_0_iff)
  from assms have "\<forall>a \<in> set (map ?act ps). set (act_hops a) \<subseteq> {loop, inl}"
    by (auto simp: pipeline_act dest!: bspec)
  from run_seq_starts [OF this, of "[]"] obtain q where
    q: "run_seq (act_task loop inl) (map ?act ps) [] = Some (map outcome (filter (\<lambda>a. loop_tasks loop a = 0) (map ?act ps)), q)"
      "\<forall>a \<in> set q. set (act_hops a) \<subseteq> {loop, inl}"
      "sum_list (map (\<lambda>a. Suc (loop_tasks loop a)) q) = sum_list (map (loop_tasks loop) (map ?act ps))"
      "map outcome q = map outcome (filter (\<lambda>a. loop_tasks loop a \<noteq> 0) (map ?act ps))" by (metis append_Nil)
  have w0: "map outcome (filter (\<lambda>a. loop_tasks loop a = 0) (map ?act ps)) =
      map ?out (filter (\<lambda>(p, g). loop \<notin> set (pipeline_tasks p)) ps)"
    by (simp add: filter_map fil out)
  from Run_loop_acts [OF q(2), of 0 "map outcome (filter (\<lambda>a. loop_tasks loop a = 0) (map ?act ps))"] obtain w where
    w: "Run_loop (act_task loop inl) 0 (map outcome (filter (\<lambda>a. loop_tasks loop a = 0) (map ?act ps))) q =
        Some (sum_list (map (\<lambda>a. Suc (loop_tasks loop a)) q), w, [])"
      "mset w = mset (map outcome (filter (\<lambda>a. loop_tasks loop a = 0) (map ?act ps))) + mset (map outcome q)" by auto
  from w(2) q(4) mset_split_filter [of outcome "\<lambda>a. loop_tasks loop a = 0" "map ?act ps"]
  have "mset w = mset (map ?out ps)" by (simp add: out)
  with q(1) w(1) show ?thesis unfolding Run_def w0 q(3) by (simp add: cnt)
qed

theorem pipelines_on_run_loop_witness:
  "\<exists>q w. run_seq (act_task 0 1)
      [future_of (P_Map Suc (P_Map Suc (P_FlatMap (\<lambda>_. P_Value 7) (P_Via 0 (P_Value (0 :: nat)))))) (\<lambda>v s. Finished (1 :: nat, v)),
       future_of (P_Map Suc (P_Via 1 (P_Value 4))) (\<lambda>v s. Finished (2, v))] [] = Some ([(2, 5)], q) \<and>
     Run (act_task 0 1) [(2, 5)] q = Some (3, w, []) \<and> mset w = {#(1, 9), (2, 5)#}"
  using pipelines_on_run_loop
    [of "[(P_Map Suc (P_Map Suc (P_FlatMap (\<lambda>_. P_Value 7) (P_Via 0 (P_Value (0 :: nat))))), \<lambda>v s. (1 :: nat, v)),
          (P_Map Suc (P_Via 1 (P_Value 4)), \<lambda>v s. (2, v))]" 0 1] by (simp add: numeral_3_eq_3)

end
