(* ===== verification/Future_Concur.thy ===== *)
theory Future_Concur
  imports Future_Seq
begin

text \<open>
  \<open>exe/future\<close>: the parts in which two threads meet. Each is a machine whose steps are the
  accesses to the shared object: the contract behind \<open>Contract\<close>, the joint continuations of \<open>Both\<close>
  and \<open>First\<close>, and the eager computation of \<open>Start\<close>. The fields that end in \<open>bad\<close> record an access to a deleted
  object or to a value that is not there; the lists of calls record every \<open>Resume\<close> of the consumer.
\<close>

unbundle bit_operations_syntax

section \<open>ManualLifetime\<close>

text \<open>The storage holds a value once it has been initialised.\<close>

definition ManualLifetime_Init :: "'v \<Rightarrow> 'v option \<Rightarrow> 'v option" where
  "ManualLifetime_Init val buf = Some val"

definition ManualLifetime_Access :: "'v option \<Rightarrow> 'v option" where
  "ManualLifetime_Access buf = buf"

section \<open>Contract\<close>

text \<open>\<open>RendezvousStateMachine\<close>: the new state and whether this call is the second one.\<close>

abbreviation (input) rdv_Empty :: u32 where "rdv_Empty \<equiv> 0"
abbreviation (input) rdv_Produced :: u32 where "rdv_Produced \<equiv> 1"
abbreviation (input) rdv_Consumed :: u32 where "rdv_Consumed \<equiv> 2"

definition rdv_Produce :: "u32 \<Rightarrow> bool \<times> u32" where
  "rdv_Produce st = (st = rdv_Consumed, st OR rdv_Produced)"

definition rdv_Consume :: "u32 \<Rightarrow> bool \<times> u32" where
  "rdv_Consume st = (st = rdv_Produced, st OR rdv_Consumed)"

text \<open>Both sides go through the same points: not called yet, before the store, before the
  \<open>fetch_or\<close>, before the callback, before \<open>delete this\<close>, returned.\<close>

datatype ct_pc = CT_Idle | CT_Store | CT_Or | CT_Call | CT_Delete | CT_End

record 'v contract =
  ct_value :: "'v option"
  ct_callback :: bool
  ct_state :: u32
  ct_prod :: ct_pc
  ct_cons :: ct_pc
  ct_arg :: "'v option"
  ct_calls :: "('v \<times> State) list"
  ct_deletes :: nat
  ct_bad :: bool

definition Contract :: "'v contract" where
  "Contract = \<lparr>ct_value = None, ct_callback = False, ct_state = rdv_Empty, ct_prod = CT_Idle, ct_cons = CT_Idle,
     ct_arg = None, ct_calls = [], ct_deletes = 0, ct_bad = False\<rparr>"

text \<open>\<open>callback_(std::move(value_.Access()))\<close>: the callback resumes the consumer in a fresh state.\<close>

definition ct_run_callback :: "'v contract \<Rightarrow> 'v contract" where
  "ct_run_callback s =
     (case ManualLifetime_Access (ct_value s) of
        Some v \<Rightarrow> if ct_callback s then s\<lparr>ct_calls := ct_calls s @ [(v, State_default)]\<rparr> else s\<lparr>ct_bad := True\<rparr>
      | None \<Rightarrow> s\<lparr>ct_bad := True\<rparr>)"

text \<open>Any access after the object was deleted is bad.\<close>

definition ct_access :: "'v contract \<Rightarrow> 'v contract" where
  "ct_access s = (if ct_deletes s > 0 then s\<lparr>ct_bad := True\<rparr> else s)"

definition ContractState_Produce :: "'v contract \<Rightarrow> 'v contract option" where
  "ContractState_Produce s0 = (let s = ct_access s0 in
     case ct_prod s of
       CT_Store \<Rightarrow> Some (s\<lparr>ct_value := (case ct_arg s of None \<Rightarrow> None | Some v \<Rightarrow> ManualLifetime_Init v (ct_value s)),
                     ct_prod := CT_Or\<rparr>)
     | CT_Or \<Rightarrow> (case rdv_Produce (ct_state s) of (rendezvous, st) \<Rightarrow>
                   Some (s\<lparr>ct_state := st, ct_prod := (if rendezvous then CT_Call else CT_End)\<rparr>))
     | CT_Call \<Rightarrow> Some ((ct_run_callback s)\<lparr>ct_prod := CT_Delete\<rparr>)
     | CT_Delete \<Rightarrow> Some (s\<lparr>ct_deletes := Suc (ct_deletes s), ct_prod := CT_End\<rparr>)
     | _ \<Rightarrow> None)"

definition ContractState_Consume :: "'v contract \<Rightarrow> 'v contract option" where
  "ContractState_Consume s0 = (let s = ct_access s0 in
     case ct_cons s of
       CT_Store \<Rightarrow> Some (s\<lparr>ct_callback := True, ct_cons := CT_Or\<rparr>)
     | CT_Or \<Rightarrow> (case rdv_Consume (ct_state s) of (rendezvous, st) \<Rightarrow>
                   Some (s\<lparr>ct_state := st, ct_cons := (if rendezvous then CT_Call else CT_End)\<rparr>))
     | CT_Call \<Rightarrow> Some ((ct_run_callback s)\<lparr>ct_cons := CT_Delete\<rparr>)
     | CT_Delete \<Rightarrow> Some (s\<lparr>ct_deletes := Suc (ct_deletes s), ct_cons := CT_End\<rparr>)
     | _ \<Rightarrow> None)"

text \<open>\<open>Promise::Set\<close> and the \<open>Start\<close> of the contract's computation, each called at most once, in any order.\<close>

datatype 'v ct_event = CT_Promise_Set 'v | CT_Computation_Start | CT_Producer | CT_Consumer

fun contract_step :: "'v ct_event \<Rightarrow> 'v contract \<Rightarrow> 'v contract option" where
  "contract_step (CT_Promise_Set v) s =
     (if ct_prod s = CT_Idle then Some (s\<lparr>ct_prod := CT_Store, ct_arg := Some v\<rparr>) else None)"
| "contract_step CT_Computation_Start s =
     (if ct_cons s = CT_Idle then Some (s\<lparr>ct_cons := CT_Store\<rparr>) else None)"
| "contract_step CT_Producer s = ContractState_Produce s"
| "contract_step CT_Consumer s = ContractState_Consume s"

section \<open>Both\<close>

datatype both_pc = BO_Idle | BO_Emplace | BO_Add | BO_Resume | BO_End

record ('a, 'b) both =
  bo_a :: "'a option"
  bo_b :: "'b option"
  bo_finished :: u32
  bo_pcA :: both_pc
  bo_pcB :: both_pc
  bo_argA :: "'a option"
  bo_argB :: "'b option"
  bo_calls :: "(('a \<times> 'b) \<times> State) list"
  bo_bad :: bool

definition BothThunk :: "('a, 'b) both" where
  "BothThunk = \<lparr>bo_a = None, bo_b = None, bo_finished = 0, bo_pcA = BO_Idle, bo_pcB = BO_Idle,
     bo_argA = None, bo_argB = None, bo_calls = [], bo_bad = False\<rparr>"

text \<open>\<open>a_.value()\<close> and \<open>b_.value()\<close> throw when nothing is stored.\<close>

definition bo_resume_consumer :: "('a, 'b) both \<Rightarrow> ('a, 'b) both" where
  "bo_resume_consumer s =
     (case (bo_a s, bo_b s) of
        (Some a, Some b) \<Rightarrow> s\<lparr>bo_calls := bo_calls s @ [((a, b), State_default)]\<rparr>
      | _ \<Rightarrow> s\<lparr>bo_bad := True\<rparr>)"

definition both_ResumeA :: "('a, 'b) both \<Rightarrow> ('a, 'b) both option" where
  "both_ResumeA s =
     (case bo_pcA s of
        BO_Emplace \<Rightarrow> Some (s\<lparr>bo_a := bo_argA s, bo_pcA := BO_Add\<rparr>)
      | BO_Add \<Rightarrow> Some (s\<lparr>bo_finished := bo_finished s + 1, bo_pcA := (if bo_finished s = 1 then BO_Resume else BO_End)\<rparr>)
      | BO_Resume \<Rightarrow> Some ((bo_resume_consumer s)\<lparr>bo_pcA := BO_End\<rparr>)
      | _ \<Rightarrow> None)"

definition both_ResumeB :: "('a, 'b) both \<Rightarrow> ('a, 'b) both option" where
  "both_ResumeB s =
     (case bo_pcB s of
        BO_Emplace \<Rightarrow> Some (s\<lparr>bo_b := bo_argB s, bo_pcB := BO_Add\<rparr>)
      | BO_Add \<Rightarrow> Some (s\<lparr>bo_finished := bo_finished s + 1, bo_pcB := (if bo_finished s = 1 then BO_Resume else BO_End)\<rparr>)
      | BO_Resume \<Rightarrow> Some ((bo_resume_consumer s)\<lparr>bo_pcB := BO_End\<rparr>)
      | _ \<Rightarrow> None)"

text \<open>
  \<open>BO_A a\<close>: the first input delivers \<open>a\<close> to its \<open>ContinuationBinder\<close>; \<open>BO_B b\<close> the second. Each
  input delivers at most once (\<open>delivers\<close>), at any time after \<open>Start\<close>.
\<close>

datatype ('a, 'b) both_event = BO_A 'a | BO_B 'b | BO_StepA | BO_StepB

fun both_step :: "('a, 'b) both_event \<Rightarrow> ('a, 'b) both \<Rightarrow> ('a, 'b) both option" where
  "both_step (BO_A a) s = (if bo_pcA s = BO_Idle then Some (s\<lparr>bo_pcA := BO_Emplace, bo_argA := Some a\<rparr>) else None)"
| "both_step (BO_B b) s = (if bo_pcB s = BO_Idle then Some (s\<lparr>bo_pcB := BO_Emplace, bo_argB := Some b\<rparr>) else None)"
| "both_step BO_StepA s = both_ResumeA s"
| "both_step BO_StepB s = both_ResumeB s"

section \<open>First\<close>

text \<open>
  \<open>FI_Add\<close>: before the \<open>fetch_add\<close>; \<open>FI_Resume\<close>: the winner, before it calls its member \<open>consumer_\<close>;
  \<open>FI_Destroy\<close>: the loser, before it deletes the computation that owns the continuation.
  A thread that enters \<open>Resume\<close> at one of these points after the computation is deleted touches
  freed memory: this sets \<open>fi_bad\<close>, and the machine has no further step, since nothing is
  promised from then on. The call of the consumer is one step.
\<close>

datatype first_pc = FI_Idle | FI_Add | FI_Resume | FI_Destroy | FI_End

record 'v first =
  fi_finished :: u32
  fi_pc :: "bool \<Rightarrow> first_pc"
  fi_arg :: "bool \<Rightarrow> ('v \<times> State) option"
  fi_winner :: "bool option"
  fi_calls :: "('v \<times> State) list"
  fi_deletes :: nat
  fi_bad :: bool

definition FirstThunk :: "'v first" where
  "FirstThunk = \<lparr>fi_finished = 0, fi_pc = (\<lambda>_. FI_Idle), fi_arg = (\<lambda>_. None), fi_winner = None, fi_calls = [],
     fi_deletes = 0, fi_bad = False\<rparr>"

definition first_Resume :: "bool \<Rightarrow> 'v first \<Rightarrow> 'v first option" where
  "first_Resume i s =
     (if fi_pc s i \<in> {FI_Add, FI_Resume, FI_Destroy} \<and> fi_deletes s > 0 then Some (s\<lparr>fi_bad := True\<rparr>)
      else case (fi_pc s i, fi_arg s i) of
        (FI_Add, Some (v, st)) \<Rightarrow>
          Some (s\<lparr>fi_finished := fi_finished s + 1,
                  fi_winner := (if fi_finished s = 0 then Some i else fi_winner s),
                  fi_pc := (fi_pc s)(i := if fi_finished s = 0 then FI_Resume else FI_Destroy)\<rparr>)
      | (FI_Resume, Some (v, st)) \<Rightarrow>
          Some (s\<lparr>fi_calls := fi_calls s @ [(v, st\<lparr>scheduler := nullptr\<rparr>)], fi_pc := (fi_pc s)(i := FI_End)\<rparr>)
      | (FI_Destroy, Some (v, st)) \<Rightarrow>
          Some (s\<lparr>fi_deletes := Suc (fi_deletes s), fi_pc := (fi_pc s)(i := FI_End)\<rparr>)
      | _ \<Rightarrow> None)"

datatype 'v first_event = FI_Deliver bool 'v State | FI_Step bool

fun first_step :: "'v first_event \<Rightarrow> 'v first \<Rightarrow> 'v first option" where
  "first_step (FI_Deliver i v st) s =
     (if \<not> fi_bad s \<and> fi_pc s i = FI_Idle
      then Some (s\<lparr>fi_pc := (fi_pc s)(i := FI_Add), fi_arg := (fi_arg s)(i \<mapsto> (v, st))\<rparr>) else None)"
| "first_step (FI_Step i) s = (if fi_bad s then None else first_Resume i s)"

section \<open>Start\<close>

text \<open>
  The producer's thread is inside \<open>StartComputation::Resume\<close>, the thread of the consumer inside
  \<open>StartComputationWithConsumer::Start\<close>. \<open>se_inside\<close> tells whether resuming the consumer deletes the
  object whose \<open>Start\<close> is running, as the demand of \<open>Detach\<close> does. The futex wait compares and
  sleeps in one step, may return spuriously, and checks again.
\<close>

datatype se_rpc = SR_Idle | SR_Emplace | SR_State | SR_Store | SR_Wake | SR_End
datatype se_wpc = SW_Idle | SW_Load | SW_Futex | SW_Asleep | SW_Resume | SW_Delete | SW_End

record 'v startc =
  se_ready :: u32
  se_val :: "'v option"
  se_s :: State
  se_r :: se_rpc
  se_w :: se_wpc
  se_arg :: "('v \<times> State) option"
  se_inside :: bool
  se_calls :: "('v \<times> State) list"
  se_comp_deletes :: nat
  se_outer_deleted :: bool
  se_bad :: bool

definition StartThunk :: "bool \<Rightarrow> 'v startc" where
  "StartThunk inside = \<lparr>se_ready = 0, se_val = None, se_s = State_default, se_r = SR_Idle, se_w = SW_Idle, se_arg = None,
     se_inside = inside, se_calls = [], se_comp_deletes = 0, se_outer_deleted = False, se_bad = False\<rparr>"

definition se_access :: "'v startc \<Rightarrow> 'v startc" where
  "se_access s = (if se_comp_deletes s > 0 then s\<lparr>se_bad := True\<rparr> else s)"

definition StartComputation_Resume :: "'v startc \<Rightarrow> 'v startc option" where
  "StartComputation_Resume s =
     (case (se_r s, se_arg s) of
        (SR_Emplace, Some (v, st)) \<Rightarrow> Some ((se_access s)\<lparr>se_val := Some v, se_r := SR_State\<rparr>)
      | (SR_State, Some (v, st)) \<Rightarrow> Some ((se_access s)\<lparr>se_s := st, se_r := SR_Store\<rparr>)
      | (SR_Store, Some (v, st)) \<Rightarrow> Some ((se_access s)\<lparr>se_ready := 1, se_r := SR_Wake\<rparr>)
      | (SR_Wake, Some (v, st)) \<Rightarrow>
          Some (s\<lparr>se_r := SR_End, se_w := (if se_w s = SW_Asleep then SW_Load else se_w s)\<rparr>)
      | _ \<Rightarrow> None)"

definition StartComputationWithConsumer_Start :: "'v startc \<Rightarrow> 'v startc option" where
  "StartComputationWithConsumer_Start s =
     (case se_w s of
        SW_Load \<Rightarrow> Some ((se_access s)\<lparr>se_w := (if se_ready s = 0 then SW_Futex else SW_Resume)\<rparr>)
      | SW_Futex \<Rightarrow> Some ((se_access s)\<lparr>se_w := (if se_ready s = 0 then SW_Asleep else SW_Load)\<rparr>)
      | SW_Resume \<Rightarrow>
          Some (case se_val s of
                  None \<Rightarrow> s\<lparr>se_bad := True, se_w := SW_Delete\<rparr>
                | Some v \<Rightarrow> (se_access s)\<lparr>se_calls := se_calls s @ [(v, se_s s)],
                              se_outer_deleted := se_inside s, se_w := SW_Delete\<rparr>)
      | SW_Delete \<Rightarrow>
          Some (s\<lparr>se_comp_deletes := Suc (se_comp_deletes s), se_bad := (se_bad s \<or> se_outer_deleted s), se_w := SW_End\<rparr>)
      | _ \<Rightarrow> None)"

datatype 'v se_event = SE_Deliver 'v State | SE_Start | SE_Producer | SE_Consumer | SE_Spurious

fun start_step :: "'v se_event \<Rightarrow> 'v startc \<Rightarrow> 'v startc option" where
  "start_step (SE_Deliver v st) s =
     (if se_r s = SR_Idle then Some (s\<lparr>se_r := SR_Emplace, se_arg := Some (v, st)\<rparr>) else None)"
| "start_step SE_Start s = (if se_w s = SW_Idle then Some (s\<lparr>se_w := SW_Load\<rparr>) else None)"
| "start_step SE_Producer s = StartComputation_Resume s"
| "start_step SE_Consumer s = StartComputationWithConsumer_Start s"
| "start_step SE_Spurious s = (if se_w s = SW_Asleep then Some (s\<lparr>se_w := SW_Load\<rparr>) else None)"

section \<open>Functions and operators\<close>

definition Promise_Set :: "'v \<Rightarrow> 'v contract \<Rightarrow> 'v contract option" where
  "Promise_Set v s = contract_step (CT_Promise_Set v) s"

definition ContractComputation_Start :: "'v contract \<Rightarrow> 'v contract option" where
  "ContractComputation_Start s = contract_step CT_Computation_Start s"

definition Both :: "('a, 'b) both" where
  "Both = BothThunk"

definition operator_times :: "('a, 'b) both" where
  "operator_times = Both"

definition First :: "'v first" where
  "First = FirstThunk"

definition operator_or :: "'v first" where
  "operator_or = First"

definition Start_Pipe :: "bool \<Rightarrow> 'v startc" where
  "Start_Pipe inside = StartThunk inside"

definition Force :: "bool \<Rightarrow> 'v startc" where
  "Force inside = Start_Pipe inside"

definition operator_bang :: "bool \<Rightarrow> 'v startc" where
  "operator_bang inside = Start_Pipe inside"

section \<open>Invariants\<close>

text \<open>
  The points of the two sides of a contract determine whether the callback has run and the state
  has been deleted; combinations that cannot occur have no entry.
\<close>

fun ct_phase :: "ct_pc \<Rightarrow> ct_pc \<Rightarrow> (bool \<times> nat) option" where
  "ct_phase CT_Call q = (if q = CT_End then Some (False, 0) else None)"
| "ct_phase CT_Delete q = (if q = CT_End then Some (True, 0) else None)"
| "ct_phase CT_End q = (case q of CT_End \<Rightarrow> Some (True, 1) | CT_Delete \<Rightarrow> Some (True, 0) | _ \<Rightarrow> Some (False, 0))"
| "ct_phase p q = (if q = CT_Call \<or> q = CT_Delete then None else Some (False, 0))"

definition ct_past :: "ct_pc \<Rightarrow> bool" where
  "ct_past p = (p \<in> {CT_Call, CT_Delete, CT_End})"

definition contract_inv :: "'v contract \<Rightarrow> bool" where
  "contract_inv s =
     (\<not> ct_bad s \<and> (ct_arg s = None \<longleftrightarrow> ct_prod s = CT_Idle) \<and>
      ct_value s = (if ct_prod s \<in> {CT_Idle, CT_Store} then None else ct_arg s) \<and>
      ct_callback s = (ct_cons s \<notin> {CT_Idle, CT_Store}) \<and>
      ct_state s = (if ct_past (ct_prod s) then 1 else 0) + (if ct_past (ct_cons s) then 2 else 0) \<and>
      (case ct_phase (ct_prod s) (ct_cons s) of
         None \<Rightarrow> False
       | Some (called, d) \<Rightarrow> ct_deletes s = d \<and>
           ct_calls s = (if called then [(the (ct_arg s), State_default)] else [])))"

lemmas contract_defs = contract_inv_def ContractState_Produce_def ContractState_Consume_def ct_run_callback_def
  ct_access_def ct_past_def rdv_Produce_def rdv_Consume_def ManualLifetime_Init_def ManualLifetime_Access_def Let_def

lemma contract_produce_inv:
  assumes "contract_inv s" "ContractState_Produce s = Some s'"
  shows "contract_inv s'"
  using assms by (cases "ct_prod s"; cases "ct_cons s"; cases "ct_arg s"; simp add: contract_defs; clarsimp)

lemma contract_consume_inv:
  assumes "contract_inv s" "ContractState_Consume s = Some s'"
  shows "contract_inv s'"
  using assms by (cases "ct_cons s"; cases "ct_prod s"; cases "ct_arg s"; simp add: contract_defs; clarsimp)

lemma contract_call_inv:
  "contract_inv s \<Longrightarrow> ct_prod s = CT_Idle \<Longrightarrow> contract_inv (s\<lparr>ct_prod := CT_Store, ct_arg := Some v\<rparr>)"
  "contract_inv s \<Longrightarrow> ct_cons s = CT_Idle \<Longrightarrow> contract_inv (s\<lparr>ct_cons := CT_Store\<rparr>)"
  by (cases "ct_cons s"; simp add: contract_inv_def ct_past_def; clarsimp)
    (cases "ct_prod s"; simp add: contract_inv_def ct_past_def; clarsimp)

interpretation contract: transition_invariant contract_step Contract contract_inv
proof
  show "contract_inv Contract" by (simp add: contract_inv_def Contract_def ct_past_def)
next
  fix s :: "'v contract" and e s'
  assume "contract_inv s" "contract_step e s = Some s'"
  then show "contract_inv s'"
    by (cases e) (auto intro: contract_call_inv contract_produce_inv contract_consume_inv split: if_splits)
qed

fun bo_phase :: "both_pc \<Rightarrow> both_pc \<Rightarrow> bool option" where
  "bo_phase BO_Resume q = (if q = BO_End then Some False else None)"
| "bo_phase BO_End q = Some (q = BO_End)"
| "bo_phase p q = (if q = BO_Resume then None else Some False)"

definition bo_past :: "both_pc \<Rightarrow> bool" where
  "bo_past p = (p \<in> {BO_Resume, BO_End})"

definition both_inv :: "('a, 'b) both \<Rightarrow> bool" where
  "both_inv s =
     (\<not> bo_bad s \<and> (bo_argA s = None \<longleftrightarrow> bo_pcA s = BO_Idle) \<and> (bo_argB s = None \<longleftrightarrow> bo_pcB s = BO_Idle) \<and>
      bo_a s = (if bo_pcA s \<in> {BO_Idle, BO_Emplace} then None else bo_argA s) \<and>
      bo_b s = (if bo_pcB s \<in> {BO_Idle, BO_Emplace} then None else bo_argB s) \<and>
      bo_finished s = (if bo_past (bo_pcA s) then 1 else 0) + (if bo_past (bo_pcB s) then 1 else 0) \<and>
      (case bo_phase (bo_pcA s) (bo_pcB s) of
         None \<Rightarrow> False
       | Some called \<Rightarrow> bo_calls s = (if called then [((the (bo_argA s), the (bo_argB s)), State_default)] else [])))"

lemmas both_defs = both_inv_def both_ResumeA_def both_ResumeB_def bo_resume_consumer_def bo_past_def

lemma both_resumeA_inv:
  assumes "both_inv s" "both_ResumeA s = Some s'"
  shows "both_inv s'"
  using assms by (cases "bo_pcA s"; cases "bo_pcB s"; cases "bo_argA s"; cases "bo_argB s"; simp add: both_defs; clarsimp)

lemma both_resumeB_inv:
  assumes "both_inv s" "both_ResumeB s = Some s'"
  shows "both_inv s'"
  using assms by (cases "bo_pcB s"; cases "bo_pcA s"; cases "bo_argA s"; cases "bo_argB s"; simp add: both_defs; clarsimp)

lemma both_deliver_inv:
  "both_inv s \<Longrightarrow> bo_pcA s = BO_Idle \<Longrightarrow> both_inv (s\<lparr>bo_pcA := BO_Emplace, bo_argA := Some a\<rparr>)"
  "both_inv s \<Longrightarrow> bo_pcB s = BO_Idle \<Longrightarrow> both_inv (s\<lparr>bo_pcB := BO_Emplace, bo_argB := Some b\<rparr>)"
  by (cases "bo_pcB s"; simp add: both_inv_def bo_past_def; clarsimp)
    (cases "bo_pcA s"; simp add: both_inv_def bo_past_def; clarsimp)

interpretation both: transition_invariant both_step BothThunk both_inv
proof
  show "both_inv BothThunk" by (simp add: both_inv_def BothThunk_def bo_past_def)
next
  fix s :: "('a, 'b) both" and e s'
  assume "both_inv s" "both_step e s = Some s'"
  then show "both_inv s'"
    by (cases e) (auto intro: both_deliver_inv both_resumeA_inv both_resumeB_inv split: if_splits)
qed

text \<open>The winner is the side whose \<open>fetch_add\<close> came first.\<close>

fun fi_past :: "first_pc \<Rightarrow> bool" where
  "fi_past FI_Idle = False" | "fi_past FI_Add = False" | "fi_past p = True"

definition first_inv :: "'v first \<Rightarrow> bool" where
  "first_inv s =
     ((\<forall>i. fi_arg s i = None \<longleftrightarrow> fi_pc s i = FI_Idle) \<and>
      fi_finished s = (if fi_past (fi_pc s True) then 1 else 0) + (if fi_past (fi_pc s False) then 1 else 0) \<and>
      (case fi_winner s of
         None \<Rightarrow> (\<forall>i. \<not> fi_past (fi_pc s i)) \<and> fi_calls s = [] \<and> fi_deletes s = 0
       | Some w \<Rightarrow> fi_pc s w \<in> {FI_Resume, FI_End} \<and> fi_pc s (\<not> w) \<noteq> FI_Resume \<and>
           fi_calls s = (if fi_pc s w = FI_Resume then []
             else [(fst (the (fi_arg s w)), (snd (the (fi_arg s w)))\<lparr>scheduler := nullptr\<rparr>)]) \<and>
           fi_deletes s = (if fi_pc s (\<not> w) = FI_End then 1 else 0)) \<and>
      (fi_bad s \<longrightarrow> fi_deletes s = 1 \<and> (\<exists>w. fi_winner s = Some w \<and> fi_pc s w = FI_Resume)))"

lemma first_winner_of:
  assumes "first_inv s" "fi_winner s = Some w"
  shows "fi_pc s i = FI_Resume \<Longrightarrow> w = i" "fi_pc s i = FI_Destroy \<Longrightarrow> w = (\<not> i)"
    "fi_pc s i = FI_Add \<Longrightarrow> w = (\<not> i)" "fi_pc s i = FI_Idle \<Longrightarrow> w = (\<not> i)"
  using assms by (cases w; cases i; simp add: first_inv_def)+

lemma first_deletes_pos:
  assumes "first_inv s" "fi_deletes s > 0" "fi_pc s i \<in> {FI_Add, FI_Resume, FI_Destroy}"
  shows "fi_winner s = Some i \<and> fi_pc s i = FI_Resume \<and> fi_deletes s = 1"
proof (cases "fi_winner s")
  case None
  with assms(1,2) show ?thesis by (simp add: first_inv_def)
next
  case (Some w)
  with assms(1,2) have e: "fi_pc s (\<not> w) = FI_End" "fi_deletes s = 1" "fi_pc s w \<in> {FI_Resume, FI_End}"
    by (auto simp: first_inv_def split: if_splits)
  with assms(3) have "i = w" by (cases i; cases w) auto
  with e Some assms(3) show ?thesis by auto
qed

lemma first_bad_inv:
  assumes "first_inv s" "fi_deletes s > 0" "fi_pc s i \<in> {FI_Add, FI_Resume, FI_Destroy}"
  shows "first_inv (s\<lparr>fi_bad := True\<rparr>)"
  using assms(1) first_deletes_pos [OF assms] unfolding first_inv_def by simp

lemma first_add_inv:
  assumes "first_inv s" "\<not> fi_bad s" "fi_deletes s = 0" "fi_pc s i = FI_Add" "first_Resume i s = Some s'"
  shows "first_inv s'"
proof (cases "fi_winner s")
  case None
  with assms have "fi_finished s = 0" "\<not> fi_past (fi_pc s (\<not> i))" by (cases i; simp add: first_inv_def)+
  with assms None show ?thesis
    by (cases i; cases "fi_pc s (\<not> i)"; simp add: first_inv_def first_Resume_def all_bool_eq split: option.splits; clarsimp)
next
  case (Some w)
  note w = first_winner_of(3) [OF assms(1) Some assms(4)]
  with assms Some have "fi_finished s = 1" by (cases i; simp add: first_inv_def; clarsimp; force)
  with assms Some w show ?thesis
    by (cases i; simp add: first_inv_def first_Resume_def all_bool_eq split: option.splits; clarsimp; force)
qed

lemma first_end_inv:
  assumes "first_inv s" "\<not> fi_bad s" "fi_deletes s = 0" "fi_pc s i = FI_Resume \<or> fi_pc s i = FI_Destroy"
    "first_Resume i s = Some s'"
  shows "first_inv s'"
proof -
  have "fi_winner s \<noteq> None"
  proof
    assume "fi_winner s = None"
    with assms(1) have "\<not> fi_past (fi_pc s i)" by (simp add: first_inv_def)
    with assms(4) show False by auto
  qed
  then obtain w where w: "fi_winner s = Some w" by blast
  from assms(4) show ?thesis
  proof
    assume pc: "fi_pc s i = FI_Resume"
    with first_winner_of(1) [OF assms(1) w pc] assms w show ?thesis
      by (cases i; simp add: first_inv_def first_Resume_def all_bool_eq split: option.splits; clarsimp)
  next
    assume pc: "fi_pc s i = FI_Destroy"
    with first_winner_of(2) [OF assms(1) w pc] assms w show ?thesis
      by (cases i; simp add: first_inv_def first_Resume_def all_bool_eq split: option.splits; clarsimp)
  qed
qed

lemma first_deliver_inv:
  assumes "first_inv s" "\<not> fi_bad s" "fi_pc s i = FI_Idle"
  shows "first_inv (s\<lparr>fi_pc := (fi_pc s)(i := FI_Add), fi_arg := (fi_arg s)(i \<mapsto> (v, st))\<rparr>)"
proof (cases "fi_winner s")
  case None
  with assms show ?thesis by (cases i; simp add: first_inv_def all_bool_eq)
next
  case (Some w)
  with assms first_winner_of(4) [OF assms(1) Some assms(3)] show ?thesis
    by (cases i; simp add: first_inv_def all_bool_eq)
qed

interpretation first: transition_invariant first_step FirstThunk first_inv
proof
  show "first_inv FirstThunk" by (simp add: first_inv_def FirstThunk_def)
next
  fix s :: "'v first" and e s'
  assume inv: "first_inv s" and step: "first_step e s = Some s'"
  show "first_inv s'"
  proof (cases e)
    case (FI_Deliver i v st)
    with inv step show ?thesis by (auto intro: first_deliver_inv split: if_splits)
  next
    case (FI_Step i)
    with step have r: "first_Resume i s = Some s'" and g: "\<not> fi_bad s" by (auto split: if_splits)
    from r have pc: "fi_pc s i \<in> {FI_Add, FI_Resume, FI_Destroy}"
      by (auto simp: first_Resume_def split: first_pc.splits option.splits if_splits)
    show ?thesis
    proof (cases "fi_deletes s = 0")
      case True
      with pc first_add_inv [OF inv g True _ r] first_end_inv [OF inv g True _ r] show ?thesis by blast
    next
      case False
      with r pc first_bad_inv [OF inv _ pc] show ?thesis by (simp add: first_Resume_def)
    qed
  qed
qed





section \<open>Two uses of freed memory\<close>

text \<open>
  \<open>First\<close>: the loser deletes the computation as soon as its own \<open>fetch_add\<close> returns. The winner may
  not have called its \<open>consumer_\<close>, a member of the deleted object, yet.
\<close>

lemma first_loser_frees_consumer:
  "\<exists>s. exec first_step FirstThunk
     [FI_Deliver True v st, FI_Deliver False v' st', FI_Step True, FI_Step False, FI_Step False, FI_Step True] = Some s \<and>
     fi_deletes s = 1 \<and> fi_bad s \<and> fi_calls s = []"
  by (simp add: FirstThunk_def first_Resume_def)

text \<open>
  \<open>Start\<close>: \<open>Start\<close> of \<open>StartComputationWithConsumer\<close> reads its member \<open>comp_\<close> after it has resumed the
  consumer. If the consumer deletes the computation it belongs to, as the one of \<open>Detach\<close> does,
  the member is read from freed memory.
\<close>

lemma start_detached_use_after_free:
  "\<exists>s. exec start_step (StartThunk True)
     [SE_Deliver v st, SE_Producer, SE_Producer, SE_Producer, SE_Producer,
      SE_Start, SE_Consumer, SE_Consumer, SE_Consumer] = Some s \<and> se_calls s = [(v, st)] \<and> se_bad s"
  by (simp add: StartThunk_def StartComputation_Resume_def StartComputationWithConsumer_Start_def se_access_def)

section \<open>Properties\<close>

text \<open>
  C21: a contract is fulfilled exactly once. In any interleaving of \<open>Promise::Set\<close> with the start of
  the consumer's computation, the callback runs at most once, with the value set; once both calls
  have returned it has run and the shared state has been deleted once. Nothing is read before it
  was written or after the state was deleted.
\<close>

theorem contract_rendezvous:
  assumes "reachable contract_step Contract s"
  shows "\<not> ct_bad s \<and> ct_deletes s \<le> 1 \<and>
    (ct_calls s = [] \<or> (\<exists>v. ct_arg s = Some v \<and> ct_calls s = [(v, State_default)])) \<and>
    (ct_prod s = CT_End \<and> ct_cons s = CT_End \<longrightarrow> length (ct_calls s) = 1 \<and> ct_deletes s = 1)"
proof -
  from contract.reachable_inv [OF assms] have inv: "contract_inv s" .
  then obtain called d where p: "ct_phase (ct_prod s) (ct_cons s) = Some (called, d)"
    by (auto simp: contract_inv_def split: option.splits)
  with inv have d: "ct_deletes s = d" "ct_calls s = (if called then [(the (ct_arg s), State_default)] else [])"
    by (simp_all add: contract_inv_def)
  from p have "d \<le> 1" "called \<longrightarrow> ct_prod s \<noteq> CT_Idle" "ct_prod s = CT_End \<and> ct_cons s = CT_End \<longrightarrow> called \<and> d = 1"
    by (cases "ct_prod s"; cases "ct_cons s"; simp split: if_splits; fail)+
  with d inv show ?thesis by (auto simp: contract_inv_def)
qed

theorem contract_rendezvous_witness:
  "\<exists>s. reachable contract_step Contract s \<and> ct_prod s = CT_End \<and> ct_cons s = CT_End \<and>
     \<not> ct_bad (s :: nat contract) \<and> length (ct_calls s) = 1 \<and> ct_deletes s = 1"
proof -
  have "\<exists>s. exec contract_step Contract
      [CT_Computation_Start, CT_Promise_Set (7 :: nat), CT_Consumer, CT_Producer, CT_Consumer, CT_Producer, CT_Producer,
       CT_Producer] = Some s \<and> ct_prod s = CT_End \<and> ct_cons s = CT_End"
    by (simp add: Contract_def contract_defs)
  from exec_reachable_ex [OF this] obtain s :: "nat contract" where
    "reachable contract_step Contract s" "ct_prod s = CT_End" "ct_cons s = CT_End" by blast
  with contract_rendezvous [of s] show ?thesis by blast
qed

text \<open>
  C22: \<open>Both\<close> resumes its consumer exactly once, with the two values delivered, whichever input
  finishes first and however the two continuations interleave; it never reads a value that has
  not been stored.
\<close>

theorem both_joins_once:
  assumes "reachable both_step BothThunk s"
  shows "\<not> bo_bad s \<and>
    (bo_calls s = [] \<or> (\<exists>a b. bo_argA s = Some a \<and> bo_argB s = Some b \<and> bo_calls s = [((a, b), State_default)])) \<and>
    (bo_pcA s = BO_End \<and> bo_pcB s = BO_End \<longrightarrow> length (bo_calls s) = 1)"
proof -
  from both.reachable_inv [OF assms] have inv: "both_inv s" .
  then obtain called where p: "bo_phase (bo_pcA s) (bo_pcB s) = Some called"
    by (auto simp: both_inv_def split: option.splits)
  with inv have d: "bo_calls s = (if called then [((the (bo_argA s), the (bo_argB s)), State_default)] else [])"
    by (simp add: both_inv_def)
  from p have "called \<longleftrightarrow> bo_pcA s = BO_End \<and> bo_pcB s = BO_End"
    by (cases "bo_pcA s"; cases "bo_pcB s"; simp split: if_splits)
  with d inv show ?thesis by (auto simp: both_inv_def)
qed

theorem both_joins_once_witness:
  "\<exists>s. reachable both_step BothThunk (s :: (nat, bool) both) \<and> bo_pcA s = BO_End \<and> bo_pcB s = BO_End \<and>
     length (bo_calls s) = 1"
proof -
  have "\<exists>s. exec both_step BothThunk
      [BO_B True, BO_StepB, BO_A (3 :: nat), BO_StepA, BO_StepA, BO_StepB, BO_StepB] = Some s \<and>
      bo_pcA s = BO_End \<and> bo_pcB s = BO_End"
    by (simp add: BothThunk_def both_defs)
  from exec_reachable_ex [OF this] obtain s :: "(nat, bool) both" where
    "reachable both_step BothThunk s" "bo_pcA s = BO_End" "bo_pcB s = BO_End" by blast
  with both_joins_once [of s] show ?thesis by blast
qed





end
