(* ===== verification/Fiber.thy ===== *)
theory Fiber
  imports Sched Places
begin

text \<open>
  \<open>exe/fiber\<close>: stackful fibers and the synchronization objects that suspend them.

  A fiber is an address. What its body does is the user's code, so the machine lets a running fiber
  perform any operation next. A fiber that suspends leaves an awaiter, and the worker that
  ran it calls the awaiter's \<open>Await\<close> once the coroutine has been switched away; only then can other
  workers see the handle. The critical sections of the objects are protected by spin locks and are
  taken as one step; \<open>fr_runq\<close> are the tasks given to the scheduler, of which any may run next.
  \<open>fr_holders\<close> is a history variable: the fibers that have locked a mutex and not unlocked it. So is
  \<open>fr_overflown\<close>: the wait groups whose counter an \<open>Add\<close> has carried past \<open>2^64\<close>, as a \<open>Done\<close> of nothing
  added and a later \<open>Add\<close> do.
\<close>

section \<open>Handles\<close>

text \<open>\<open>FiberHandle\<close>: \<open>Release\<close> asserts that the handle is valid and leaves it invalid.\<close>

type_synonym FiberHandle = "nat ptr"

definition Handle_Invalid :: FiberHandle where
  "Handle_Invalid = nullptr"

definition Handle_IsValid :: "FiberHandle \<Rightarrow> bool" where
  "Handle_IsValid h = (h \<noteq> nullptr)"

definition Handle_Release :: "FiberHandle \<Rightarrow> (nat \<times> FiberHandle) option" where
  "Handle_Release h = (case h of None \<Rightarrow> None | Some f \<Rightarrow> Some (f, nullptr))"

text \<open>\<open>FiberHandle::Schedule\<close> submits the fiber to its scheduler.\<close>

definition Fiber_Schedule :: "nat \<Rightarrow> SchedulerHint \<Rightarrow> nat list \<Rightarrow> nat list" where
  "Fiber_Schedule f hint q = q @ [f]"

definition Handle_Schedule :: "FiberHandle \<Rightarrow> SchedulerHint \<Rightarrow> nat list \<Rightarrow> nat list option" where
  "Handle_Schedule h hint q = map_option (\<lambda>(f, _). Fiber_Schedule f hint q) (Handle_Release h)"

section \<open>Mutex\<close>

record fmutex =
  mx_locked :: bool
  mx_waiters :: "nat list"

definition Mutex_new :: fmutex where
  "Mutex_new = \<lparr>mx_locked = False, mx_waiters = []\<rparr>"

text \<open>The awaiter of \<open>Lock\<close>: whether the lock was taken and the fiber is to be scheduled, and the mutex after it.\<close>

definition Mutex_Lock :: "nat \<Rightarrow> fmutex \<Rightarrow> bool \<times> fmutex" where
  "Mutex_Lock f m =
     (if \<not> mx_locked m then (True, m\<lparr>mx_locked := True\<rparr>)
      else (False, m\<lparr>mx_waiters := list_PushBack f (mx_waiters m)\<rparr>))"

definition Mutex_TryLock :: "fmutex \<Rightarrow> bool \<times> fmutex" where
  "Mutex_TryLock m = (if \<not> mx_locked m then (True, m\<lparr>mx_locked := True\<rparr>) else (False, m))"

text \<open>\<open>Unlock\<close>: the waiter to be scheduled, if any; the lock passes to it directly.\<close>

definition Mutex_Unlock :: "fmutex \<Rightarrow> nat ptr \<times> fmutex" where
  "Mutex_Unlock m =
     (let m = m\<lparr>mx_locked := False\<rparr>
      in if mx_waiters m \<noteq> []
         then (case list_PopFront (mx_waiters m) of (w, ws) \<Rightarrow> (w, m\<lparr>mx_locked := True, mx_waiters := ws\<rparr>))
         else (nullptr, m))"

section \<open>Event\<close>

record fevent =
  fe_fired :: bool
  fe_waiters :: "nat list"

definition Event_new :: fevent where
  "Event_new = \<lparr>fe_fired = False, fe_waiters = []\<rparr>"

definition Event_Wait :: "nat \<Rightarrow> fevent \<Rightarrow> bool \<times> fevent" where
  "Event_Wait f e = (if fe_fired e then (True, e) else (False, e\<lparr>fe_waiters := list_PushBack f (fe_waiters e)\<rparr>))"

text \<open>The loop of \<open>Fire\<close> and of \<open>WaitGroup::Done\<close>: pop, schedule, until the list is empty.\<close>

fun wake_loop :: "nat list \<Rightarrow> nat list" where
  "wake_loop [] = []"
| "wake_loop (w # ws) = w # (if ws = [] then [] else wake_loop ws)"

definition Event_Fire :: "fevent \<Rightarrow> nat list \<times> fevent" where
  "Event_Fire e = (wake_loop (fe_waiters e), e\<lparr>fe_fired := True, fe_waiters := []\<rparr>)"

section \<open>WaitGroup\<close>

record fwait_group =
  wg_running :: u64
  wg_waiters :: "nat list"

definition WaitGroup_new :: fwait_group where
  "WaitGroup_new = \<lparr>wg_running = 0, wg_waiters = []\<rparr>"

definition WaitGroup_Add :: "u64 \<Rightarrow> fwait_group \<Rightarrow> fwait_group" where
  "WaitGroup_Add n g = g\<lparr>wg_running := wg_running g + n\<rparr>"

definition WaitGroup_Done :: "fwait_group \<Rightarrow> nat list \<times> fwait_group" where
  "WaitGroup_Done g =
     (let g = g\<lparr>wg_running := wg_running g - 1\<rparr>
      in if wg_running g = 0 then (wake_loop (wg_waiters g), g\<lparr>wg_waiters := []\<rparr>) else ([], g))"

definition WaitGroup_Wait :: "nat \<Rightarrow> fwait_group \<Rightarrow> bool \<times> fwait_group" where
  "WaitGroup_Wait f g =
     (if wg_running g = 0 then (True, g) else (False, g\<lparr>wg_waiters := list_PushBack f (wg_waiters g)\<rparr>))"

section \<open>The runtime\<close>

datatype awaiter = AW_Yield | AW_Lock nat | AW_Event nat | AW_WaitGroup nat

record frt =
  fr_live :: "nat set"
  fr_runq :: "nat list"
  fr_running :: "nat set"
  fr_awaiting :: "nat \<rightharpoonup> awaiter"
  fr_mutexes :: "nat \<Rightarrow> fmutex"
  fr_events :: "nat \<Rightarrow> fevent"
  fr_groups :: "nat \<Rightarrow> fwait_group"
  fr_holders :: "nat \<Rightarrow> nat set"
  fr_overflown :: "nat set"

definition fiber_init :: frt where
  "fiber_init = \<lparr>fr_live = {}, fr_runq = [], fr_running = {}, fr_awaiting = Map.empty,
     fr_mutexes = (\<lambda>_. Mutex_new), fr_events = (\<lambda>_. Event_new), fr_groups = (\<lambda>_. WaitGroup_new),
     fr_holders = (\<lambda>_. {}), fr_overflown = {}\<rparr>"

text \<open>\<open>Go\<close>: \<open>NewFiber\<close> allocates the fiber, \<open>Schedule\<close> submits it.\<close>

definition fiber_Go :: "nat \<Rightarrow> frt \<Rightarrow> frt option" where
  "fiber_Go f s =
     (if f \<in> fr_live s then None
      else Some (s\<lparr>fr_live := insert f (fr_live s), fr_runq := Fiber_Schedule f UpToYou (fr_runq s)\<rparr>))"

text \<open>A worker takes a task and enters \<open>Fiber::Run\<close>, which resumes the coroutine.\<close>

definition fiber_Run :: "nat \<Rightarrow> frt \<Rightarrow> frt option" where
  "fiber_Run i s =
     (if i < length (fr_runq s)
      then Some (s\<lparr>fr_runq := take i (fr_runq s) @ drop (Suc i) (fr_runq s),
                   fr_running := insert (fr_runq s ! i) (fr_running s)\<rparr>)
      else None)"

text \<open>The body returns: \<open>Fiber::Run\<close> finds the coroutine completed and deletes the fiber.\<close>

definition fiber_Complete :: "nat \<Rightarrow> frt \<Rightarrow> frt option" where
  "fiber_Complete f s =
     (if f \<in> fr_running s
      then Some (s\<lparr>fr_running := fr_running s - {f}, fr_live := fr_live s - {f}\<rparr>) else None)"

text \<open>\<open>Suspend\<close>: the fiber leaves its awaiter and the coroutine is switched away.\<close>

definition fiber_Suspend :: "nat \<Rightarrow> awaiter \<Rightarrow> frt \<Rightarrow> frt option" where
  "fiber_Suspend f aw s =
     (if f \<in> fr_running s
      then Some (s\<lparr>fr_running := fr_running s - {f}, fr_awaiting := (fr_awaiting s)(f \<mapsto> aw)\<rparr>) else None)"

text \<open>\<open>Fiber::Run\<close> goes on with \<open>awaiter_->Await(FiberHandle(this))\<close>.\<close>

definition fiber_Await :: "nat \<Rightarrow> frt \<Rightarrow> frt option" where
  "fiber_Await f s0 =
     (case fr_awaiting s0 f of
        None \<Rightarrow> None
      | Some aw \<Rightarrow>
          (let s = s0\<lparr>fr_awaiting := (fr_awaiting s0)(f := None)\<rparr> in
           case aw of
             AW_Yield \<Rightarrow> Some (s\<lparr>fr_runq := Fiber_Schedule f Yield (fr_runq s)\<rparr>)
           | AW_Lock m \<Rightarrow>
               (case Mutex_Lock f (fr_mutexes s m) of (now, mx) \<Rightarrow>
                  Some (s\<lparr>fr_mutexes := (fr_mutexes s)(m := mx),
                          fr_runq := (if now then Fiber_Schedule f UpToYou (fr_runq s) else fr_runq s),
                          fr_holders := (fr_holders s)(m := (if now then insert f (fr_holders s m) else fr_holders s m))\<rparr>))
           | AW_Event e \<Rightarrow>
               (case Event_Wait f (fr_events s e) of (now, ev) \<Rightarrow>
                  Some (s\<lparr>fr_events := (fr_events s)(e := ev),
                          fr_runq := (if now then Fiber_Schedule f UpToYou (fr_runq s) else fr_runq s)\<rparr>))
           | AW_WaitGroup g \<Rightarrow>
               (case WaitGroup_Wait f (fr_groups s g) of (now, wg) \<Rightarrow>
                  Some (s\<lparr>fr_groups := (fr_groups s)(g := wg),
                          fr_runq := (if now then Fiber_Schedule f UpToYou (fr_runq s) else fr_runq s)\<rparr>))))"

text \<open>The operations that do not suspend. A fiber unlocks a mutex only if it has locked it.\<close>

datatype fiber_op = OP_TryLock nat | OP_Unlock nat | OP_Fire nat | OP_Add nat u64 | OP_Done nat

definition fiber_TryLock :: "nat \<Rightarrow> nat \<Rightarrow> frt \<Rightarrow> frt option" where
  "fiber_TryLock f m s =
     (case Mutex_TryLock (fr_mutexes s m) of (now, mx) \<Rightarrow>
        Some (s\<lparr>fr_mutexes := (fr_mutexes s)(m := mx),
                fr_holders := (fr_holders s)(m := (if now then insert f (fr_holders s m) else fr_holders s m))\<rparr>))"

definition fiber_Unlock :: "nat \<Rightarrow> nat \<Rightarrow> frt \<Rightarrow> frt option" where
  "fiber_Unlock f m s =
     (if f \<notin> fr_holders s m then None
      else case Mutex_Unlock (fr_mutexes s m) of
        (None, mx) \<Rightarrow> Some (s\<lparr>fr_mutexes := (fr_mutexes s)(m := mx), fr_holders := (fr_holders s)(m := fr_holders s m - {f})\<rparr>)
      | (Some w, mx) \<Rightarrow>
          Some (s\<lparr>fr_mutexes := (fr_mutexes s)(m := mx), fr_runq := Fiber_Schedule w UpToYou (fr_runq s),
                  fr_holders := (fr_holders s)(m := insert w (fr_holders s m - {f}))\<rparr>))"

definition fiber_Fire :: "nat \<Rightarrow> frt \<Rightarrow> frt option" where
  "fiber_Fire e s =
     (case Event_Fire (fr_events s e) of (ws, ev) \<Rightarrow>
        Some (s\<lparr>fr_events := (fr_events s)(e := ev), fr_runq := fold (\<lambda>w. Fiber_Schedule w UpToYou) ws (fr_runq s)\<rparr>))"

definition fiber_Add :: "nat \<Rightarrow> u64 \<Rightarrow> frt \<Rightarrow> frt option" where
  "fiber_Add g n s =
     Some (s\<lparr>fr_groups := (fr_groups s)(g := WaitGroup_Add n (fr_groups s g)),
             fr_overflown := (if unat (wg_running (fr_groups s g)) + unat n \<ge> 2 ^ 64
                              then insert g (fr_overflown s) else fr_overflown s)\<rparr>)"

definition fiber_Done :: "nat \<Rightarrow> frt \<Rightarrow> frt option" where
  "fiber_Done g s =
     (case WaitGroup_Done (fr_groups s g) of (ws, wg) \<Rightarrow>
        Some (s\<lparr>fr_groups := (fr_groups s)(g := wg), fr_runq := fold (\<lambda>w. Fiber_Schedule w UpToYou) ws (fr_runq s)\<rparr>))"

definition fiber_do :: "nat \<Rightarrow> fiber_op \<Rightarrow> frt \<Rightarrow> frt option" where
  "fiber_do f op s =
     (if f \<notin> fr_running s then None
      else case op of
        OP_TryLock m \<Rightarrow> fiber_TryLock f m s
      | OP_Unlock m \<Rightarrow> fiber_Unlock f m s
      | OP_Fire e \<Rightarrow> fiber_Fire e s
      | OP_Add g n \<Rightarrow> fiber_Add g n s
      | OP_Done g \<Rightarrow> fiber_Done g s)"

lemmas fiber_do_defs = fiber_do_def fiber_TryLock_def fiber_Unlock_def fiber_Fire_def fiber_Add_def fiber_Done_def

datatype fiber_event = FB_Go nat | FB_Run nat | FB_Complete nat | FB_Suspend nat awaiter | FB_Await nat | FB_Do nat fiber_op

fun fiber_step :: "fiber_event \<Rightarrow> frt \<Rightarrow> frt option" where
  "fiber_step (FB_Go f) s = fiber_Go f s"
| "fiber_step (FB_Run i) s = fiber_Run i s"
| "fiber_step (FB_Complete f) s = fiber_Complete f s"
| "fiber_step (FB_Suspend f aw) s = fiber_Suspend f aw s"
| "fiber_step (FB_Await f) s = fiber_Await f s"
| "fiber_step (FB_Do f op) s = fiber_do f op s"

section \<open>Every fiber is in exactly one place\<close>

datatype floc = L_Queue | L_Run | L_Await | L_Mutex nat | L_Event nat | L_Group nat

definition mutex_ok :: "fmutex \<Rightarrow> nat set \<Rightarrow> bool" where
  "mutex_ok m H = ((mx_locked m \<longleftrightarrow> H \<noteq> {}) \<and> (mx_waiters m \<noteq> [] \<longrightarrow> mx_locked m) \<and> (\<forall>f g. f \<in> H \<and> g \<in> H \<longrightarrow> f = g))"

definition event_ok :: "fevent \<Rightarrow> bool" where
  "event_ok e = (fe_fired e \<longrightarrow> fe_waiters e = [])"

definition group_ok :: "fwait_group \<Rightarrow> bool" where
  "group_ok g = (wg_running g = 0 \<longrightarrow> wg_waiters g = [])"

definition places_ok :: "frt \<Rightarrow> (nat \<rightharpoonup> floc) \<Rightarrow> bool" where
  "places_ok s loc =
     (fr_live s = dom loc \<and> queue_ok (fr_runq s) L_Queue loc \<and> set_ok (fr_running s) L_Run loc \<and>
      set_ok (dom (fr_awaiting s)) L_Await loc \<and>
      (\<forall>m. queue_ok (mx_waiters (fr_mutexes s m)) (L_Mutex m) loc) \<and>
      (\<forall>e. queue_ok (fe_waiters (fr_events s e)) (L_Event e) loc) \<and>
      (\<forall>g. queue_ok (wg_waiters (fr_groups s g)) (L_Group g) loc))"

definition objects_ok :: "frt \<Rightarrow> bool" where
  "objects_ok s =
     ((\<forall>m. mutex_ok (fr_mutexes s m) (fr_holders s m)) \<and> (\<forall>e. event_ok (fr_events s e)) \<and> 
      (\<forall>g. g \<notin> fr_overflown s \<longrightarrow> group_ok (fr_groups s g)))"

lemma wake_loop_all [simp]: "wake_loop ws = ws"
  by (induction ws rule: wake_loop.induct) auto

lemma schedule_all: "fold (\<lambda>w. Fiber_Schedule w hint) ws q = q @ ws"
  by (induction ws arbitrary: q) (simp_all add: Fiber_Schedule_def)

text \<open>All fibers of a list move to the run queue.\<close>

definition loc_wake :: "nat list \<Rightarrow> (nat \<rightharpoonup> floc) \<Rightarrow> (nat \<rightharpoonup> floc)" where
  "loc_wake ws loc = (\<lambda>f. if f \<in> set ws then Some L_Queue else loc f)"

lemma wake_queue:
  assumes "queue_ok q L_Queue loc" "queue_ok ws l loc" "l \<noteq> L_Queue"
  shows "queue_ok (q @ ws) L_Queue (loc_wake ws loc)"
  using assms by (auto simp: queue_ok_def loc_wake_def)

lemma wake_empty: "queue_ok ws l loc \<Longrightarrow> l \<noteq> L_Queue \<Longrightarrow> queue_ok [] l (loc_wake ws loc)"
  by (auto simp: queue_ok_def loc_wake_def)

lemma wake_other:
  assumes "queue_ok ws l loc" "l' \<noteq> l" "l' \<noteq> L_Queue"
  shows "queue_ok xs l' loc \<Longrightarrow> queue_ok xs l' (loc_wake ws loc)" "set_ok X l' loc \<Longrightarrow> set_ok X l' (loc_wake ws loc)"
  using assms by (auto simp: queue_ok_def set_ok_def loc_wake_def)

lemma wake_dom: "queue_ok ws l loc \<Longrightarrow> dom (loc_wake ws loc) = dom loc"
  by (auto simp: queue_ok_def loc_wake_def split: if_splits)

lemma Go_places:
  assumes "places_ok s loc" "fiber_Go f s = Some s'"
  shows "places_ok s' (loc(f \<mapsto> L_Queue))"
proof -
  from assms(2) have f: "f \<notin> fr_live s"
    and s': "s' = s\<lparr>fr_live := insert f (fr_live s), fr_runq := fr_runq s @ [f]\<rparr>"
    by (auto simp: fiber_Go_def Fiber_Schedule_def split: if_splits)
  from assms(1) f have "loc f = None" by (auto simp: places_ok_def)
  with assms(1) show ?thesis unfolding s' places_ok_def by (simp add: place_moves)
qed

lemma Run_places:
  assumes "places_ok s loc" "fiber_Run i s = Some s'"
  shows "places_ok s' (loc(fr_runq s ! i \<mapsto> L_Run))"
proof -
  from assms(2) have i: "i < length (fr_runq s)"
    and s': "s' = s\<lparr>fr_runq := take i (fr_runq s) @ drop (Suc i) (fr_runq s),
                   fr_running := insert (fr_runq s ! i) (fr_running s)\<rparr>"
    by (auto simp: fiber_Run_def split: if_splits)
  from assms(1) i have "loc (fr_runq s ! i) = Some L_Queue" by (auto simp: places_ok_def queue_ok_def)
  with assms(1) i show ?thesis unfolding s' places_ok_def by (simp add: place_moves insert_absorb domIff)
qed

lemma Complete_places:
  assumes "places_ok s loc" "fiber_Complete f s = Some s'"
  shows "places_ok s' (loc(f := None))"
proof -
  from assms(2) have f: "f \<in> fr_running s"
    and s': "s' = s\<lparr>fr_running := fr_running s - {f}, fr_live := fr_live s - {f}\<rparr>"
    by (auto simp: fiber_Complete_def split: if_splits)
  from assms(1) f have "loc f = Some L_Run" by (auto simp: places_ok_def set_ok_def)
  with assms(1) show ?thesis unfolding s' places_ok_def by (simp add: place_moves)
qed

lemma Suspend_places:
  assumes "places_ok s loc" "fiber_Suspend f aw s = Some s'"
  shows "places_ok s' (loc(f \<mapsto> L_Await))"
proof -
  from assms(2) have f: "f \<in> fr_running s"
    and s': "s' = s\<lparr>fr_running := fr_running s - {f}, fr_awaiting := (fr_awaiting s)(f \<mapsto> aw)\<rparr>"
    by (auto simp: fiber_Suspend_def split: if_splits)
  from assms(1) f have "loc f = Some L_Run" by (auto simp: places_ok_def set_ok_def)
  with assms(1) show ?thesis unfolding s' places_ok_def by (simp add: place_moves insert_absorb domIff)
qed

text \<open>\<open>Await\<close> either schedules the fiber or puts it into the object's list.\<close>

lemma await_schedule:
  assumes "places_ok s loc" "loc f = Some L_Await"
  shows "places_ok (s\<lparr>fr_awaiting := (fr_awaiting s)(f := None), fr_runq := fr_runq s @ [f]\<rparr>) (loc(f \<mapsto> L_Queue))"
  using assms unfolding places_ok_def by (simp add: place_moves insert_absorb domIff)

lemma await_block:
  assumes "places_ok s loc" "loc f = Some L_Await"
  shows "places_ok (s\<lparr>fr_awaiting := (fr_awaiting s)(f := None), fr_mutexes := (fr_mutexes s)(m := (fr_mutexes s m)\<lparr>mx_waiters := mx_waiters (fr_mutexes s m) @ [f]\<rparr>)\<rparr>) (loc(f \<mapsto> L_Mutex m))"
    "places_ok (s\<lparr>fr_awaiting := (fr_awaiting s)(f := None), fr_events := (fr_events s)(e := (fr_events s e)\<lparr>fe_waiters := fe_waiters (fr_events s e) @ [f]\<rparr>)\<rparr>) (loc(f \<mapsto> L_Event e))"
    "places_ok (s\<lparr>fr_awaiting := (fr_awaiting s)(f := None), fr_groups := (fr_groups s)(g := (fr_groups s g)\<lparr>wg_waiters := wg_waiters (fr_groups s g) @ [f]\<rparr>)\<rparr>) (loc(f \<mapsto> L_Group g))"
  using assms unfolding places_ok_def by (simp_all add: place_moves insert_absorb domIff)

lemma places_cong:
  assumes "places_ok s loc" "fr_live s' = fr_live s" "fr_runq s' = fr_runq s" "fr_running s' = fr_running s"
    "fr_awaiting s' = fr_awaiting s" "\<And>m. mx_waiters (fr_mutexes s' m) = mx_waiters (fr_mutexes s m)"
    "\<And>e. fe_waiters (fr_events s' e) = fe_waiters (fr_events s e)"
    "\<And>g. wg_waiters (fr_groups s' g) = wg_waiters (fr_groups s g)"
  shows "places_ok s' loc"
  using assms by (simp add: places_ok_def)

lemma Await_places:
  assumes "places_ok s loc" "fiber_Await f s = Some s'"
  shows "\<exists>loc'. places_ok s' loc'"
proof -
  from assms(2) obtain aw where aw: "fr_awaiting s f = Some aw" by (auto simp: fiber_Await_def split: option.splits)
  with assms(1) have f: "loc f = Some L_Await" by (auto simp: places_ok_def set_ok_def)
  note sched = await_schedule [OF assms(1) f]
  show ?thesis
  proof (cases aw)
    case AW_Yield
    with assms(2) aw have "s' = s\<lparr>fr_awaiting := (fr_awaiting s)(f := None), fr_runq := fr_runq s @ [f]\<rparr>"
      by (simp add: fiber_Await_def Fiber_Schedule_def)
    with sched show ?thesis by blast
  next
    case (AW_Lock m)
    show ?thesis
    proof (cases "mx_locked (fr_mutexes s m)")
      case True
      with assms(2) aw AW_Lock show ?thesis
        by (auto simp: fiber_Await_def Mutex_Lock_def list_PushBack_def
            intro!: exI places_cong [OF await_block(1) [OF assms(1) f]])
    next
      case False
      with assms(2) aw AW_Lock show ?thesis
        by (auto simp: fiber_Await_def Mutex_Lock_def Fiber_Schedule_def intro!: exI places_cong [OF sched])
    qed
  next
    case (AW_Event e)
    show ?thesis
    proof (cases "fe_fired (fr_events s e)")
      case True
      with assms(2) aw AW_Event show ?thesis
        by (auto simp: fiber_Await_def Event_Wait_def Fiber_Schedule_def intro!: exI places_cong [OF sched])
    next
      case False
      with assms(2) aw AW_Event show ?thesis
        by (auto simp: fiber_Await_def Event_Wait_def list_PushBack_def
            intro!: exI places_cong [OF await_block(2) [OF assms(1) f]])
    qed
  next
    case (AW_WaitGroup g)
    show ?thesis
    proof (cases "wg_running (fr_groups s g) = 0")
      case True
      with assms(2) aw AW_WaitGroup show ?thesis
        by (auto simp: fiber_Await_def WaitGroup_Wait_def Fiber_Schedule_def intro!: exI places_cong [OF sched])
    next
      case False
      with assms(2) aw AW_WaitGroup show ?thesis
        by (auto simp: fiber_Await_def WaitGroup_Wait_def list_PushBack_def
            intro!: exI places_cong [OF await_block(3) [OF assms(1) f]])
    qed
  qed
qed

lemma wake_mutex:
  assumes "places_ok s loc" "mx_waiters (fr_mutexes s m) = w # ws"
  shows "places_ok (s\<lparr>fr_runq := fr_runq s @ [w], fr_mutexes := (fr_mutexes s)(m := (fr_mutexes s m)\<lparr>mx_waiters := ws\<rparr>)\<rparr>)
    (loc(w \<mapsto> L_Queue))"
proof -
  from assms have q: "queue_ok (w # ws) (L_Mutex m) loc" by (metis places_ok_def)
  then have "loc w = Some (L_Mutex m)" by (auto simp: queue_ok_def)
  with assms(1) q show ?thesis unfolding places_ok_def by (simp add: place_moves insert_absorb domIff)
qed

lemma wake_event:
  assumes "places_ok s loc"
  shows "places_ok (s\<lparr>fr_runq := fr_runq s @ fe_waiters (fr_events s e),
      fr_events := (fr_events s)(e := (fr_events s e)\<lparr>fe_fired := True, fe_waiters := []\<rparr>)\<rparr>)
    (loc_wake (fe_waiters (fr_events s e)) loc)"
proof -
  from assms have q: "queue_ok (fe_waiters (fr_events s e)) (L_Event e) loc" by (simp add: places_ok_def)
  from wake_queue [OF _ q] wake_empty [OF q] wake_other [OF q] wake_dom [OF q] assms show ?thesis
    unfolding places_ok_def by simp
qed

lemma wake_group:
  assumes "places_ok s loc"
  shows "places_ok (s\<lparr>fr_runq := fr_runq s @ wg_waiters (fr_groups s g),
      fr_groups := (fr_groups s)(g := (fr_groups s g)\<lparr>wg_running := 0, wg_waiters := []\<rparr>)\<rparr>)
    (loc_wake (wg_waiters (fr_groups s g)) loc)"
proof -
  from assms have q: "queue_ok (wg_waiters (fr_groups s g)) (L_Group g) loc" by (simp add: places_ok_def)
  from wake_queue [OF _ q] wake_empty [OF q] wake_other [OF q] wake_dom [OF q] assms show ?thesis
    unfolding places_ok_def by simp
qed

lemma do_places:
  assumes "places_ok s loc" "fiber_do f op s = Some s'"
  shows "\<exists>loc'. places_ok s' loc'"
proof (cases op)
  case (OP_TryLock m)
  with assms(2) show ?thesis
    by (auto simp: fiber_do_defs Mutex_TryLock_def split: if_splits intro!: exI places_cong [OF assms(1)])
next
  case (OP_Unlock m)
  show ?thesis
  proof (cases "mx_waiters (fr_mutexes s m)")
    case Nil
    with assms(2) OP_Unlock show ?thesis
      by (auto simp: fiber_do_defs Mutex_Unlock_def Let_def split: if_splits intro!: exI places_cong [OF assms(1)])
  next
    case (Cons w ws)
    with assms(2) OP_Unlock show ?thesis
      by (auto simp: fiber_do_defs Mutex_Unlock_def Let_def Fiber_Schedule_def split: if_splits
          intro!: exI places_cong [OF wake_mutex [OF assms(1) Cons]])
  qed
next
  case (OP_Fire e)
  with assms(2) show ?thesis
    by (auto simp: fiber_do_defs Event_Fire_def schedule_all split: if_splits intro!: exI places_cong [OF wake_event [OF assms(1)]])
next
  case (OP_Add g n)
  with assms(2) show ?thesis
    by (auto simp: fiber_do_defs WaitGroup_Add_def split: if_splits intro!: exI places_cong [OF assms(1)])
next
  case (OP_Done g)
  show ?thesis
  proof (cases "wg_running (fr_groups s g) = 1")
    case True
    with assms(2) OP_Done show ?thesis
      by (auto simp: fiber_do_defs WaitGroup_Done_def Let_def schedule_all split: if_splits
          intro!: exI places_cong [OF wake_group [OF assms(1)]])
  next
    case False
    with assms(2) OP_Done show ?thesis
      by (auto simp: fiber_do_defs WaitGroup_Done_def Let_def split: if_splits intro!: exI places_cong [OF assms(1)])
  qed
qed

section \<open>Mutexes, events and wait groups\<close>

lemma no_wrap_sum_zero:
  fixes a b :: u64
  assumes "a + b = 0" "unat a + unat b < 2 ^ 64"
  shows "a = 0"
proof -
  have "unat (a + b) = unat a + unat b" using assms(2) by (simp add: unat_add_lem [THEN iffD1])
  with assms(1) have "unat a = 0" by simp
  then show ?thesis by (simp add: unat_eq_0)
qed

lemma Await_objects:
  assumes "objects_ok s" "fiber_Await f s = Some s'"
  shows "objects_ok s'"
proof -
  from assms(2) obtain aw where aw: "fr_awaiting s f = Some aw" by (auto simp: fiber_Await_def split: option.splits)
  from assms aw show ?thesis
    by (cases aw) (auto simp: objects_ok_def fiber_Await_def Mutex_Lock_def Event_Wait_def WaitGroup_Wait_def
        mutex_ok_def event_ok_def group_ok_def list_PushBack_def Let_def split: if_splits)
qed

lemma do_objects:
  assumes "objects_ok s" "fiber_do f op s = Some s'"
  shows "objects_ok s'"
proof (cases op)
  case (OP_TryLock m)
  with assms show ?thesis
    by (auto simp: objects_ok_def fiber_do_defs Mutex_TryLock_def mutex_ok_def split: if_splits)
next
  case (OP_Unlock m)
  from assms(1) have m: "mutex_ok (fr_mutexes s m) (fr_holders s m)" by (simp add: objects_ok_def)
  show ?thesis
  proof (cases "mx_waiters (fr_mutexes s m)")
    case Nil
    with assms OP_Unlock show ?thesis
      by (auto simp: objects_ok_def fiber_do_defs Mutex_Unlock_def Let_def mutex_ok_def split: if_splits)
  next
    case (Cons w ws)
    with assms OP_Unlock show ?thesis
      by (auto simp: objects_ok_def fiber_do_defs Mutex_Unlock_def Let_def mutex_ok_def split: if_splits)
  qed
next
  case (OP_Fire e)
  with assms show ?thesis by (auto simp: objects_ok_def fiber_do_defs Event_Fire_def event_ok_def split: if_splits)
next
  case (OP_Add g n)
  have "wg_running (fr_groups s g) = 0" if "wg_running (fr_groups s g) + n = 0"
      "unat (wg_running (fr_groups s g)) + unat n < 2 ^ 64"
    using no_wrap_sum_zero [OF that] .
  with OP_Add assms show ?thesis by (auto simp: objects_ok_def fiber_do_defs WaitGroup_Add_def group_ok_def not_le split: if_splits)
next
  case (OP_Done g)
  with assms show ?thesis
    by (auto simp: objects_ok_def fiber_do_defs WaitGroup_Done_def Let_def group_ok_def split: if_splits)
qed

interpretation fiber_runtime: transition_invariant fiber_step fiber_init "\<lambda>s. (\<exists>loc. places_ok s loc) \<and> objects_ok s"
proof
  have "places_ok fiber_init Map.empty"
    by (simp add: places_ok_def fiber_init_def queue_ok_def set_ok_def Mutex_new_def Event_new_def WaitGroup_new_def)
  then show "(\<exists>loc. places_ok fiber_init loc) \<and> objects_ok fiber_init"
    by (auto simp: objects_ok_def fiber_init_def mutex_ok_def event_ok_def group_ok_def
        Mutex_new_def Event_new_def WaitGroup_new_def)
next
  fix s e s'
  assume inv: "(\<exists>loc. places_ok s loc) \<and> objects_ok s" and step: "fiber_step e s = Some s'"
  from inv obtain loc where loc: "places_ok s loc" by blast
  have "\<exists>loc'. places_ok s' loc'"
    using step Go_places [OF loc] Run_places [OF loc] Complete_places [OF loc] Suspend_places [OF loc]
      Await_places [OF loc] do_places [OF loc] by (cases e) (simp; blast)+
  moreover have "objects_ok s'"
  proof (cases e)
    case (FB_Await f)
    with inv step show ?thesis by (auto intro: Await_objects)
  next
    case (FB_Do f op)
    with inv step show ?thesis by (auto intro: do_objects)
  qed (use inv step in \<open>auto simp: objects_ok_def fiber_Go_def fiber_Run_def fiber_Complete_def fiber_Suspend_def split: if_splits\<close>)
  ultimately show "(\<exists>loc. places_ok s' loc) \<and> objects_ok s'" ..
qed

text \<open>
  Overflow matters: \<open>Done\<close> of nothing added leaves the counter at \<open>2^64 - 1\<close>, and an \<open>Add\<close> back to
  zero wakes nobody.
\<close>

lemma overflown_group_strands_waiter:
  "\<exists>s. exec fiber_step fiber_init
      [FB_Go 1, FB_Go 2, FB_Run 0, FB_Run 0, FB_Do 1 (OP_Done 0), FB_Suspend 2 (AW_WaitGroup 0), FB_Await 2,
       FB_Do 1 (OP_Add 0 1)] = Some s \<and> wg_running (fr_groups s 0) = 0 \<and> wg_waiters (fr_groups s 0) = [2] \<and>
      0 \<in> fr_overflown s"
  by (simp add: fiber_init_def fiber_Go_def fiber_Run_def fiber_Suspend_def fiber_Await_def fiber_do_defs Let_def
      Fiber_Schedule_def WaitGroup_Done_def WaitGroup_Wait_def WaitGroup_Add_def WaitGroup_new_def list_PushBack_def insert_commute
      unsigned_minus_1_eq_mask mask_eq_exp_minus_1)

section \<open>Properties\<close>

text \<open>
  C11: fibers are never lost or duplicated, and the synchronization objects do what they promise.
  In every reachable state each live fiber is in exactly one place: submitted to the scheduler
  once, running on one worker, about to be handed to its awaiter, or in the list of one mutex,
  event or wait group, once. A mutex is locked exactly while some fiber holds it, never by two
  fibers, and only a locked mutex has waiters; no fiber waits for an event that has fired, or for a
  wait group whose counter is zero unless an \<open>Add\<close> has overflown that counter.
\<close>

theorem fiber_runtime_correct:
  assumes "reachable fiber_step fiber_init s"
  shows "(\<exists>loc. fr_live s = dom loc \<and> queue_ok (fr_runq s) L_Queue loc \<and> set_ok (fr_running s) L_Run loc \<and>
      set_ok (dom (fr_awaiting s)) L_Await loc \<and>
      (\<forall>m. queue_ok (mx_waiters (fr_mutexes s m)) (L_Mutex m) loc) \<and>
      (\<forall>e. queue_ok (fe_waiters (fr_events s e)) (L_Event e) loc) \<and>
      (\<forall>g. queue_ok (wg_waiters (fr_groups s g)) (L_Group g) loc)) \<and>
    (\<forall>m f g. f \<in> fr_holders s m \<and> g \<in> fr_holders s m \<longrightarrow> f = g) \<and>
    (\<forall>m. mx_locked (fr_mutexes s m) \<longleftrightarrow> fr_holders s m \<noteq> {}) \<and>
    (\<forall>m. mx_waiters (fr_mutexes s m) \<noteq> [] \<longrightarrow> mx_locked (fr_mutexes s m)) \<and>
    (\<forall>e. fe_fired (fr_events s e) \<longrightarrow> fe_waiters (fr_events s e) = []) \<and>
    (\<forall>g. g \<notin> fr_overflown s \<and> wg_running (fr_groups s g) = 0 \<longrightarrow> wg_waiters (fr_groups s g) = [])"
  using fiber_runtime.reachable_inv [OF assms]
  unfolding places_ok_def objects_ok_def mutex_ok_def event_ok_def group_ok_def by blast

theorem fiber_runtime_correct_witness:
  "\<exists>s. reachable fiber_step fiber_init s \<and> fr_runq s = [2] \<and> fr_holders s 0 = {2} \<and> fr_live s = {1, 2} \<and>
     mx_locked (fr_mutexes s 0)"
proof -
  have "\<exists>s. exec fiber_step fiber_init
      [FB_Go 1, FB_Go 2, FB_Run 0, FB_Run 0, FB_Suspend 1 (AW_Lock 0), FB_Suspend 2 (AW_Lock 0), FB_Await 1, FB_Await 2,
       FB_Run 0, FB_Do 1 (OP_Unlock 0)] = Some s \<and> fr_runq s = [2] \<and> fr_holders s 0 = {2} \<and> fr_live s = {1, 2}"
    by (simp add: fiber_init_def fiber_Go_def fiber_Run_def fiber_Suspend_def fiber_Await_def fiber_do_defs Let_def
        Fiber_Schedule_def Mutex_Lock_def Mutex_Unlock_def Mutex_new_def list_PushBack_def insert_commute)
  from exec_reachable_ex [OF this] obtain s where
    s: "reachable fiber_step fiber_init s" "fr_runq s = [2]" "fr_holders s 0 = {2}" "fr_live s = {1, 2}" by blast
  from fiber_runtime_correct [OF s(1)] s(3) have "mx_locked (fr_mutexes s 0)" by blast
  with s show ?thesis by blast
qed

end
