(* ===== verification/Channel.thy ===== *)
theory Channel
  imports Fiber
begin

text \<open>
  \<open>fiber/sync/channel/buffered.hpp\<close>: the bounded channel between fibers.

  The state is the ring buffer of \<open>capacity_ + 1\<close> slots (a vector that grows by \<open>emplace_back\<close> until
  it has that many elements), with the lists of suspended senders and receivers. The spin lock is held from
  \<open>lock_.lock()\<close> to \<open>lock_.unlock()\<close>, which for a fiber that has to wait is in its awaiter, so each
  such section is one step. Indices stay below \<open>capacity_ + 1\<close> and are natural numbers here.
  \<open>ch_sent\<close> and \<open>ch_received\<close> are history variables.
\<close>

section \<open>The ring buffer\<close>

record 'v chan =
  ch_capacity :: nat
  ch_head :: nat
  ch_tail :: nat
  ch_data :: "'v list"

definition chan_Next :: "'v chan \<Rightarrow> nat \<Rightarrow> nat" where
  "chan_Next c ptr = (ptr + 1) mod (ch_capacity c + 1)"

definition chan_IsEmpty :: "'v chan \<Rightarrow> bool" where
  "chan_IsEmpty c = (ch_tail c = ch_head c)"

definition chan_IsFull :: "'v chan \<Rightarrow> bool" where
  "chan_IsFull c = (chan_Next c (ch_tail c) = ch_head c)"

definition chan_Place :: "'v \<Rightarrow> nat \<Rightarrow> 'v chan \<Rightarrow> 'v chan" where
  "chan_Place v pos c = c\<lparr>ch_data := (ch_data c)[pos := v]\<rparr>"

text \<open>The part of \<open>Send\<close> and of \<open>Recv\<close> that moves the value; reading outside the vector is an error.\<close>

definition chan_put :: "'v \<Rightarrow> 'v chan \<Rightarrow> 'v chan" where
  "chan_put v c =
     (let c' = (if length (ch_data c) < ch_capacity c + 1 then c\<lparr>ch_data := ch_data c @ [v]\<rparr>
                else chan_Place v (ch_tail c) c)
      in c'\<lparr>ch_tail := chan_Next c' (ch_tail c')\<rparr>)"

definition chan_take :: "'v chan \<Rightarrow> ('v \<times> 'v chan) option" where
  "chan_take c =
     (if ch_head c < length (ch_data c)
      then Some (ch_data c ! ch_head c, c\<lparr>ch_head := chan_Next c (ch_head c)\<rparr>) else None)"

definition chan_new :: "nat \<Rightarrow> 'v chan" where
  "chan_new capacity = \<lparr>ch_capacity = capacity, ch_head = 0, ch_tail = 0, ch_data = []\<rparr>"

section \<open>Send and Recv\<close>

text \<open>
  \<open>CH_Send\<close>: a sender about to take the lock; \<open>CH_SendWait\<close>: suspended in \<open>senders_\<close>; \<open>CH_SendWoken\<close>: popped
  and scheduled by a receiver, about to take the lock again. The same for receivers.
\<close>

datatype ch_pc = CH_Idle | CH_Send | CH_SendWait | CH_SendWoken | CH_Recv | CH_RecvWait | CH_RecvWoken | CH_Error

record 'v chs =
  ch_buf :: "'v chan"
  ch_senders :: "nat list"
  ch_recvs :: "nat list"
  ch_pcs :: "nat \<Rightarrow> ch_pc"
  ch_arg :: "nat \<Rightarrow> 'v"
  ch_ret :: "nat \<Rightarrow> 'v option"
  ch_sent :: "'v list"
  ch_received :: "'v list"

definition channel_init :: "nat \<Rightarrow> 'v \<Rightarrow> 'v chs" where
  "channel_init capacity v0 = \<lparr>ch_buf = chan_new capacity, ch_senders = [], ch_recvs = [], ch_pcs = (\<lambda>_. CH_Idle),
     ch_arg = (\<lambda>_. v0), ch_ret = (\<lambda>_. None), ch_sent = [], ch_received = []\<rparr>"

definition channel_Send :: "nat \<Rightarrow> 'v chs \<Rightarrow> 'v chs" where
  "channel_Send f s =
     (if chan_IsFull (ch_buf s)
      then s\<lparr>ch_senders := list_PushBack f (ch_senders s), ch_pcs := (ch_pcs s)(f := CH_SendWait)\<rparr>
      else let s' = s\<lparr>ch_buf := chan_put (ch_arg s f) (ch_buf s), ch_sent := ch_sent s @ [ch_arg s f],
                      ch_pcs := (ch_pcs s)(f := CH_Idle)\<rparr>
           in case list_PopFront (ch_recvs s') of
                (None, _) \<Rightarrow> s'
              | (Some w, ws) \<Rightarrow> s'\<lparr>ch_recvs := ws, ch_pcs := (ch_pcs s')(w := CH_RecvWoken)\<rparr>)"

definition channel_Recv :: "nat \<Rightarrow> 'v chs \<Rightarrow> 'v chs" where
  "channel_Recv f s =
     (if chan_IsEmpty (ch_buf s)
      then s\<lparr>ch_recvs := list_PushBack f (ch_recvs s), ch_pcs := (ch_pcs s)(f := CH_RecvWait)\<rparr>
      else case chan_take (ch_buf s) of
             None \<Rightarrow> s\<lparr>ch_pcs := (ch_pcs s)(f := CH_Error)\<rparr>
           | Some (v, buf) \<Rightarrow>
               (let s' = s\<lparr>ch_buf := buf, ch_received := ch_received s @ [v], ch_ret := (ch_ret s)(f \<mapsto> v),
                           ch_pcs := (ch_pcs s)(f := CH_Idle)\<rparr>
                in case list_PopFront (ch_senders s') of
                     (None, _) \<Rightarrow> s'
                   | (Some w, ws) \<Rightarrow> s'\<lparr>ch_senders := ws, ch_pcs := (ch_pcs s')(w := CH_SendWoken)\<rparr>))"

datatype 'v ch_event = CHE_Send nat 'v | CHE_Recv nat | CHE_Step nat

fun channel_step :: "'v ch_event \<Rightarrow> 'v chs \<Rightarrow> 'v chs option" where
  "channel_step (CHE_Send f v) s =
     (if ch_pcs s f = CH_Idle then Some (s\<lparr>ch_pcs := (ch_pcs s)(f := CH_Send), ch_arg := (ch_arg s)(f := v)\<rparr>) else None)"
| "channel_step (CHE_Recv f) s =
     (if ch_pcs s f = CH_Idle then Some (s\<lparr>ch_pcs := (ch_pcs s)(f := CH_Recv)\<rparr>) else None)"
| "channel_step (CHE_Step f) s =
     (case ch_pcs s f of
        CH_Send \<Rightarrow> Some (channel_Send f s)
      | CH_SendWoken \<Rightarrow> Some (channel_Send f s)
      | CH_Recv \<Rightarrow> Some (channel_Recv f s)
      | CH_RecvWoken \<Rightarrow> Some (channel_Recv f s)
      | _ \<Rightarrow> None)"

text \<open>The rendezvous channel is not implemented: both operations abort.\<close>

definition rendezvous_Send :: "'v \<Rightarrow> 's \<Rightarrow> 's option" where
  "rendezvous_Send v s = None"

definition rendezvous_Recv :: "'s \<Rightarrow> ('v \<times> 's) option" where
  "rendezvous_Recv s = None"

section \<open>The buffer is a bounded queue\<close>

definition chan_len :: "'v chan \<Rightarrow> nat" where
  "chan_len c = (if ch_head c \<le> ch_tail c then ch_tail c - ch_head c else ch_tail c + (ch_capacity c + 1) - ch_head c)"

definition chan_items :: "'v chan \<Rightarrow> 'v list" where
  "chan_items c = map (\<lambda>i. ch_data c ! ((ch_head c + i) mod (ch_capacity c + 1))) [0..<chan_len c]"

text \<open>Until the vector is full the tail is its length and nothing has wrapped around.\<close>

definition chan_ok :: "'v chan \<Rightarrow> bool" where
  "chan_ok c = (ch_head c \<le> ch_capacity c \<and> ch_tail c \<le> ch_capacity c \<and>
     (length (ch_data c) = ch_capacity c + 1 \<or>
      length (ch_data c) < ch_capacity c + 1 \<and> ch_tail c = length (ch_data c) \<and> ch_head c \<le> ch_tail c))"

lemma mod_twice: "(k::nat) < 2 * n \<Longrightarrow> k mod n = (if k < n then k else k - n)"
  by (simp add: le_mod_geq)

lemma chan_Next_eq: "ptr \<le> ch_capacity c \<Longrightarrow> chan_Next c ptr = (if ptr = ch_capacity c then 0 else Suc ptr)"
  by (simp add: chan_Next_def)

lemma chan_len_bound: "chan_ok c \<Longrightarrow> chan_len c \<le> ch_capacity c"
  by (auto simp: chan_ok_def chan_len_def)

lemma chan_full_iff:
  assumes "chan_ok c"
  shows "chan_IsFull c \<longleftrightarrow> chan_len c = ch_capacity c"
proof -
  from assms have b: "ch_head c \<le> ch_capacity c" "ch_tail c \<le> ch_capacity c" by (simp_all add: chan_ok_def)
  then show ?thesis unfolding chan_IsFull_def chan_Next_eq [OF b(2)] chan_len_def by (simp split: if_splits; linarith)
qed

lemma chan_empty_iff: "chan_ok c \<Longrightarrow> chan_IsEmpty c \<longleftrightarrow> chan_len c = 0"
  by (auto simp: chan_ok_def chan_len_def chan_IsEmpty_def)

lemma chan_slot:
  assumes "chan_ok c" "i < chan_len c"
  shows "(ch_head c + i) mod (ch_capacity c + 1) < length (ch_data c)"
    "(ch_head c + i) mod (ch_capacity c + 1) \<noteq> ch_tail c"
proof -
  have "ch_head c + i < 2 * (ch_capacity c + 1)" using assms by (auto simp: chan_ok_def chan_len_def split: if_splits)
  note m = mod_twice [OF this]
  from assms show "(ch_head c + i) mod (ch_capacity c + 1) < length (ch_data c)"
    unfolding m by (auto simp: chan_ok_def chan_len_def split: if_splits)
  from assms show "(ch_head c + i) mod (ch_capacity c + 1) \<noteq> ch_tail c"
    unfolding m by (auto simp: chan_ok_def chan_len_def split: if_splits)
qed

lemma chan_slot_tail:
  assumes "chan_ok c"
  shows "(ch_head c + chan_len c) mod (ch_capacity c + 1) = ch_tail c"
proof -
  have "ch_head c + chan_len c < 2 * (ch_capacity c + 1)" using assms by (auto simp: chan_ok_def chan_len_def split: if_splits)
  from mod_twice [OF this] assms show ?thesis by (auto simp: chan_ok_def chan_len_def split: if_splits)
qed

text \<open>What \<open>Send\<close> writes goes to the end, what \<open>Recv\<close> reads is the front.\<close>

lemma chan_put_items:
  assumes ok: "chan_ok c" and full: "\<not> chan_IsFull c"
  shows "chan_ok (chan_put v c) \<and> chan_items (chan_put v c) = chan_items c @ [v] \<and>
    ch_capacity (chan_put v c) = ch_capacity c"
proof -
  let ?d = "if length (ch_data c) < ch_capacity c + 1 then ch_data c @ [v] else (ch_data c)[ch_tail c := v]"
  have put: "chan_put v c = c\<lparr>ch_data := ?d, ch_tail := chan_Next c (ch_tail c)\<rparr>"
    by (simp add: chan_put_def chan_Place_def chan_Next_def Let_def)
  from ok have b: "ch_head c \<le> ch_capacity c" "ch_tail c \<le> ch_capacity c" by (simp_all add: chan_ok_def)
  have len: "chan_len (chan_put v c) = Suc (chan_len c)"
    using full b unfolding put chan_IsFull_def chan_len_def chan_Next_eq [OF b(2)] by (auto split: if_splits)
  have dl: "length ?d = (if length (ch_data c) < ch_capacity c + 1 then Suc (length (ch_data c)) else length (ch_data c))"
    by simp
  have ok': "chan_ok (chan_put v c)"
    using ok full unfolding put chan_ok_def chan_IsFull_def chan_Next_eq [OF b(2)] by (auto split: if_splits)
  have old: "?d ! ((ch_head c + i) mod (ch_capacity c + 1)) = ch_data c ! ((ch_head c + i) mod (ch_capacity c + 1))"
    if "i < chan_len c" for i using chan_slot [OF ok that] by (auto simp: nth_append)
  have new: "?d ! ch_tail c = v" using ok by (auto simp: chan_ok_def nth_append)
  have "chan_items (chan_put v c) =
      map (\<lambda>i. ?d ! ((ch_head c + i) mod (ch_capacity c + 1))) [0..<Suc (chan_len c)]"
    unfolding chan_items_def len by (simp add: put)
  also have "\<dots> = chan_items c @ [v]"
    unfolding chan_items_def using old new by (simp add: chan_slot_tail [OF ok, simplified])
  finally show ?thesis using ok' by (simp add: put)
qed

lemma chan_take_items:
  assumes ok: "chan_ok c" and ne: "\<not> chan_IsEmpty c"
  shows "\<exists>v c'. chan_take c = Some (v, c') \<and> chan_ok c' \<and> chan_items c = v # chan_items c' \<and> ch_capacity c' = ch_capacity c"
proof -
  let ?c = "c\<lparr>ch_head := chan_Next c (ch_head c)\<rparr>"
  from ok have b: "ch_head c \<le> ch_capacity c" "ch_tail c \<le> ch_capacity c" by (simp_all add: chan_ok_def)
  from ok ne have h: "ch_head c < length (ch_data c)" by (auto simp: chan_ok_def chan_IsEmpty_def)
  from ok ne have ok': "chan_ok ?c" unfolding chan_ok_def chan_IsEmpty_def by (auto simp: chan_Next_eq [OF b(1)])
  have len: "chan_len c = Suc (chan_len ?c)"
    using ne b unfolding chan_IsEmpty_def chan_len_def by (auto simp: chan_Next_eq [OF b(1)] split: if_splits)
  have shift: "(ch_head c + Suc i) mod (ch_capacity c + 1) = (chan_Next c (ch_head c) + i) mod (ch_capacity c + 1)" for i
    unfolding chan_Next_def by (simp add: mod_add_left_eq)
  have "chan_items c = ch_data c ! ch_head c # map (\<lambda>i. ch_data c ! ((ch_head c + Suc i) mod (ch_capacity c + 1))) [0..<chan_len ?c]"
    unfolding chan_items_def len upt_conv_Cons [OF zero_less_Suc] using b
    by (simp add: map_Suc_upt [symmetric] del: upt_Suc)
  then have "chan_items c = ch_data c ! ch_head c # chan_items ?c"
    unfolding shift by (simp add: chan_items_def)
  with h ok' show ?thesis by (simp add: chan_take_def)
qed

section \<open>The invariant\<close>

text \<open>
  While a receiver sleeps, every value in the buffer is matched by a receiver that has been woken
  and has not run yet; while a sender sleeps, so is every free slot.
\<close>

definition channel_inv :: "nat \<Rightarrow> 'v chs \<Rightarrow> bool" where
  "channel_inv cap s =
     (chan_ok (ch_buf s) \<and> ch_capacity (ch_buf s) = cap \<and> ch_sent s = ch_received s @ chan_items (ch_buf s) \<and>
      (\<forall>f. ch_pcs s f \<noteq> CH_Error) \<and>
      distinct (ch_senders s) \<and> set (ch_senders s) = at_pc (ch_pcs s) CH_SendWait \<and>
      distinct (ch_recvs s) \<and> set (ch_recvs s) = at_pc (ch_pcs s) CH_RecvWait \<and>
      finite (at_pc (ch_pcs s) CH_SendWoken) \<and> finite (at_pc (ch_pcs s) CH_RecvWoken) \<and>
      (ch_recvs s \<noteq> [] \<longrightarrow> length (chan_items (ch_buf s)) \<le> card (at_pc (ch_pcs s) CH_RecvWoken)) \<and>
      (ch_senders s \<noteq> [] \<longrightarrow> cap - length (chan_items (ch_buf s)) \<le> card (at_pc (ch_pcs s) CH_SendWoken)))"

lemma channel_invI:
  assumes "chan_ok (ch_buf s)" "ch_capacity (ch_buf s) = cap" "ch_sent s = ch_received s @ chan_items (ch_buf s)"
    "\<forall>f. ch_pcs s f \<noteq> CH_Error"
    "distinct (ch_senders s)" "set (ch_senders s) = at_pc (ch_pcs s) CH_SendWait"
    "distinct (ch_recvs s)" "set (ch_recvs s) = at_pc (ch_pcs s) CH_RecvWait"
    "finite (at_pc (ch_pcs s) CH_SendWoken)" "finite (at_pc (ch_pcs s) CH_RecvWoken)"
    "ch_recvs s \<noteq> [] \<Longrightarrow> length (chan_items (ch_buf s)) \<le> card (at_pc (ch_pcs s) CH_RecvWoken)"
    "ch_senders s \<noteq> [] \<Longrightarrow> cap - length (chan_items (ch_buf s)) \<le> card (at_pc (ch_pcs s) CH_SendWoken)"
  shows "channel_inv cap s"
  using assms unfolding channel_inv_def by blast

lemma chan_items_len: "length (chan_items c) = chan_len c"
  by (simp add: chan_items_def)

lemma channel_Send_inv:
  assumes inv: "channel_inv cap s" and f: "ch_pcs s f = CH_Send \<or> ch_pcs s f = CH_SendWoken"
  shows "channel_inv cap (channel_Send f s)"
proof (cases "chan_IsFull (ch_buf s)")
  case True
  with inv have "length (chan_items (ch_buf s)) = cap" by (simp add: channel_inv_def chan_full_iff chan_items_len)
  with inv f True show ?thesis
    by (auto simp: channel_inv_def channel_Send_def list_PushBack_def at_pc_upd at_pc_iff)
next
  case False
  let ?b = "chan_put (ch_arg s f) (ch_buf s)"
  from inv chan_put_items [OF _ False, of "ch_arg s f"]
  have b: "chan_ok ?b" "chan_items ?b = chan_items (ch_buf s) @ [ch_arg s f]" "ch_capacity ?b = cap"
    by (simp_all add: channel_inv_def)
  have sw: "card (at_pc (ch_pcs s) CH_SendWoken) \<le> Suc (card (at_pc (ch_pcs s) CH_SendWoken - {f}))"
    using inv by (cases "f \<in> at_pc (ch_pcs s) CH_SendWoken") (auto simp: channel_inv_def card_Diff_singleton)
  show ?thesis
  proof (cases "ch_recvs s")
    case Nil
    with inv f False b sw show ?thesis
      by (auto simp: channel_inv_def channel_Send_def Let_def at_pc_upd at_pc_iff)
  next
    case (Cons w ws)
    with inv have w: "ch_pcs s w = CH_RecvWait" by (auto simp: channel_inv_def at_pc_def)
    with f have wf: "w \<noteq> f" by auto
    have rw: "card (insert w (at_pc (ch_pcs s) CH_RecvWoken)) = Suc (card (at_pc (ch_pcs s) CH_RecvWoken))"
      using inv w by (simp add: channel_inv_def at_pc_iff)
    let ?p = "(ch_pcs s)(f := CH_Idle, w := CH_RecvWoken)"
    from f w wf have at: "at_pc ?p CH_SendWait = at_pc (ch_pcs s) CH_SendWait" "at_pc ?p CH_SendWoken = at_pc (ch_pcs s) CH_SendWoken - {f}"
      "at_pc ?p CH_RecvWait = at_pc (ch_pcs s) CH_RecvWait - {w}" "at_pc ?p CH_RecvWoken = insert w (at_pc (ch_pcs s) CH_RecvWoken)"
      by (auto simp: at_pc_upd at_pc_iff)
    have s': "channel_Send f s = s\<lparr>ch_buf := ?b, ch_sent := ch_sent s @ [ch_arg s f], ch_recvs := ws, ch_pcs := ?p\<rparr>"
      using False Cons by (simp add: channel_Send_def Let_def)
    from inv Cons have ws: "set ws = at_pc (ch_pcs s) CH_RecvWait - {w}" "distinct ws" by (auto simp: channel_inv_def)
    from Cons have "ch_recvs s \<noteq> []" by simp
    with inv have k: "ch_sent s = ch_received s @ chan_items (ch_buf s)" "\<forall>f. ch_pcs s f \<noteq> CH_Error"
      "distinct (ch_senders s)" "set (ch_senders s) = at_pc (ch_pcs s) CH_SendWait"
      "finite (at_pc (ch_pcs s) CH_SendWoken)" "finite (at_pc (ch_pcs s) CH_RecvWoken)"
      "length (chan_items (ch_buf s)) \<le> card (at_pc (ch_pcs s) CH_RecvWoken)"
      "ch_senders s \<noteq> [] \<longrightarrow> cap - length (chan_items (ch_buf s)) \<le> card (at_pc (ch_pcs s) CH_SendWoken)"
      unfolding channel_inv_def by - (blast+)
    from k(8) sw have "ch_senders s \<noteq> [] \<longrightarrow> cap - Suc (length (chan_items (ch_buf s))) \<le> card (at_pc (ch_pcs s) CH_SendWoken - {f})"
      by linarith
    then show ?thesis unfolding s'
      by - (rule channel_invI, simp add: b, simp add: b, simp add: b k(1), simp add: k(2), simp add: k(3),
          simp add: at k(4), simp add: ws, simp add: ws at, simp add: at k, simp add: at k, simp add: at b rw k,
          simp add: at b k)
  qed
qed

lemma channel_Recv_inv:
  assumes inv: "channel_inv cap s" and f: "ch_pcs s f = CH_Recv \<or> ch_pcs s f = CH_RecvWoken"
  shows "channel_inv cap (channel_Recv f s)"
proof (cases "chan_IsEmpty (ch_buf s)")
  case True
  with inv have "chan_items (ch_buf s) = []" by (simp add: channel_inv_def chan_empty_iff chan_items_def)
  with inv f True show ?thesis
    by (auto simp: channel_inv_def channel_Recv_def list_PushBack_def at_pc_upd at_pc_iff)
next
  case False
  from inv chan_take_items [OF _ False] obtain v b where take: "chan_take (ch_buf s) = Some (v, b)"
    and b: "chan_ok b" "chan_items (ch_buf s) = v # chan_items b" "ch_capacity b = cap"
    by (auto simp: channel_inv_def)
  have rw: "card (at_pc (ch_pcs s) CH_RecvWoken) \<le> Suc (card (at_pc (ch_pcs s) CH_RecvWoken - {f}))"
    using inv by (cases "f \<in> at_pc (ch_pcs s) CH_RecvWoken") (auto simp: channel_inv_def card_Diff_singleton)
  show ?thesis
  proof (cases "ch_senders s")
    case Nil
    with inv f False b rw take show ?thesis
      by (auto simp: channel_inv_def channel_Recv_def Let_def at_pc_upd at_pc_iff)
  next
    case (Cons w ws)
    with inv have w: "ch_pcs s w = CH_SendWait" by (auto simp: channel_inv_def at_pc_def)
    with f have wf: "w \<noteq> f" by auto
    have sw: "card (insert w (at_pc (ch_pcs s) CH_SendWoken)) = Suc (card (at_pc (ch_pcs s) CH_SendWoken))"
      using inv w by (simp add: channel_inv_def at_pc_iff)
    let ?p = "(ch_pcs s)(f := CH_Idle, w := CH_SendWoken)"
    from f w wf have at: "at_pc ?p CH_RecvWait = at_pc (ch_pcs s) CH_RecvWait" "at_pc ?p CH_RecvWoken = at_pc (ch_pcs s) CH_RecvWoken - {f}"
      "at_pc ?p CH_SendWait = at_pc (ch_pcs s) CH_SendWait - {w}" "at_pc ?p CH_SendWoken = insert w (at_pc (ch_pcs s) CH_SendWoken)"
      by (auto simp: at_pc_upd at_pc_iff)
    have s': "channel_Recv f s = s\<lparr>ch_buf := b, ch_received := ch_received s @ [v], ch_ret := (ch_ret s)(f \<mapsto> v), ch_senders := ws, ch_pcs := ?p\<rparr>"
      using False Cons take by (simp add: channel_Recv_def Let_def)
    from inv Cons have ws: "set ws = at_pc (ch_pcs s) CH_SendWait - {w}" "distinct ws" by (auto simp: channel_inv_def)
    from Cons have "ch_senders s \<noteq> []" by simp
    with inv have k: "ch_sent s = ch_received s @ chan_items (ch_buf s)" "\<forall>f. ch_pcs s f \<noteq> CH_Error"
      "distinct (ch_recvs s)" "set (ch_recvs s) = at_pc (ch_pcs s) CH_RecvWait"
      "finite (at_pc (ch_pcs s) CH_SendWoken)" "finite (at_pc (ch_pcs s) CH_RecvWoken)"
      "cap - length (chan_items (ch_buf s)) \<le> card (at_pc (ch_pcs s) CH_SendWoken)"
      "ch_recvs s \<noteq> [] \<longrightarrow> length (chan_items (ch_buf s)) \<le> card (at_pc (ch_pcs s) CH_RecvWoken)"
      unfolding channel_inv_def by - (blast+)
    from k(8) rw b(2) have "ch_recvs s \<noteq> [] \<longrightarrow> length (chan_items b) \<le> card (at_pc (ch_pcs s) CH_RecvWoken - {f})"
      by auto
    moreover from k(7) b(2) sw have "cap - length (chan_items b) \<le> card (insert w (at_pc (ch_pcs s) CH_SendWoken))" by simp
    ultimately show ?thesis unfolding s'
      by - (rule channel_invI, simp add: b, simp add: b, simp add: k(1) b, simp add: k(2), simp add: ws, simp add: ws at,
          simp add: k(3), simp add: at k(4), simp add: at k, simp add: at k, simp add: at, simp add: at)
  qed
qed

interpretation channel: transition_invariant channel_step "channel_init cap v0" "channel_inv cap"
proof
  show "channel_inv cap (channel_init cap v0)"
    by (simp add: channel_inv_def channel_init_def chan_new_def chan_ok_def chan_items_def chan_len_def at_pc_const)
next
  fix s e s'
  assume inv: "channel_inv cap s" and step: "channel_step e s = Some s'"
  show "channel_inv cap s'"
  proof (cases e)
    case (CHE_Send f v)
    with inv step show ?thesis by (auto simp: channel_inv_def at_pc_upd at_pc_iff split: if_splits)
  next
    case (CHE_Recv f)
    with inv step show ?thesis by (auto simp: channel_inv_def at_pc_upd at_pc_iff split: if_splits)
  next
    case (CHE_Step f)
    with step inv show ?thesis
      by (auto intro: channel_Send_inv channel_Recv_inv split: ch_pc.splits)
  qed
qed

section \<open>Properties\<close>

text \<open>
  C12: the buffered channel is a bounded first-in first-out queue and loses no wakeup. The values sent
  are, in order, those received followed by those in the buffer, which never holds more than
  the capacity; no receive reads outside the vector. A receiver can only sleep forever if the
  buffer is empty: when no woken receiver is still to run and some receiver sleeps, there is nothing
  to receive. A sender can only sleep forever if the buffer is full.
\<close>

theorem channel_fifo_no_lost_wakeup:
  assumes "reachable channel_step (channel_init cap v0) s"
  shows "ch_sent s = ch_received s @ chan_items (ch_buf s) \<and> length (chan_items (ch_buf s)) \<le> cap \<and>
    (\<forall>f. ch_pcs s f \<noteq> CH_Error) \<and>
    ((\<forall>f. ch_pcs s f \<noteq> CH_RecvWoken) \<and> (\<exists>f. ch_pcs s f = CH_RecvWait) \<longrightarrow> chan_items (ch_buf s) = []) \<and>
    ((\<forall>f. ch_pcs s f \<noteq> CH_SendWoken) \<and> (\<exists>f. ch_pcs s f = CH_SendWait) \<longrightarrow> length (chan_items (ch_buf s)) = cap)"
proof -
  from channel.reachable_inv [OF assms] have inv: "channel_inv cap s" .
  then have "length (chan_items (ch_buf s)) \<le> cap" using chan_len_bound [of "ch_buf s"] by (simp add: channel_inv_def chan_items_len)
  moreover have "(\<forall>f. ch_pcs s f \<noteq> CH_RecvWoken) \<Longrightarrow> at_pc (ch_pcs s) CH_RecvWoken = {}" by (simp add: at_pc_def)
  moreover have "(\<forall>f. ch_pcs s f \<noteq> CH_SendWoken) \<Longrightarrow> at_pc (ch_pcs s) CH_SendWoken = {}" by (simp add: at_pc_def)
  moreover have "ch_recvs s \<noteq> [] \<longleftrightarrow> (\<exists>f. ch_pcs s f = CH_RecvWait)" "ch_senders s \<noteq> [] \<longleftrightarrow> (\<exists>f. ch_pcs s f = CH_SendWait)"
    using inv by (auto simp: channel_inv_def at_pc_def simp flip: set_empty)
  ultimately show ?thesis using inv unfolding channel_inv_def by auto
qed

theorem channel_fifo_no_lost_wakeup_witness:
  "\<exists>s. reachable channel_step (channel_init 1 (0 :: nat)) s \<and> ch_received s = [7] \<and> ch_pcs s 2 = CH_SendWoken \<and>
     ch_sent s = [7] @ chan_items (ch_buf s) \<and> length (chan_items (ch_buf s)) \<le> 1"
proof -
  have "\<exists>s. exec channel_step (channel_init 1 (0 :: nat))
      [CHE_Send 1 7, CHE_Step 1, CHE_Send 2 8, CHE_Step 2, CHE_Recv 3, CHE_Step 3] = Some s \<and>
      ch_received s = [7] \<and> ch_pcs s 2 = CH_SendWoken"
    by (simp add: channel_init_def chan_new_def channel_Send_def channel_Recv_def chan_IsFull_def chan_IsEmpty_def
        chan_Next_def chan_put_def chan_take_def Let_def list_PushBack_def)
  from exec_reachable_ex [OF this] obtain s :: "nat chs" where
    "reachable channel_step (channel_init 1 0) s" "ch_received s = [7]" "ch_pcs s 2 = CH_SendWoken" by blast
  with channel_fifo_no_lost_wakeup [of 1 0 s] show ?thesis by auto
qed

end
