(* ===== verification/Strand.thy ===== *)
theory Strand
  imports Sched
begin

text \<open>
  \<open>fiber/sync/strand.hpp\<close>: critical sections executed in batches by whoever holds the strand.

  The head of the waiter stack is one word: null, a dummy, or the address of a waiter with the busy
  bit set or clear. The first part is about these words; the machine then uses the four cases. A
  waiter is identified with its fiber, since it lives on the fiber's stack during \<open>Combine\<close>.
  Every step is one access to the head or one run of a critical section; the awaiter's loop runs
  on the worker after the fiber has been switched away. \<open>sd_done f\<close> is a history variable: the
  critical section of the current call of fiber \<open>f\<close> has been run; running one twice sets \<open>sd_bad\<close>, as does
  an access to the waiter of a fiber that is not suspended.
\<close>

unbundle bit_operations_syntax

section \<open>Words\<close>

definition kWaiterDummy :: u64 where "kWaiterDummy = 0xffffffffffffffff"
definition kWaiterMsk :: u64 where "kWaiterMsk = 0x7fffffffffffffff"
definition kBusyBit :: u64 where "kBusyBit = 0x8000000000000000"

definition AddBusyBit :: "u64 \<Rightarrow> u64" where
  "AddBusyBit waiter = waiter OR kBusyBit"

definition StripBusyBit :: "u64 \<Rightarrow> u64" where
  "StripBusyBit waiter = waiter AND kWaiterMsk"

definition GetDummyWaiter :: u64 where
  "GetDummyWaiter = kWaiterDummy"

definition IsBusy :: "u64 \<Rightarrow> bool" where
  "IsBusy waiter = (waiter AND kBusyBit \<noteq> 0)"

section \<open>The machine\<close>

datatype shead = SH_Null | SH_Dummy | SH_Busy nat | SH_Idle nat

text \<open>
  Where a fiber is in \<open>Combine\<close> or \<open>ProcessBatch\<close>. The arguments are the local variables: the
  head last read, the batch handed over, the waiter being processed and the rest of the batch.
  A fiber that made itself owner in the awaiter has been scheduled and goes on at \<open>SD_Owner\<close>; one
  that was scheduled by the owner of its batch goes on at \<open>SD_Resumed\<close>.
\<close>

datatype sd_pc =
    SD_Out
  | SD_Load
  | SD_FastCas
  | SD_FastRun
  | SD_AwLoad
  | SD_AwLoop shead
  | SD_Waiting
  | SD_Owner "nat ptr"
  | SD_Resumed
  | SD_Tail shead
  | SD_Process "nat ptr"
  | SD_Grab shead
  | SD_Batch nat
  | SD_RunTask nat "nat ptr"
  | SD_RelLoad nat
  | SD_Release nat shead
  | SD_Schedule nat "nat ptr"

record strand =
  sd_head :: shead
  sd_next :: "nat \<Rightarrow> nat ptr"
  sd_pcs :: "nat \<Rightarrow> sd_pc"
  sd_done :: "nat \<Rightarrow> bool"
  sd_bad :: bool

definition strand_init :: strand where
  "strand_init = \<lparr>sd_head = SH_Null, sd_next = (\<lambda>_. nullptr), sd_pcs = (\<lambda>_. SD_Out), sd_done = (\<lambda>_. True), sd_bad = False\<rparr>"

abbreviation sd_goto :: "nat \<Rightarrow> sd_pc \<Rightarrow> strand \<Rightarrow> strand" where
  "sd_goto f q s \<equiv> s\<lparr>sd_pcs := (sd_pcs s)(f := q)\<rparr>"

text \<open>\<open>RunTask\<close> of the waiter of fiber \<open>w\<close>.\<close>

definition sd_run :: "nat \<Rightarrow> strand \<Rightarrow> strand" where
  "sd_run w s = s\<lparr>sd_done := (sd_done s)(w := True), sd_bad := (sd_bad s \<or> sd_done s w)\<rparr>"

text \<open>An access to the waiter of fiber \<open>w\<close>, which exists as long as \<open>w\<close> is suspended in \<open>Combine\<close>.\<close>

definition sd_touch :: "nat \<Rightarrow> strand \<Rightarrow> strand" where
  "sd_touch w s = s\<lparr>sd_bad := (sd_bad s \<or> sd_pcs s w \<noteq> SD_Waiting)\<rparr>"

text \<open>A strong exchange: it succeeds, or the head read is returned.\<close>

definition sd_cas :: "shead \<Rightarrow> shead \<Rightarrow> (strand \<Rightarrow> strand) \<Rightarrow> (shead \<Rightarrow> strand \<Rightarrow> strand) \<Rightarrow> strand \<Rightarrow> strand" where
  "sd_cas old new ok fail s = (if sd_head s = old then ok (s\<lparr>sd_head := new\<rparr>) else fail (sd_head s) s)"

text \<open>The loop of the awaiter.\<close>

fun sd_await :: "nat \<Rightarrow> shead \<Rightarrow> strand \<Rightarrow> strand" where
  "sd_await f SH_Null s =
     sd_cas SH_Null SH_Dummy (sd_goto f (SD_Owner nullptr)) (\<lambda>h. sd_goto f (SD_AwLoop h)) s"
| "sd_await f SH_Dummy s =
     sd_cas SH_Dummy (SH_Busy f) (sd_goto f SD_Waiting) (\<lambda>h. sd_goto f (SD_AwLoop h))
       (s\<lparr>sd_next := (sd_next s)(f := nullptr)\<rparr>)"
| "sd_await f (SH_Busy w) s =
     sd_cas (SH_Busy w) (SH_Busy f) (sd_goto f SD_Waiting) (\<lambda>h. sd_goto f (SD_AwLoop h))
       (s\<lparr>sd_next := (sd_next s)(f := Some w)\<rparr>)"
| "sd_await f (SH_Idle w) s =
     sd_cas (SH_Idle w) SH_Dummy (sd_goto f (SD_Owner (Some w))) (\<lambda>h. sd_goto f (SD_AwLoop h)) s"

text \<open>Taking the batch at the beginning of \<open>ProcessBatch\<close>. \<open>StripBusyBit\<close> turns \<open>SH_Busy w\<close>
  into the address of \<open>w\<close> and leaves null and an idle head alone.\<close>

fun sd_grab :: "nat \<Rightarrow> shead \<Rightarrow> strand \<Rightarrow> strand" where
  "sd_grab f SH_Dummy s = sd_cas SH_Dummy SH_Null (sd_goto f SD_Out) (\<lambda>h. sd_goto f (SD_Grab h)) s"
| "sd_grab f (SH_Busy w) s = sd_cas (SH_Busy w) SH_Dummy (sd_goto f (SD_Batch w)) (\<lambda>h. sd_goto f (SD_Grab h)) s"
| "sd_grab f (SH_Idle w) s = sd_cas (SH_Idle w) SH_Dummy (sd_goto f (SD_Batch w)) (\<lambda>h. sd_goto f (SD_Grab h)) s"
| "sd_grab f SH_Null s = sd_cas SH_Null SH_Dummy (sd_goto f SD_Out) (\<lambda>h. sd_goto f (SD_Grab h)) s"

text \<open>Giving the strand up after the last waiter of the batch.\<close>

fun sd_release :: "nat \<Rightarrow> nat \<Rightarrow> shead \<Rightarrow> strand \<Rightarrow> strand" where
  "sd_release f w SH_Dummy s =
     sd_cas SH_Dummy SH_Null (sd_goto f (SD_Schedule w nullptr)) (\<lambda>h. sd_goto f (SD_Release w h)) s"
| "sd_release f w (SH_Busy v) s =
     sd_cas (SH_Busy v) (SH_Idle v) (sd_goto f (SD_Schedule w nullptr)) (\<lambda>h. sd_goto f (SD_Release w h)) s"
| "sd_release f w h s =
     sd_cas h h (sd_goto f (SD_Schedule w nullptr)) (\<lambda>h. sd_goto f (SD_Release w h)) s"

fun strand_act :: "nat \<Rightarrow> sd_pc \<Rightarrow> strand \<Rightarrow> strand option" where
  "strand_act f SD_Out s = None"
| "strand_act f SD_Load s = Some (sd_goto f (if sd_head s = SH_Null then SD_FastCas else SD_AwLoad) s)"
| "strand_act f SD_FastCas s =
     Some (sd_cas SH_Null SH_Dummy (sd_goto f SD_FastRun) (\<lambda>_. sd_goto f SD_AwLoad) s)"
| "strand_act f SD_FastRun s = Some (sd_goto f (SD_Process nullptr) (sd_run f s))"
| "strand_act f SD_AwLoad s = Some (sd_goto f (SD_AwLoop (sd_head s)) s)"
| "strand_act f (SD_AwLoop h) s = Some (sd_await f h s)"
| "strand_act f SD_Waiting s = None"
| "strand_act f (SD_Owner b) s = Some (sd_goto f (SD_Process b) (sd_run f s))"
| "strand_act f SD_Resumed s = Some (sd_goto f (SD_Tail (sd_head s)) s)"
| "strand_act f (SD_Tail (SH_Idle w)) s =
     Some (sd_cas (SH_Idle w) SH_Dummy (sd_goto f (SD_Process (Some w))) (\<lambda>_. sd_goto f SD_Out) s)"
| "strand_act f (SD_Tail h) s = Some (sd_goto f SD_Out s)"
| "strand_act f (SD_Process None) s = Some (sd_goto f (SD_Grab (sd_head s)) s)"
| "strand_act f (SD_Process (Some w)) s = Some (sd_goto f (SD_Batch w) s)"
| "strand_act f (SD_Grab h) s = Some (sd_grab f h s)"
| "strand_act f (SD_Batch w) s = Some (sd_goto f (SD_RunTask w (sd_next s w)) (sd_touch w s))"
| "strand_act f (SD_RunTask w n) s =
     Some (sd_goto f (if n = nullptr then SD_RelLoad w else SD_Schedule w n) (sd_run w (sd_touch w s)))"
| "strand_act f (SD_RelLoad w) s = Some (sd_goto f (SD_Release w (sd_head s)) s)"
| "strand_act f (SD_Release w h) s = Some (sd_release f w h s)"
| "strand_act f (SD_Schedule w n) s =
     Some (sd_goto f (case n of None \<Rightarrow> SD_Out | Some v \<Rightarrow> SD_Batch v)
       (sd_goto w SD_Resumed (sd_touch w s)))"

datatype sd_event = SD_Combine nat | SD_Step nat

fun strand_step :: "sd_event \<Rightarrow> strand \<Rightarrow> strand option" where
  "strand_step (SD_Combine f) s =
     (if sd_pcs s f = SD_Out then Some ((sd_goto f SD_Load s)\<lparr>sd_done := (sd_done s)(f := False)\<rparr>) else None)"
| "strand_step (SD_Step f) s = strand_act f (sd_pcs s f) s"

section \<open>The heads as words\<close>

text \<open>Addresses of waiters: the canonical user-space half, and not null.\<close>

definition waiter_address :: "u64 \<Rightarrow> bool" where
  "waiter_address a = (a \<noteq> 0 \<and> \<not> bit a 63 \<and> a \<noteq> kWaiterMsk)"

fun head_word :: "(nat \<Rightarrow> u64) \<Rightarrow> shead \<Rightarrow> u64" where
  "head_word addr SH_Null = 0"
| "head_word addr SH_Dummy = GetDummyWaiter"
| "head_word addr (SH_Busy w) = AddBusyBit (addr w)"
| "head_word addr (SH_Idle w) = addr w"

lemma bit_kBusyBit: "bit kBusyBit n = (n = 63)"
proof -
  have *: "kBusyBit = push_bit 63 1"
    by (simp add: kBusyBit_def push_bit_eq_mult)
  show ?thesis
    unfolding * by (simp only: bit_push_bit_iff bit_1_iff) auto
qed

lemma bit_kWaiterMsk: "bit kWaiterMsk n = (n < 63)"
proof -
  have *: "kWaiterMsk = mask 63"
    by (simp add: kWaiterMsk_def mask_eq_exp_minus_1)
  show ?thesis
    unfolding * by (simp only: bit_mask_iff) auto
qed

lemma bit_kWaiterDummy: "bit kWaiterDummy n = (n < 64)"
proof -
  have *: "kWaiterDummy = mask 64"
    by (simp add: kWaiterDummy_def mask_eq_exp_minus_1)
  show ?thesis
    unfolding * by (simp only: bit_mask_iff) auto
qed

lemma IsBusy_iff_bit: "IsBusy a = bit a 63"
proof
  assume "IsBusy a"
  then show "bit a 63"
    unfolding IsBusy_def using bit_kBusyBit
    by (metis (no_types) bit_0_eq bit_and_iff bit_eq_iff bot_apply bot_bool_def)
next
  assume "bit a 63"
  then have "bit (a AND kBusyBit) 63"
    by (simp add: bit_and_iff bit_kBusyBit)
  then show "IsBusy a"
    unfolding IsBusy_def by auto
qed

lemma StripBusyBit_AddBusyBit:
  assumes "\<not> bit a 63"
  shows "StripBusyBit (AddBusyBit a) = a"
proof (rule bit_eqI)
  fix n
  assume "possible_bit TYPE(u64) n"
  then have "n < 63 \<or> n = 63" by auto
  then show "bit (StripBusyBit (AddBusyBit a)) n = bit a n"
    using assms by (auto simp: StripBusyBit_def AddBusyBit_def bit_and_iff bit_or_iff bit_kBusyBit bit_kWaiterMsk)
qed

lemma StripBusyBit_address:
  assumes "\<not> bit a 63"
  shows "StripBusyBit a = a"
proof (rule bit_eqI)
  fix n
  assume "possible_bit TYPE(u64) n"
  then have "n < 63 \<or> n = 63" by auto
  then show "bit (StripBusyBit a) n = bit a n"
    using assms by (auto simp: StripBusyBit_def bit_and_iff bit_kWaiterMsk)
qed

lemma AddBusyBit_not_dummy:
  assumes "waiter_address a"
  shows "AddBusyBit a \<noteq> GetDummyWaiter"
proof
  assume "AddBusyBit a = GetDummyWaiter"
  then have "StripBusyBit (AddBusyBit a) = kWaiterDummy AND kWaiterMsk"
    by (simp add: GetDummyWaiter_def StripBusyBit_def)
  also have "\<dots> = kWaiterMsk"
    by (simp add: kWaiterDummy_def kWaiterMsk_def)
  finally show False
    using assms StripBusyBit_AddBusyBit [of a] by (simp add: waiter_address_def)
qed

lemma AddBusyBit_busy: "IsBusy (AddBusyBit a)"
  by (simp add: IsBusy_iff_bit AddBusyBit_def bit_or_iff bit_kBusyBit)

lemma GetDummyWaiter_busy: "IsBusy GetDummyWaiter"
  by (simp add: IsBusy_iff_bit GetDummyWaiter_def bit_kWaiterDummy)

text \<open>
  The tests the code makes on the word decide between the four cases, two heads are the same word
  exactly when they are equal, and stripping the busy bit gives the waiter back.
\<close>

lemma head_word_tests:
  assumes a: "\<And>w. waiter_address (addr w)"
  shows "head_word addr h = 0 \<longleftrightarrow> h = SH_Null"
    and "head_word addr h = GetDummyWaiter \<longleftrightarrow> h = SH_Dummy"
    and "IsBusy (head_word addr h) \<longleftrightarrow> h = SH_Dummy \<or> (\<exists>w. h = SH_Busy w)"
proof -
  have low: "addr w \<noteq> 0" "\<not> bit (addr w) 63" for w
    using a [of w] by (simp_all add: waiter_address_def)
  have busy: "\<not> IsBusy (addr w)" "\<not> IsBusy 0" for w
    using low(2) [of w] by (simp_all add: IsBusy_iff_bit)
  show "head_word addr h = 0 \<longleftrightarrow> h = SH_Null"
    using busy AddBusyBit_busy GetDummyWaiter_busy low by (cases h; simp) metis+
  show "head_word addr h = GetDummyWaiter \<longleftrightarrow> h = SH_Dummy"
    using busy AddBusyBit_not_dummy [OF a] GetDummyWaiter_busy by (cases h; simp) metis+
  show "IsBusy (head_word addr h) \<longleftrightarrow> h = SH_Dummy \<or> (\<exists>w. h = SH_Busy w)"
    using busy AddBusyBit_busy GetDummyWaiter_busy by (cases h; simp)
qed

lemma head_word_inject:
  assumes a: "\<And>w. waiter_address (addr w)" and i: "inj addr"
  shows "head_word addr h = head_word addr h' \<longleftrightarrow> h = h'"
proof
  assume e: "head_word addr h = head_word addr h'"
  have low: "\<not> bit (addr w) 63" for w
    using a [of w] by (simp add: waiter_address_def)
  have strip: "StripBusyBit (AddBusyBit (addr v)) = addr v" for v
    using StripBusyBit_AddBusyBit [OF low] .
  note t = head_word_tests [where addr = addr and h = h, OF a] head_word_tests [where addr = addr and h = h', OF a]
  show "h = h'"
    using e t strip injD [OF i] by (cases h; cases h'; simp) metis+
qed simp

section \<open>The invariant\<close>

fun sd_chain :: "(nat \<Rightarrow> nat ptr) \<Rightarrow> nat ptr \<Rightarrow> nat list \<Rightarrow> bool" where
  "sd_chain nx p [] = (p = nullptr)"
| "sd_chain nx p (w # ws) = (p = Some w \<and> sd_chain nx (nx w) ws)"

lemma sd_chain_upd: "f \<notin> set ws \<Longrightarrow> sd_chain (nx(f := v)) p ws = sd_chain nx p ws"
  by (induction ws arbitrary: p) auto

lemma sd_chain_None: "sd_chain nx None ws = (ws = [])"
  by (cases ws) auto

lemma sd_chain_Some: "sd_chain nx (Some w) ws = (\<exists>vs. ws = w # vs \<and> sd_chain nx (nx w) vs)"
  by (cases ws) auto

text \<open>Who owns the strand, the part of its batch not begun, and the waiter being processed.\<close>

fun sd_owns :: "sd_pc \<Rightarrow> bool" where
  "sd_owns SD_FastRun = True"
| "sd_owns (SD_Owner b) = True"
| "sd_owns (SD_Process b) = True"
| "sd_owns (SD_Grab h) = True"
| "sd_owns (SD_Batch w) = True"
| "sd_owns (SD_RunTask w n) = True"
| "sd_owns (SD_RelLoad w) = True"
| "sd_owns (SD_Release w h) = True"
| "sd_owns (SD_Schedule w n) = (n \<noteq> nullptr)"
| "sd_owns _ = False"

fun sd_batch :: "sd_pc \<Rightarrow> nat ptr" where
  "sd_batch (SD_Owner b) = b"
| "sd_batch (SD_Process b) = b"
| "sd_batch (SD_Batch w) = Some w"
| "sd_batch (SD_RunTask w n) = n"
| "sd_batch (SD_Schedule w n) = n"
| "sd_batch _ = nullptr"

fun sd_held :: "sd_pc \<Rightarrow> nat ptr" where
  "sd_held (SD_RunTask w n) = Some w"
| "sd_held (SD_RelLoad w) = Some w"
| "sd_held (SD_Release w h) = Some w"
| "sd_held (SD_Schedule w n) = Some w"
| "sd_held _ = nullptr"

fun sd_before_task :: "sd_pc \<Rightarrow> bool" where
  "sd_before_task (SD_RunTask w n) = True"
| "sd_before_task _ = False"

text \<open>The critical section of the fiber's own call has not been run.\<close>

fun sd_todo :: "sd_pc \<Rightarrow> bool" where
  "sd_todo SD_Load = True"
| "sd_todo SD_FastCas = True"
| "sd_todo SD_FastRun = True"
| "sd_todo SD_AwLoad = True"
| "sd_todo (SD_AwLoop h) = True"
| "sd_todo (SD_Owner b) = True"
| "sd_todo _ = False"

text \<open>The fiber will see the idle head \<open>v\<close> and can take the strand over.\<close>

fun sd_token :: "nat \<Rightarrow> sd_pc \<Rightarrow> bool" where
  "sd_token v (SD_Schedule w None) = True"
| "sd_token v SD_Resumed = True"
| "sd_token v (SD_Tail h) = (h = SH_Idle v)"
| "sd_token v _ = False"

definition sd_head_ok :: "strand \<Rightarrow> nat option \<Rightarrow> nat list \<Rightarrow> bool" where
  "sd_head_ok s own ws =
     (case sd_head s of
        SH_Null \<Rightarrow> own = None \<and> ws = []
      | SH_Dummy \<Rightarrow> own \<noteq> None \<and> ws = []
      | SH_Busy v \<Rightarrow> own \<noteq> None \<and> sd_chain (sd_next s) (Some v) ws
      | SH_Idle v \<Rightarrow> own = None \<and> sd_chain (sd_next s) (Some v) ws \<and> (\<exists>f. sd_token v (sd_pcs s f)))"

text \<open>
  \<open>own\<close> is the owner, \<open>ws\<close> the stack under the head, \<open>bs\<close> the owner's batch and \<open>hl w\<close> the
  fiber that processes the waiter of \<open>w\<close>.
\<close>

definition strand_ok :: "strand \<Rightarrow> nat option \<Rightarrow> nat list \<Rightarrow> nat list \<Rightarrow> (nat \<Rightarrow> nat option) \<Rightarrow> bool" where
  "strand_ok s own ws bs hl \<longleftrightarrow>
     \<not> sd_bad s
     \<and> sd_head_ok s own ws
     \<and> (\<forall>f. sd_owns (sd_pcs s f) \<longleftrightarrow> own = Some f)
     \<and> (case own of None \<Rightarrow> bs = [] | Some f \<Rightarrow> sd_chain (sd_next s) (sd_batch (sd_pcs s f)) bs)
     \<and> (\<forall>f. sd_pcs s f = SD_Waiting \<longleftrightarrow> f \<in> set ws \<or> f \<in> set bs \<or> hl f \<noteq> None)
     \<and> (\<forall>g w. sd_held (sd_pcs s g) = Some w \<longleftrightarrow> hl w = Some g)
     \<and> (\<forall>f. f \<in> set ws \<or> f \<in> set bs \<longrightarrow> \<not> sd_done s f)
     \<and> (\<forall>f. f \<in> set ws \<or> f \<in> set bs \<longrightarrow> hl f = None)
     \<and> (\<forall>g w. hl w = Some g \<longrightarrow> sd_done s w = (\<not> sd_before_task (sd_pcs s g)))
     \<and> (\<forall>f. sd_pcs s f \<noteq> SD_Waiting \<longrightarrow> sd_done s f = (\<not> sd_todo (sd_pcs s f)))
     \<and> distinct (ws @ bs)"

definition strand_inv :: "strand \<Rightarrow> bool" where
  "strand_inv s \<longleftrightarrow> (\<exists>own ws bs hl. strand_ok s own ws bs hl)"

lemma strand_init_ok: "strand_ok strand_init None [] [] Map.empty"
  by (simp add: strand_ok_def sd_head_ok_def strand_init_def)

lemma strand_okD:
  assumes "strand_ok s own ws bs hl"
  shows "\<not> sd_bad s" "sd_head_ok s own ws"
    and "sd_owns (sd_pcs s f) \<longleftrightarrow> own = Some f"
    and "case own of None \<Rightarrow> bs = [] | Some f \<Rightarrow> sd_chain (sd_next s) (sd_batch (sd_pcs s f)) bs"
    and "sd_pcs s f = SD_Waiting \<longleftrightarrow> f \<in> set ws \<or> f \<in> set bs \<or> hl f \<noteq> None"
    and "sd_held (sd_pcs s g) = Some w \<longleftrightarrow> hl w = Some g"
    and "f \<in> set ws \<or> f \<in> set bs \<Longrightarrow> \<not> sd_done s f"
    and "f \<in> set ws \<or> f \<in> set bs \<Longrightarrow> hl f = None"
    and "hl w = Some g \<Longrightarrow> sd_done s w = (\<not> sd_before_task (sd_pcs s g))"
    and "sd_pcs s f \<noteq> SD_Waiting \<Longrightarrow> sd_done s f = (\<not> sd_todo (sd_pcs s f))"
    and "distinct (ws @ bs)"
  using assms unfolding strand_ok_def by (elim conjE; simp only: simp_thms; fast)+

lemma strand_okI:
  assumes "\<not> sd_bad s" "sd_head_ok s own ws"
    and "\<And>f. sd_owns (sd_pcs s f) \<longleftrightarrow> own = Some f"
    and "case own of None \<Rightarrow> bs = [] | Some f \<Rightarrow> sd_chain (sd_next s) (sd_batch (sd_pcs s f)) bs"
    and "\<And>f. sd_pcs s f = SD_Waiting \<longleftrightarrow> f \<in> set ws \<or> f \<in> set bs \<or> hl f \<noteq> None"
    and "\<And>g w. sd_held (sd_pcs s g) = Some w \<longleftrightarrow> hl w = Some g"
    and "\<And>f. f \<in> set ws \<or> f \<in> set bs \<Longrightarrow> \<not> sd_done s f"
    and "\<And>f. f \<in> set ws \<or> f \<in> set bs \<Longrightarrow> hl f = None"
    and "\<And>g w. hl w = Some g \<Longrightarrow> sd_done s w = (\<not> sd_before_task (sd_pcs s g))"
    and "\<And>f. sd_pcs s f \<noteq> SD_Waiting \<Longrightarrow> sd_done s f = (\<not> sd_todo (sd_pcs s f))"
    and "distinct (ws @ bs)"
  shows "strand_ok s own ws bs hl"
  unfolding strand_ok_def using assms by (intro conjI allI impI) assumption+

text \<open>A step that changes nothing but the local state of a fiber, and none of the views of it.\<close>

lemma strand_ok_goto:
  assumes ok: "strand_ok s own ws bs hl" and p: "sd_pcs s f = p"
    and views: "sd_owns q = sd_owns p" "sd_batch q = sd_batch p" "sd_held q = sd_held p" "sd_todo q = sd_todo p"
      "sd_before_task q = sd_before_task p" "p \<noteq> SD_Waiting" "q \<noteq> SD_Waiting"
    and token: "\<And>v. sd_head s = SH_Idle v \<Longrightarrow> sd_token v p \<Longrightarrow> sd_token v q"
  shows "strand_ok (sd_goto f q s) own ws bs hl"
proof -
  have t: "\<exists>g. sd_token v (sd_pcs (sd_goto f q s) g)" if "sd_head s = SH_Idle v" "\<exists>g. sd_token v (sd_pcs s g)" for v
    using that token p by fastforce
  have h: "sd_head_ok (sd_goto f q s) own ws"
    using ok t unfolding strand_ok_def sd_head_ok_def by (cases "sd_head s") auto
  have v: "sd_owns (sd_pcs (sd_goto f q s) g) = sd_owns (sd_pcs s g)"
    "sd_batch (sd_pcs (sd_goto f q s) g) = sd_batch (sd_pcs s g)"
    "sd_held (sd_pcs (sd_goto f q s) g) = sd_held (sd_pcs s g)"
    "sd_todo (sd_pcs (sd_goto f q s) g) = sd_todo (sd_pcs s g)"
    "sd_before_task (sd_pcs (sd_goto f q s) g) = sd_before_task (sd_pcs s g)"
    "(sd_pcs (sd_goto f q s) g = SD_Waiting) = (sd_pcs s g = SD_Waiting)" for g
    using views p by simp_all
  show ?thesis
    using ok h unfolding strand_ok_def v by (simp split: option.splits)
qed

lemma sd_token_other:
  assumes "\<exists>g. sd_token v (pcs g)" "\<not> sd_token v (pcs f)"
  shows "\<exists>g. sd_token v ((pcs(f := q)) g)"
proof -
  from assms(1) obtain g where "sd_token v (pcs g)" ..
  with assms(2) have "sd_token v ((pcs(f := q)) g)" by auto
  then show ?thesis ..
qed

lemma strand_ok_combine:
  assumes "strand_ok s own ws bs hl" "sd_pcs s f = SD_Out"
  shows "strand_ok ((sd_goto f SD_Load s)\<lparr>sd_done := (sd_done s)(f := False)\<rparr>) own ws bs hl"
proof -
  have t: "\<exists>g. sd_token v (((sd_pcs s)(f := SD_Load)) g)" if "\<exists>g. sd_token v (sd_pcs s g)" for v
    using that assms(2) by (intro sd_token_other) simp_all
  have h: "sd_head_ok ((sd_goto f SD_Load s)\<lparr>sd_done := (sd_done s)(f := False)\<rparr>) own ws"
    using assms t unfolding strand_ok_def sd_head_ok_def by (cases "sd_head s") auto
  note d = strand_okD [OF assms(1)]
  have f: "f \<notin> set ws" "f \<notin> set bs" "hl f = None" "own \<noteq> Some f"
    using d(3,5) [of f] assms(2) by auto
  have "\<And>w. hl w \<noteq> Some f"
    using d(6) [of f] assms(2) by auto
  then show ?thesis
    using d f by (intro strand_okI h) (auto split: option.splits)
qed

lemma strand_ok_running:
  assumes ok: "strand_ok s own ws bs hl" and p: "sd_pcs s f \<noteq> SD_Waiting"
  shows "f \<notin> set ws" "f \<notin> set bs" "hl f = None"
  using strand_okD(5) [OF ok, of f] p by auto

lemma strand_ok_acquire:
  assumes ok: "strand_ok s own ws bs hl" and p: "sd_pcs s f = p" "\<not> sd_owns p" "sd_held p = nullptr" "p \<noteq> SD_Waiting"
    and q: "sd_owns q" "sd_held q = nullptr" "sd_todo q = sd_todo p" "q \<noteq> SD_Waiting"
    and h: "sd_head s = SH_Null \<and> sd_batch q = nullptr \<or> (\<exists>v. sd_head s = SH_Idle v \<and> sd_batch q = Some v)"
  shows "strand_ok (sd_goto f q (s\<lparr>sd_head := SH_Dummy\<rparr>)) (Some f) [] ws hl"
proof -
  note d = strand_okD [OF ok]
  have own: "own = None" "bs = []" "sd_chain (sd_next s) (sd_batch q) ws"
    using d(2,4) h by (auto simp: sd_head_ok_def sd_chain_None)
  have f: "f \<notin> set ws" "hl f = None" "\<And>w. hl w \<noteq> Some f" "sd_done s f = (\<not> sd_todo p)"
    using d(5,10) [of f] d(6) [of f] p by auto
  have h: "sd_head_ok (sd_goto f q (s\<lparr>sd_head := SH_Dummy\<rparr>)) (Some f) []"
    by (simp add: sd_head_ok_def)
  show ?thesis
    using d own f p q by (intro strand_okI h) (auto split: if_splits)
qed

lemma strand_ok_push:
  assumes ok: "strand_ok s own ws bs hl" and p: "sd_pcs s f = SD_AwLoop h"
    and h: "sd_head s = SH_Dummy \<and> n = nullptr \<or> (\<exists>v. sd_head s = SH_Busy v \<and> n = Some v)"
  shows "strand_ok (sd_goto f SD_Waiting (s\<lparr>sd_next := (sd_next s)(f := n), sd_head := SH_Busy f\<rparr>)) own (f # ws) bs hl"
proof -
  note d = strand_okD [OF ok]
  have f: "f \<notin> set ws" "f \<notin> set bs" "hl f = None" "\<And>w. hl w \<noteq> Some f" "own \<noteq> Some f" "\<not> sd_done s f"
    using d(3,5,10) [of f] d(6) [of f] p by auto
  obtain g where g: "own = Some g" "sd_chain (sd_next s) n ws"
    using d(2) h by (auto simp: sd_head_ok_def sd_chain_None)
  have h: "sd_head_ok (sd_goto f SD_Waiting (s\<lparr>sd_next := (sd_next s)(f := n), sd_head := SH_Busy f\<rparr>)) own (f # ws)"
    using g f by (simp add: sd_head_ok_def sd_chain_upd)
  show ?thesis
    using d p f g by (intro strand_okI h) (auto simp: sd_chain_upd split: if_splits)
qed

lemma strand_ok_own_task:
  assumes ok: "strand_ok s own ws bs hl" and p: "sd_pcs s f = p" "sd_owns p" "sd_todo p"
    and b: "b = sd_batch p"
  shows "strand_ok (sd_goto f (SD_Process b) (sd_run f s)) own ws bs hl"
proof -
  note d = strand_okD [OF ok]
  have p': "sd_held p = nullptr" "p \<noteq> SD_Waiting"
    using p by (cases p; simp)+
  have f: "f \<notin> set ws" "f \<notin> set bs" "hl f = None" "\<And>w. hl w \<noteq> Some f" "own = Some f" "\<not> sd_done s f"
    using d(3,5,10) [of f] d(6) [of f] p p' by auto
  have h: "sd_head_ok (sd_goto f (SD_Process b) (sd_run f s)) own ws"
    using d(2) f unfolding sd_head_ok_def by (cases "sd_head s") (auto simp: sd_run_def)
  show ?thesis
    using d p p' b f by (intro strand_okI h) (auto simp: sd_run_def split: if_splits)
qed

lemma strand_ok_leave:
  assumes ok: "strand_ok s own ws bs hl" and p: "sd_pcs s f = p" "sd_owns p" "sd_batch p = nullptr" "\<not> sd_todo p"
      "\<not> sd_before_task p"
    and q: "\<not> sd_owns q" "sd_held q = sd_held p" "\<not> sd_todo q" "q \<noteq> SD_Waiting" "\<not> sd_before_task q"
    and h: "sd_head s = SH_Dummy \<and> new = SH_Null \<or> (\<exists>v. sd_head s = SH_Busy v \<and> new = SH_Idle v \<and> sd_token v q)"
  shows "strand_ok (sd_goto f q (s\<lparr>sd_head := new\<rparr>)) None ws bs hl"
proof -
  note d = strand_okD [OF ok]
  have p': "p \<noteq> SD_Waiting"
    using p by (cases p; simp)
  have f: "own = Some f" "bs = []" "f \<notin> set ws" "hl f = None" "\<And>w. hl w = Some f \<longleftrightarrow> sd_held p = Some w" "sd_done s f"
    using d(3,5,10) [of f] d(4) d(6) [of f] p p' by (auto simp: sd_chain_None)
  have h: "sd_head_ok (sd_goto f q (s\<lparr>sd_head := new\<rparr>)) None ws"
    using d(2) f h unfolding sd_head_ok_def by auto
  show ?thesis
    using d p q f by (intro strand_okI h) (auto split: if_splits)
qed

lemma strand_ok_grab:
  assumes ok: "strand_ok s own ws bs hl" and p: "sd_pcs s f = SD_Grab h" and h: "sd_head s = SH_Busy w"
  shows "strand_ok (sd_goto f (SD_Batch w) (s\<lparr>sd_head := SH_Dummy\<rparr>)) own [] ws hl"
proof -
  note d = strand_okD [OF ok]
  have f: "own = Some f" "bs = []" "sd_chain (sd_next s) (Some w) ws" "f \<notin> set ws" "hl f = None" "\<And>w. hl w \<noteq> Some f" "sd_done s f"
    using d(2,4) d(3,5,10) [of f] d(6) [of f] p h by (auto simp: sd_chain_None sd_head_ok_def)
  have h: "sd_head_ok (sd_goto f (SD_Batch w) (s\<lparr>sd_head := SH_Dummy\<rparr>)) own []"
    using f by (simp add: sd_head_ok_def)
  show ?thesis
    using d p f by (intro strand_okI h) (auto split: if_splits)
qed

lemma strand_ok_begin:
  assumes ok: "strand_ok s own ws bs hl" and p: "sd_pcs s f = SD_Batch w"
  shows "\<exists>bs'. strand_ok (sd_goto f (SD_RunTask w (sd_next s w)) (sd_touch w s)) own ws bs' (hl(w \<mapsto> f))"
proof -
  note d = strand_okD [OF ok]
  have f: "own = Some f" "f \<notin> set ws" "f \<notin> set bs" "hl f = None" "\<And>w. hl w \<noteq> Some f" "sd_done s f"
    using d(3,5,10) [of f] d(6) [of f] p by auto
  then obtain bs' where bs: "bs = w # bs'" "sd_chain (sd_next s) (sd_next s w) bs'"
    using d(4) p by (auto simp: sd_chain_Some)
  have w: "sd_pcs s w = SD_Waiting" "hl w = None" "\<not> sd_done s w" "f \<noteq> w" "w \<notin> set ws" "w \<notin> set bs'"
    using d(5,7,8) [of w] d(11) p bs by auto
  let ?s = "sd_goto f (SD_RunTask w (sd_next s w)) (sd_touch w s)"
  have h: "sd_head_ok ?s own ws"
    using d(2) f unfolding sd_head_ok_def by (cases "sd_head s") (auto simp: sd_touch_def)
  have "strand_ok ?s own ws bs' (hl(w \<mapsto> f))"
    using d p f bs w by (intro strand_okI h) (auto simp: sd_touch_def split: if_splits)
  then show ?thesis ..
qed

lemma strand_ok_task:
  assumes ok: "strand_ok s own ws bs hl" and p: "sd_pcs s f = SD_RunTask w n"
  shows "strand_ok (sd_goto f (if n = nullptr then SD_RelLoad w else SD_Schedule w n) (sd_run w (sd_touch w s))) own ws bs hl"
proof -
  note d = strand_okD [OF ok]
  have f: "own = Some f" "f \<notin> set ws" "f \<notin> set bs" "hl f = None" "\<And>v. w \<noteq> v \<Longrightarrow> hl v \<noteq> Some f" "sd_done s f"
    using d(3,5,10) [of f] d(6) [of f] p by auto
  have hw: "hl w = Some f"
    using d(6) [of f w] p by simp
  have w: "sd_pcs s w = SD_Waiting" "\<not> sd_done s w" "f \<noteq> w" "w \<notin> set ws" "w \<notin> set bs"
    using d(5,7,8) [of w] d(9) [of w f] p hw by auto
  let ?s = "sd_goto f (if n = nullptr then SD_RelLoad w else SD_Schedule w n) (sd_run w (sd_touch w s))"
  have h: "sd_head_ok ?s own ws"
    using d(2) f unfolding sd_head_ok_def by (cases "sd_head s") (auto simp: sd_touch_def sd_run_def)
  show ?thesis
    using d p f hw w by (intro strand_okI h) (auto simp: sd_touch_def sd_run_def split: if_splits)
qed

lemma strand_ok_schedule:
  assumes ok: "strand_ok s own ws bs hl" and p: "sd_pcs s f = SD_Schedule w n"
  shows "strand_ok (sd_goto f (case n of None \<Rightarrow> SD_Out | Some v \<Rightarrow> SD_Batch v)
       (sd_goto w SD_Resumed (sd_touch w s))) own ws bs (hl(w := None))"
proof -
  note d = strand_okD [OF ok]
  let ?q = "case n of None \<Rightarrow> SD_Out | Some v \<Rightarrow> SD_Batch v"
  have q: "sd_owns ?q = (n \<noteq> None)" "sd_batch ?q = n" "sd_held ?q = None" "\<not> sd_todo ?q" "?q \<noteq> SD_Waiting"
    by (auto split: option.splits)
  have f: "n \<noteq> None \<longleftrightarrow> own = Some f" "f \<notin> set ws" "f \<notin> set bs" "hl f = None" "\<And>v. w \<noteq> v \<Longrightarrow> hl v \<noteq> Some f" "sd_done s f"
    using d(3,5,10) [of f] d(6) [of f] p by auto
  have hw: "hl w = Some f"
    using d(6) [of f w] p by simp
  have w: "sd_pcs s w = SD_Waiting" "sd_done s w" "f \<noteq> w" "w \<notin> set ws" "w \<notin> set bs" "own \<noteq> Some w" "\<And>v. hl v \<noteq> Some w"
    using d(3,5,7,8) [of w] d(6) [of w] d(9) [of w f] p hw by auto
  let ?s = "sd_goto f ?q (sd_goto w SD_Resumed (sd_touch w s))"
  have h: "sd_head_ok ?s own ws"
    using d(2) w unfolding sd_head_ok_def
    by (cases "sd_head s") (auto simp: sd_touch_def intro!: exI [of _ w])
  show ?thesis
    using d p f hw w q by (intro strand_okI h) (auto simp: sd_touch_def split: if_splits option.splits)
qed

lemma strand_invI: "strand_ok s own ws bs hl \<Longrightarrow> strand_inv s"
  unfolding strand_inv_def by blast

lemmas strand_inv_goto = strand_invI [OF strand_ok_goto]

lemma strand_ok_fail:
  assumes "strand_ok s own ws bs hl" "sd_pcs s f = SD_AwLoop h"
  shows "strand_ok (s\<lparr>sd_next := (sd_next s)(f := n), sd_pcs := (sd_pcs s)(f := SD_AwLoop h')\<rparr>) own ws bs hl"
proof -
  have g: "strand_ok (sd_goto f (SD_AwLoop h') s) own ws bs hl" (is "strand_ok ?s _ _ _ _")
    using assms by (intro strand_ok_goto [OF assms]) auto
  note d = strand_okD [OF g]
  have f: "f \<notin> set ws" "f \<notin> set bs"
    using strand_ok_running [OF assms(1), of f] assms(2) by auto
  have h: "sd_head_ok (?s\<lparr>sd_next := (sd_next s)(f := n)\<rparr>) own ws"
    using d(2) f unfolding sd_head_ok_def by (cases "sd_head s") (simp_all add: sd_chain_upd)
  have "strand_ok (?s\<lparr>sd_next := (sd_next s)(f := n)\<rparr>) own ws bs hl"
    using d f by (intro strand_okI h) (auto simp: sd_chain_upd split: option.splits)
  then show ?thesis by (cases s) simp
qed

lemma strand_inv_await:
  assumes ok: "strand_ok s own ws bs hl" and p: "sd_pcs s f = SD_AwLoop h"
  shows "strand_inv (sd_await f h s)"
proof (cases "sd_head s = h")
  case False
  then show ?thesis
    using strand_invI [OF strand_ok_fail [OF ok p]] strand_inv_goto [OF ok p, of "SD_AwLoop (sd_head s)"]
    by (cases h) (auto simp: sd_cas_def)
next
  case True
  then show ?thesis
    using strand_invI [OF strand_ok_acquire [OF ok p, where q = "SD_Owner b" for b]] strand_invI [OF strand_ok_push [OF ok p]]
    by (cases h) (auto simp: sd_cas_def)
qed

lemma strand_owned_head:
  assumes "strand_ok s own ws bs hl" "sd_owns (sd_pcs s f)"
  shows "sd_head s \<noteq> SH_Null" "sd_head s \<noteq> SH_Idle v"
  using strand_okD(2) [OF assms(1)] strand_okD(3) [OF assms(1), of f] assms(2) by (auto simp: sd_head_ok_def)

lemma strand_inv_grab:
  assumes ok: "strand_ok s own ws bs hl" and p: "sd_pcs s f = SD_Grab h"
  shows "strand_inv (sd_grab f h s)"
proof (cases "sd_head s = h")
  case False
  then show ?thesis
    using strand_inv_goto [OF ok p, of "SD_Grab (sd_head s)"] by (cases h) (auto simp: sd_cas_def)
next
  case True
  then show ?thesis
    using strand_owned_head [OF ok, where f = f] p strand_invI [OF strand_ok_grab [OF ok p]]
      strand_invI [OF strand_ok_leave [OF ok p, of SD_Out SH_Null]]
    by (cases h) (auto simp: sd_cas_def)
qed

lemma strand_inv_release:
  assumes ok: "strand_ok s own ws bs hl" and p: "sd_pcs s f = SD_Release w h"
  shows "strand_inv (sd_release f w h s)"
proof (cases "sd_head s = h")
  case False
  then show ?thesis
    using strand_inv_goto [OF ok p, of "SD_Release w (sd_head s)"] by (cases h) (auto simp: sd_cas_def)
next
  case True
  then show ?thesis
    using strand_owned_head [OF ok, where f = f] p
      strand_invI [OF strand_ok_leave [OF ok p, of "SD_Schedule w nullptr"]]
    by (cases h) (auto simp: sd_cas_def)
qed

lemma strand_inv_act:
  assumes ok: "strand_ok s own ws bs hl" and s': "strand_act f (sd_pcs s f) s = Some s'"
  shows "strand_inv s'"
proof (cases "sd_pcs s f")
  case (SD_Tail h)
  then show ?thesis
    using s' strand_invI [OF strand_ok_acquire [OF ok SD_Tail, where q = "SD_Process b" for b]]
      strand_inv_goto [OF ok SD_Tail, of SD_Out]
    by (cases h) (auto simp: sd_cas_def split: if_splits)
next
  case SD_FastCas
  then show ?thesis
    using s' strand_invI [OF strand_ok_acquire [OF ok SD_FastCas, of SD_FastRun]]
      strand_inv_goto [OF ok SD_FastCas, of SD_AwLoad]
    by (auto simp: sd_cas_def split: if_splits)
next
  case (SD_Process b)
  then show ?thesis
    using s' strand_inv_goto [OF ok SD_Process, of "SD_Grab (sd_head s)"]
      strand_inv_goto [OF ok SD_Process, of "SD_Batch (the b)"]
    by (cases b) auto
next
  case SD_Load
  then show ?thesis
    using s' strand_inv_goto [OF ok SD_Load] by auto
next
  case SD_AwLoad
  then show ?thesis
    using s' strand_inv_goto [OF ok SD_AwLoad] by auto
next
  case SD_FastRun
  then show ?thesis
    using s' strand_invI [OF strand_ok_own_task [OF ok SD_FastRun]] by auto
next
  case (SD_Owner b)
  then show ?thesis
    using s' strand_invI [OF strand_ok_own_task [OF ok SD_Owner]] by auto
next
  case SD_Resumed
  then show ?thesis
    using s' strand_inv_goto [OF ok SD_Resumed] by auto
next
  case (SD_Batch w)
  then show ?thesis
    using s' strand_ok_begin [OF ok SD_Batch] strand_invI by auto
next
  case (SD_RelLoad w)
  then show ?thesis
    using s' strand_inv_goto [OF ok SD_RelLoad] by auto
qed (use s' ok strand_inv_await strand_inv_grab strand_inv_release strand_invI [OF strand_ok_task]
       strand_invI [OF strand_ok_schedule] in auto)

interpretation strand: transition_invariant strand_step strand_init strand_inv
proof
  show "strand_inv strand_init"
    by (rule strand_invI [OF strand_init_ok])
next
  fix s e s'
  assume inv: "strand_inv s" and step: "strand_step e s = Some s'"
  from inv obtain own ws bs hl where ok: "strand_ok s own ws bs hl"
    unfolding strand_inv_def by blast
  show "strand_inv s'"
  proof (cases e)
    case (SD_Combine f)
    then show ?thesis
      using step strand_invI [OF strand_ok_combine [OF ok, of f]] by (simp split: if_splits)
  next
    case (SD_Step f)
    then show ?thesis
      using step strand_inv_act [OF ok] by simp
  qed
qed

section \<open>Properties\<close>

text \<open>The fiber is executing a critical section.\<close>

fun sd_in_task :: "sd_pc \<Rightarrow> bool" where
  "sd_in_task SD_FastRun = True"
| "sd_in_task (SD_Owner b) = True"
| "sd_in_task (SD_RunTask w n) = True"
| "sd_in_task _ = False"

lemma sd_in_task_owns: "sd_in_task p \<Longrightarrow> sd_owns p"
  by (cases p) auto

lemma strand_quiescent:
  assumes ok: "strand_ok s own ws bs hl" and q: "\<And>f. sd_pcs s f = SD_Out \<or> sd_pcs s f = SD_Waiting"
  shows "sd_head s = SH_Null" "sd_pcs s f = SD_Out"
proof -
  note d = strand_okD [OF ok]
  have p: "\<not> sd_owns (sd_pcs s g)" "sd_held (sd_pcs s g) = None" "\<not> sd_token v (sd_pcs s g)" for g v
    using q [of g] by auto
  have own: "own = None"
    using d(3) p by (cases own) auto
  then have h: "sd_head s = SH_Null" "ws = []" "bs = []"
    using d(2,4) p by (auto simp: sd_head_ok_def split: shead.splits)
  have "hl f = None"
    using d(6) [of _ f] p by (cases "hl f") auto
  with h d(5) [of f] q [of f] show "sd_pcs s f = SD_Out"
    by auto
  show "sd_head s = SH_Null" by (rule h)
qed

text \<open>
  C9: the strand. Two fibers are never inside critical sections at the same time; no critical section
  is run twice and no waiter is touched after its fiber went on; when \<open>Combine\<close> returns, the critical
  section has been run. Every fiber that is not suspended can go on, and nobody is stranded: when
  no fiber can go on, no fiber is suspended and the strand is free.
\<close>

theorem strand_correct:
  assumes "reachable strand_step strand_init s"
  shows "\<not> sd_bad s \<and>
    (\<forall>f g. sd_in_task (sd_pcs s f) \<and> sd_in_task (sd_pcs s g) \<longrightarrow> f = g) \<and>
    (\<forall>f. sd_pcs s f = SD_Out \<longrightarrow> sd_done s f) \<and>
    (\<forall>f. strand_step (SD_Step f) s = None \<longleftrightarrow> sd_pcs s f = SD_Out \<or> sd_pcs s f = SD_Waiting) \<and>
    ((\<forall>f. strand_step (SD_Step f) s = None) \<longrightarrow> sd_head s = SH_Null \<and> (\<forall>f. sd_pcs s f = SD_Out))"
proof -
  from strand.reachable_inv [OF assms] obtain own ws bs hl where ok: "strand_ok s own ws bs hl"
    unfolding strand_inv_def by blast
  note d = strand_okD [OF ok]
  have step: "strand_step (SD_Step f) s = None \<longleftrightarrow> sd_pcs s f = SD_Out \<or> sd_pcs s f = SD_Waiting" for f
  proof (cases "sd_pcs s f")
    case (SD_Tail h)
    then show ?thesis by (cases h) auto
  next
    case (SD_Process b)
    then show ?thesis by (cases b) auto
  qed auto
  have "f = g" if "sd_in_task (sd_pcs s f)" "sd_in_task (sd_pcs s g)" for f g
    using that [THEN sd_in_task_owns] d(3) [of f] d(3) [of g] by auto
  moreover have "sd_done s f" if "sd_pcs s f = SD_Out" for f
    using d(10) [of f] that by auto
  ultimately show ?thesis
    using d(1) step strand_quiescent [OF ok] by blast
qed

theorem strand_correct_witness:
  "\<exists>s. reachable strand_step strand_init s \<and> sd_pcs s 0 = SD_RunTask 1 nullptr \<and> sd_pcs s 1 = SD_Waiting \<and>
     \<not> sd_bad s \<and> (\<forall>g. sd_in_task (sd_pcs s g) \<longrightarrow> 0 = g) \<and> (\<forall>f. sd_pcs s f = SD_Out \<longrightarrow> sd_done s f)"
proof -
  have "\<exists>s. exec strand_step strand_init
      [SD_Combine 0, SD_Step 0, SD_Step 0, SD_Combine 1, SD_Step 1, SD_Step 1, SD_Step 1,
       SD_Step 0, SD_Step 0, SD_Step 0, SD_Step 0] = Some s \<and>
      sd_pcs s 0 = SD_RunTask 1 nullptr \<and> sd_pcs s 1 = SD_Waiting"
    by (simp add: strand_init_def sd_cas_def sd_run_def sd_touch_def)
  from exec_reachable_ex [OF this] obtain s where s: "reachable strand_step strand_init s"
    "sd_pcs s 0 = SD_RunTask 1 nullptr" "sd_pcs s 1 = SD_Waiting" by blast
  have "sd_in_task (sd_pcs s 0)"
    using s(2) by simp
  with s strand_correct [OF s(1)] show ?thesis by blast
qed

text \<open>The fiber suspended above is resumed and both calls return.\<close>

lemma strand_example_returns:
  "\<exists>s. exec strand_step strand_init
      ([SD_Combine 0, SD_Step 0, SD_Step 0, SD_Combine 1, SD_Step 1, SD_Step 1, SD_Step 1] @
       replicate 8 (SD_Step 0) @ [SD_Step 1, SD_Step 1]) = Some s \<and>
     sd_pcs s 0 = SD_Out \<and> sd_pcs s 1 = SD_Out \<and> sd_head s = SH_Null"
  by (simp add: strand_init_def sd_cas_def sd_run_def sd_touch_def eval_nat_numeral)

end
