(* ===== verification/Coro.thy ===== *)
theory Coro
  imports Forward_List Places
begin

text \<open>
  \<open>coro/\<close>: stackless coroutines (\<open>Go\<close>, \<open>JumpTo\<close>, \<open>Yield\<close>) and what they wait for:
  \<open>Event\<close>, \<open>WaitGroup\<close>, the mutex with lock guards and the mutex that runs critical sections.

  A coroutine runs on the stack of the thread that called or resumed it, so a thread is a stack of
  frames: coroutine bodies and the library calls that resumed them. When a coroutine suspends or
  returns, its frame goes away and the frame below continues. A waiter whose coroutine has no
  scheduler is run inside \<open>Schedule\<close>, that is on the stack of the caller, with the caller's
  spin lock held. Critical sections of spin locks that do not contain such a call are one step; a
  lock held during one is a flag of the object. A step that needs a held lock is not enabled.
\<close>

section \<open>Objects\<close>

record cevent =
  ce_fired :: bool
  ce_waiters :: "nat list"

definition cevent_new :: cevent where
  "cevent_new = \<lparr>ce_fired = False, ce_waiters = []\<rparr>"

text \<open>The result says whether the coroutine stays suspended.\<close>

definition CoroEvent_await_suspend :: "nat \<Rightarrow> cevent \<Rightarrow> bool \<times> cevent" where
  "CoroEvent_await_suspend c e =
     (if ce_fired e then (False, e) else (True, e\<lparr>ce_waiters := list_PushBack c (ce_waiters e)\<rparr>))"

text \<open>The locked part of \<open>Fire\<close>; the result says whether there are waiters to schedule.\<close>

definition CoroEvent_Fire :: "cevent \<Rightarrow> bool \<times> cevent" where
  "CoroEvent_Fire e = (ce_waiters e \<noteq> [], e\<lparr>ce_fired := True\<rparr>)"

record cgroup =
  cg_lock :: bool
  cg_n :: u64
  cg_waiters :: "nat list"

definition cgroup_new :: cgroup where
  "cgroup_new = \<lparr>cg_lock = False, cg_n = 0, cg_waiters = []\<rparr>"

definition CoroWaitGroup_Add :: "u64 \<Rightarrow> cgroup \<Rightarrow> cgroup" where
  "CoroWaitGroup_Add k g = g\<lparr>cg_n := cg_n g + k\<rparr>"

text \<open>The beginning of \<open>Done\<close>; the lock stays held when there are waiters to schedule.\<close>

definition CoroWaitGroup_Done :: "cgroup \<Rightarrow> bool \<times> cgroup" where
  "CoroWaitGroup_Done g =
     (let g = g\<lparr>cg_n := cg_n g - 1\<rparr>
      in if cg_n g \<noteq> 0 \<or> cg_waiters g = [] then (False, g) else (True, g\<lparr>cg_lock := True\<rparr>))"

definition WaitSuspend :: "nat \<Rightarrow> cgroup \<Rightarrow> bool \<times> cgroup" where
  "WaitSuspend c g =
     (if cg_n g = 0 then (False, g) else (True, g\<lparr>cg_waiters := list_PushBack c (cg_waiters g)\<rparr>))"

record cmutex =
  cm_lock :: bool
  cm_locked :: bool
  cm_waiters :: "nat list"

definition cmutex_new :: cmutex where
  "cmutex_new = \<lparr>cm_lock = False, cm_locked = False, cm_waiters = []\<rparr>"

definition ScopedLockMutex_Lock :: "nat \<Rightarrow> cmutex \<Rightarrow> bool \<times> cmutex" where
  "ScopedLockMutex_Lock c m =
     (if \<not> cm_locked m then (True, m\<lparr>cm_locked := True\<rparr>)
      else (False, m\<lparr>cm_waiters := list_PushBack c (cm_waiters m)\<rparr>))"

definition ScopedLockMutex_Unlock :: "cmutex \<Rightarrow> nat option \<times> cmutex" where
  "ScopedLockMutex_Unlock m =
     (let m = m\<lparr>cm_locked := False\<rparr>
      in case cm_waiters m of
        [] \<Rightarrow> (None, m)
      | w # ws \<Rightarrow> (Some w, m\<lparr>cm_locked := True, cm_waiters := ws\<rparr>))"

text \<open>
  A waiter of the mutex that runs critical sections is an instance of the template \<open>Waiter<F>\<close>;
  the second component is the type \<open>F\<close> of its critical section.
\<close>

record crun =
  cr_lock :: bool
  cr_locked :: bool
  cr_waiters :: "(nat \<times> nat) list"

definition crun_new :: crun where
  "crun_new = \<lparr>cr_lock = False, cr_locked = False, cr_waiters = []\<rparr>"

definition RunMutex_Lock :: "nat \<times> nat \<Rightarrow> crun \<Rightarrow> bool \<times> crun" where
  "RunMutex_Lock w r =
     (if \<not> cr_locked r then (True, r\<lparr>cr_locked := True\<rparr>)
      else (False, r\<lparr>cr_waiters := list_PushBack w (cr_waiters r)\<rparr>))"

definition RunMutex_Unlock :: "crun \<Rightarrow> (nat \<times> nat) option \<times> crun" where
  "RunMutex_Unlock r =
     (let r = r\<lparr>cr_locked := False\<rparr>
      in case cr_waiters r of
        [] \<Rightarrow> (None, r)
      | w # ws \<Rightarrow> (Some w, r\<lparr>cr_locked := True, cr_waiters := ws\<rparr>))"

section \<open>The runtime\<close>

text \<open>
  Frames of a thread: a coroutine body; a critical section run for a coroutine, \<open>CF_Body\<close> in the
  user's function and \<open>CF_Cs\<close> when that has returned and the coroutine continues after
  \<open>Unlock\<close>; the loop of \<open>Fire\<close>; the loop of \<open>Done\<close> with the lock held, and its last step
  without; the two \<open>Unlock\<close> functions while they run a waiter with the lock held.
\<close>

datatype cframe =
    CF_Co nat
  | CF_Body nat nat nat
  | CF_Cs nat nat nat
  | CF_Fire nat
  | CF_Done nat
  | CF_DoneLast nat
  | CF_Unlock nat
  | CF_RunUnlock nat

text \<open>What is submitted to a scheduler: a waiter that resumes a coroutine, or one that runs its critical section first.\<close>

datatype ctask = CT_Resume nat | CT_Cs nat nat nat

fun task_co :: "ctask \<Rightarrow> nat" where
  "task_co (CT_Resume c) = c"
| "task_co (CT_Cs c r F) = c"

text \<open>\<open>Run\<close> of a task.\<close>

fun task_Run :: "ctask \<Rightarrow> cframe" where
  "task_Run (CT_Resume c) = CF_Co c"
| "task_Run (CT_Cs c r F) = CF_Body c r F"

text \<open>
  \<open>co_owned c\<close> are the mutexes coroutine \<open>c\<close> has a guard of. \<open>co_bad\<close> records a dereferenced null
  pointer and \<open>co_miscast\<close> a waiter cast to the wrong type.
\<close>

record crt =
  co_live :: "nat set"
  co_sched :: "nat \<Rightarrow> nat ptr"
  co_stacks :: "nat \<Rightarrow> cframe list"
  co_queue :: "ctask list"
  co_events :: "nat \<Rightarrow> cevent"
  co_groups :: "nat \<Rightarrow> cgroup"
  co_mutexes :: "nat \<Rightarrow> cmutex"
  co_runs :: "nat \<Rightarrow> crun"
  co_owned :: "nat \<Rightarrow> nat set"
  co_bad :: bool
  co_miscast :: bool

definition coro_init :: crt where
  "coro_init = \<lparr>co_live = {}, co_sched = (\<lambda>_. nullptr), co_stacks = (\<lambda>_. []), co_queue = [],
     co_events = (\<lambda>_. cevent_new), co_groups = (\<lambda>_. cgroup_new), co_mutexes = (\<lambda>_. cmutex_new),
     co_runs = (\<lambda>_. crun_new), co_owned = (\<lambda>_. {}), co_bad = False, co_miscast = False\<rparr>"

definition co_stack :: "nat \<Rightarrow> cframe list \<Rightarrow> crt \<Rightarrow> crt" where
  "co_stack t st s = s\<lparr>co_stacks := (co_stacks s)(t := st)\<rparr>"

definition co_submit :: "ctask \<Rightarrow> crt \<Rightarrow> crt" where
  "co_submit k s = s\<lparr>co_queue := co_queue s @ [k]\<rparr>"

text \<open>
  \<open>Schedule\<close> of a waiter by thread \<open>t\<close>, whose stack is \<open>st\<close> from the calling function on.
\<close>

definition co_Schedule :: "nat \<Rightarrow> cframe list \<Rightarrow> ctask \<Rightarrow> crt \<Rightarrow> crt" where
  "co_Schedule t st k s =
     (case co_sched s (task_co k) of
        None \<Rightarrow> co_stack t (task_Run k # st) s
      | Some _ \<Rightarrow> co_submit k (co_stack t st s))"

section \<open>Operations of a coroutine\<close>

text \<open>
  Coroutine \<open>c\<close> is on top of the stack of thread \<open>t\<close>, with \<open>st\<close> below.
\<close>

text \<open>\<open>co_await JumpTo(k)\<close>: the coroutine continues in the other scheduler.\<close>

definition JumpTo_await_suspend :: "nat \<Rightarrow> nat \<Rightarrow> cframe list \<Rightarrow> nat \<Rightarrow> crt \<Rightarrow> crt option" where
  "JumpTo_await_suspend t c st k s =
     Some (co_submit (CT_Resume c) (co_stack t st (s\<lparr>co_sched := (co_sched s)(c := Some k)\<rparr>)))"

text \<open>\<open>co_await Yield()\<close>: without a scheduler the coroutine just goes on.\<close>

definition Yield_await_suspend :: "nat \<Rightarrow> nat \<Rightarrow> cframe list \<Rightarrow> crt \<Rightarrow> crt option" where
  "Yield_await_suspend t c st s =
     Some (case co_sched s c of None \<Rightarrow> s | Some _ \<Rightarrow> co_submit (CT_Resume c) (co_stack t st s))"

text \<open>\<open>co_await event.Wait()\<close>.\<close>

definition Event_Wait_await :: "nat \<Rightarrow> nat \<Rightarrow> cframe list \<Rightarrow> nat \<Rightarrow> crt \<Rightarrow> crt option" where
  "Event_Wait_await t c st e s =
     (case CoroEvent_await_suspend c (co_events s e) of
        (False, _) \<Rightarrow> Some s
      | (True, e') \<Rightarrow> Some (co_stack t st (s\<lparr>co_events := (co_events s)(e := e')\<rparr>)))"

text \<open>\<open>co_await wg.Wait()\<close>.\<close>

definition WaitGroup_Wait_await :: "nat \<Rightarrow> nat \<Rightarrow> cframe list \<Rightarrow> nat \<Rightarrow> crt \<Rightarrow> crt option" where
  "WaitGroup_Wait_await t c st g s =
     (if cg_lock (co_groups s g) then None
      else case WaitSuspend c (co_groups s g) of
        (False, _) \<Rightarrow> Some s
      | (True, g') \<Rightarrow> Some (co_stack t st (s\<lparr>co_groups := (co_groups s)(g := g')\<rparr>)))"

text \<open>\<open>co_await mutex.ScopedLock()\<close>: with the mutex comes a guard.\<close>

definition ScopedLock_await :: "nat \<Rightarrow> nat \<Rightarrow> cframe list \<Rightarrow> nat \<Rightarrow> crt \<Rightarrow> crt option" where
  "ScopedLock_await t c st m s =
     (if cm_lock (co_mutexes s m) then None
      else case ScopedLockMutex_Lock c (co_mutexes s m) of
        (True, m') \<Rightarrow> Some (s\<lparr>co_mutexes := (co_mutexes s)(m := m'), co_owned := (co_owned s)(c := insert m (co_owned s c))\<rparr>)
      | (False, m') \<Rightarrow> Some (co_stack t st (s\<lparr>co_mutexes := (co_mutexes s)(m := m')\<rparr>)))"

text \<open>The destructor of a guard: \<open>Unlock\<close>.\<close>

definition LockGuard_drop :: "nat \<Rightarrow> nat \<Rightarrow> cframe list \<Rightarrow> nat \<Rightarrow> crt \<Rightarrow> crt option" where
  "LockGuard_drop t c st m s =
     (if m \<notin> co_owned s c \<or> cm_lock (co_mutexes s m) then None
      else let own = (co_owned s)(c := co_owned s c - {m})
      in case ScopedLockMutex_Unlock (co_mutexes s m) of
        (None, m') \<Rightarrow> Some (s\<lparr>co_mutexes := (co_mutexes s)(m := m'), co_owned := own\<rparr>)
      | (Some w, m') \<Rightarrow>
          (let m'' = (if co_sched s w = nullptr then m'\<lparr>cm_lock := True\<rparr> else m');
               st' = (if co_sched s w = nullptr then CF_Unlock m # CF_Co c # st else CF_Co c # st)
           in Some (co_Schedule t st' (CT_Resume w)
             (s\<lparr>co_mutexes := (co_mutexes s)(m := m''), co_owned := own(w := insert m (own w))\<rparr>))))"

text \<open>\<open>co_await mutex.Run(cs)\<close>.\<close>

definition RunMutex_await :: "nat \<Rightarrow> nat \<Rightarrow> cframe list \<Rightarrow> nat \<Rightarrow> nat \<Rightarrow> crt \<Rightarrow> crt option" where
  "RunMutex_await t c st r F s =
     (if cr_lock (co_runs s r) then None
      else case RunMutex_Lock (c, F) (co_runs s r) of
        (True, r') \<Rightarrow> Some (co_stack t (CF_Body c r F # st) (s\<lparr>co_runs := (co_runs s)(r := r')\<rparr>))
      | (False, r') \<Rightarrow> Some (co_stack t st (s\<lparr>co_runs := (co_runs s)(r := r')\<rparr>)))"

text \<open>The end of a coroutine.  Guards are its local variables, so it owns none when it returns.\<close>

definition Go_final_suspend :: "nat \<Rightarrow> nat \<Rightarrow> cframe list \<Rightarrow> crt \<Rightarrow> crt option" where
  "Go_final_suspend t c st s =
     (if co_owned s c \<noteq> {} then None else Some (co_stack t st (s\<lparr>co_live := co_live s - {c}\<rparr>)))"

datatype cawait =
    CW_JumpTo nat
  | CW_Yield
  | CW_CurrentScheduler
  | CW_Event nat
  | CW_Group nat
  | CW_ScopedLock nat
  | CW_Unlock nat
  | CW_Run nat nat
  | CW_Return

definition CurrentScheduler :: "nat \<Rightarrow> crt \<Rightarrow> nat ptr" where
  "CurrentScheduler c s = co_sched s c"

text \<open>Awaiting \<open>CurrentScheduler\<close> only reads that field.\<close>

fun coro_await :: "nat \<Rightarrow> nat \<Rightarrow> cframe list \<Rightarrow> cawait \<Rightarrow> crt \<Rightarrow> crt option" where
  "coro_await t c st (CW_JumpTo k) s = JumpTo_await_suspend t c st k s"
| "coro_await t c st CW_Yield s = Yield_await_suspend t c st s"
| "coro_await t c st CW_CurrentScheduler s = Some s"
| "coro_await t c st (CW_Event e) s = Event_Wait_await t c st e s"
| "coro_await t c st (CW_Group g) s = WaitGroup_Wait_await t c st g s"
| "coro_await t c st (CW_ScopedLock m) s = ScopedLock_await t c st m s"
| "coro_await t c st (CW_Unlock m) s = LockGuard_drop t c st m s"
| "coro_await t c st (CW_Run r F) s = RunMutex_await t c st r F s"
| "coro_await t c st CW_Return s = Go_final_suspend t c st s"

text \<open>
  Calls made by a coroutine, by a critical section or by a thread outside coroutines. The model
  covers programs that keep to the following rules, which the source does not check. An event is
  one-shot: \<open>Fire\<close> is called once. \<open>Done\<close> is called for something added, and the counter of a
  group does not overflow. Nothing is added to a group whose counter has reached zero before its waiters
  have been scheduled.
\<close>

definition Coro_Go :: "nat \<Rightarrow> nat \<Rightarrow> crt \<Rightarrow> crt option" where
  "Coro_Go t c s =
     (if c \<in> co_live s then None
      else Some (co_stack t (CF_Co c # co_stacks s t)
        (s\<lparr>co_live := insert c (co_live s), co_sched := (co_sched s)(c := nullptr)\<rparr>)))"

definition Coro_Fire :: "nat \<Rightarrow> nat \<Rightarrow> crt \<Rightarrow> crt option" where
  "Coro_Fire t e s =
     (if ce_fired (co_events s e) then None
      else case CoroEvent_Fire (co_events s e) of
        (False, e') \<Rightarrow> Some (s\<lparr>co_events := (co_events s)(e := e')\<rparr>)
      | (True, e') \<Rightarrow> Some (co_stack t (CF_Fire e # co_stacks s t) (s\<lparr>co_events := (co_events s)(e := e')\<rparr>)))"

definition Coro_Add :: "nat \<Rightarrow> nat \<Rightarrow> u64 \<Rightarrow> crt \<Rightarrow> crt option" where
  "Coro_Add t g k s =
     (if cg_lock (co_groups s g) \<or> cg_n (co_groups s g) = 0 \<and> cg_waiters (co_groups s g) \<noteq> []
         \<or> unat (cg_n (co_groups s g)) + unat k \<ge> 2 ^ 64 then None
      else Some (s\<lparr>co_groups := (co_groups s)(g := CoroWaitGroup_Add k (co_groups s g))\<rparr>))"

definition Coro_Done :: "nat \<Rightarrow> nat \<Rightarrow> crt \<Rightarrow> crt option" where
  "Coro_Done t g s =
     (if cg_lock (co_groups s g) \<or> cg_n (co_groups s g) = 0 then None
      else case CoroWaitGroup_Done (co_groups s g) of
        (False, g') \<Rightarrow> Some (s\<lparr>co_groups := (co_groups s)(g := g')\<rparr>)
      | (True, g') \<Rightarrow> Some (co_stack t (CF_Done g # co_stacks s t) (s\<lparr>co_groups := (co_groups s)(g := g')\<rparr>)))"

datatype ccall = CC_Go nat | CC_Fire nat | CC_Add nat u64 | CC_Done nat

fun coro_call :: "nat \<Rightarrow> ccall \<Rightarrow> crt \<Rightarrow> crt option" where
  "coro_call t (CC_Go c) s = Coro_Go t c s"
| "coro_call t (CC_Fire e) s = Coro_Fire t e s"
| "coro_call t (CC_Add g k) s = Coro_Add t g k s"
| "coro_call t (CC_Done g) s = Coro_Done t g s"

text \<open>The rest of \<open>Fire\<close>: one waiter is popped and scheduled; the last one is the end of \<open>Fire\<close>.\<close>

definition Event_Fire_loop :: "nat \<Rightarrow> nat \<Rightarrow> cframe list \<Rightarrow> crt \<Rightarrow> crt option" where
  "Event_Fire_loop t e st s =
     (case list_PopFront (ce_waiters (co_events s e)) of
        (None, _) \<Rightarrow> Some (s\<lparr>co_bad := True\<rparr>)
      | (Some w, ws) \<Rightarrow>
          Some (co_Schedule t (if ws = [] then st else CF_Fire e # st) (CT_Resume w)
            (s\<lparr>co_events := (co_events s)(e := (co_events s e)\<lparr>ce_waiters := ws\<rparr>)\<rparr>)))"

text \<open>The loop of \<open>Done\<close>, with the lock held, and its release.\<close>

definition WaitGroup_Done_loop :: "nat \<Rightarrow> nat \<Rightarrow> cframe list \<Rightarrow> crt \<Rightarrow> crt option" where
  "WaitGroup_Done_loop t g st s =
     (case cg_waiters (co_groups s g) of
        w # w' # ws \<Rightarrow>
          Some (co_Schedule t (CF_Done g # st) (CT_Resume w)
            (s\<lparr>co_groups := (co_groups s)(g := (co_groups s g)\<lparr>cg_waiters := w' # ws\<rparr>)\<rparr>))
      | _ \<Rightarrow>
          Some (co_stack t (CF_DoneLast g # st)
            (s\<lparr>co_groups := (co_groups s)(g := (co_groups s g)\<lparr>cg_lock := False\<rparr>)\<rparr>)))"

text \<open>The last waiter is popped and scheduled without the lock.\<close>

definition WaitGroup_Done_last :: "nat \<Rightarrow> nat \<Rightarrow> cframe list \<Rightarrow> crt \<Rightarrow> crt option" where
  "WaitGroup_Done_last t g st s =
     (case list_PopFront (cg_waiters (co_groups s g)) of
        (None, _) \<Rightarrow> Some (s\<lparr>co_bad := True\<rparr>)
      | (Some w, ws) \<Rightarrow>
          Some (co_Schedule t st (CT_Resume w)
            (s\<lparr>co_groups := (co_groups s)(g := (co_groups s g)\<lparr>cg_waiters := ws\<rparr>)\<rparr>)))"

text \<open>
  The critical section is over: \<open>Unlock<F>()\<close>, after which the coroutine continues. The next waiter is
  cast to \<open>Waiter<F>\<close>; if it is an instance for another type, the behaviour is undefined from
  there on.
\<close>

definition RunMutex_Waiter_Run :: "nat \<Rightarrow> nat \<Rightarrow> nat \<Rightarrow> nat \<Rightarrow> cframe list \<Rightarrow> crt \<Rightarrow> crt option" where
  "RunMutex_Waiter_Run t c r F st s =
     (if cr_lock (co_runs s r) then None
      else case RunMutex_Unlock (co_runs s r) of
        (None, r') \<Rightarrow> Some (co_stack t (CF_Co c # st) (s\<lparr>co_runs := (co_runs s)(r := r')\<rparr>))
      | (Some (w, G), r') \<Rightarrow>
          if G \<noteq> F then Some (s\<lparr>co_miscast := True\<rparr>)
          else
          (let r'' = (if co_sched s w = nullptr then r'\<lparr>cr_lock := True\<rparr> else r');
               st' = (if co_sched s w = nullptr then CF_RunUnlock r # CF_Co c # st else CF_Co c # st)
           in Some (co_Schedule t st' (CT_Cs w r G) (s\<lparr>co_runs := (co_runs s)(r := r'')\<rparr>))))"

text \<open>
  The library frames: \<open>coro_frame t f st\<close> continues frame \<open>f\<close> of thread \<open>t\<close>, with \<open>st\<close> below it.
\<close>

fun coro_frame :: "nat \<Rightarrow> cframe \<Rightarrow> cframe list \<Rightarrow> crt \<Rightarrow> crt option" where
  "coro_frame t (CF_Co c) st s = None"
| "coro_frame t (CF_Body c r F) st s = Some (co_stack t (CF_Cs c r F # st) s)"
| "coro_frame t (CF_Fire e) st s = Event_Fire_loop t e st s"
| "coro_frame t (CF_Done g) st s = WaitGroup_Done_loop t g st s"
| "coro_frame t (CF_DoneLast g) st s = WaitGroup_Done_last t g st s"
| "coro_frame t (CF_Unlock m) st s =
     Some (co_stack t st (s\<lparr>co_mutexes := (co_mutexes s)(m := (co_mutexes s m)\<lparr>cm_lock := False\<rparr>)\<rparr>))"
| "coro_frame t (CF_RunUnlock r) st s =
     Some (co_stack t st (s\<lparr>co_runs := (co_runs s)(r := (co_runs s r)\<lparr>cr_lock := False\<rparr>)\<rparr>))"
| "coro_frame t (CF_Cs c r F) st s = RunMutex_Waiter_Run t c r F st s"

text \<open>
  Events: a coroutine does something, something is called, a library frame goes on (a critical section
  returns), and an idle thread of a scheduler runs a submitted task. Schedulers may reorder
  tasks. There is no step after a wrong cast.
\<close>

datatype cstep = CS_Await nat cawait | CS_Call nat ccall | CS_Frame nat | CS_Run nat nat

fun coro_move :: "cstep \<Rightarrow> crt \<Rightarrow> crt option" where
  "coro_move (CS_Await t a) s =
     (case co_stacks s t of CF_Co c # st \<Rightarrow> coro_await t c st a s | _ \<Rightarrow> None)"
| "coro_move (CS_Call t a) s =
     (case co_stacks s t of
        [] \<Rightarrow> coro_call t a s
      | CF_Co c # st \<Rightarrow> coro_call t a s
      | CF_Body c r F # st \<Rightarrow> coro_call t a s
      | _ \<Rightarrow> None)"
| "coro_move (CS_Frame t) s =
     (case co_stacks s t of [] \<Rightarrow> None | f # st \<Rightarrow> coro_frame t f st s)"
| "coro_move (CS_Run t i) s =
     (if co_stacks s t = [] \<and> i < length (co_queue s)
      then Some (co_stack t [task_Run (co_queue s ! i)]
        (s\<lparr>co_queue := take i (co_queue s) @ drop (Suc i) (co_queue s)\<rparr>))
      else None)"

definition coro_step :: "cstep \<Rightarrow> crt \<Rightarrow> crt option" where
  "coro_step e s = (if co_miscast s then None else coro_move e s)"

end
