(* ===== verification/Coro_Safety.thy ===== *)
theory Coro_Safety
  imports Coro
begin

text \<open>
  The coroutine runtime keeps its coroutines, locks and waiters in order: four views of the state
  as lists with no common elements, and the invariant over them.
\<close>

declare JumpTo_await_suspend_def [simp] Yield_await_suspend_def [simp] Event_Wait_await_def [simp]
  WaitGroup_Wait_await_def [simp] ScopedLock_await_def [simp] LockGuard_drop_def [simp] RunMutex_await_def [simp]
  Go_final_suspend_def [simp] Event_Fire_loop_def [simp] WaitGroup_Done_loop_def [simp] WaitGroup_Done_last_def [simp]
  RunMutex_Waiter_Run_def [simp] Coro_Go_def [simp] Coro_Fire_def [simp] Coro_Add_def [simp] Coro_Done_def [simp]

section \<open>Views\<close>

datatype cloc = CL_Stack nat | CL_Queue | CL_Event nat | CL_Group nat | CL_Mutex nat | CL_Run nat

fun frame_cos :: "cframe \<Rightarrow> nat list" where
  "frame_cos (CF_Co c) = [c]"
| "frame_cos (CF_Body c r F) = [c]"
| "frame_cos (CF_Cs c r F) = [c]"
| "frame_cos _ = []"

fun co_at :: "crt \<Rightarrow> cloc \<Rightarrow> nat list" where
  "co_at s (CL_Stack t) = concat (map frame_cos (co_stacks s t))"
| "co_at s CL_Queue = map task_co (co_queue s)"
| "co_at s (CL_Event e) = ce_waiters (co_events s e)"
| "co_at s (CL_Group g) = cg_waiters (co_groups s g)"
| "co_at s (CL_Mutex m) = cm_waiters (co_mutexes s m)"
| "co_at s (CL_Run r) = map fst (cr_waiters (co_runs s r))"

text \<open>Spin locks held by the frames of a thread.\<close>

datatype clock = LK_Group nat | LK_Mutex nat | LK_Run nat

fun frame_locks :: "cframe \<Rightarrow> clock list" where
  "frame_locks (CF_Done g) = [LK_Group g]"
| "frame_locks (CF_Unlock m) = [LK_Mutex m]"
| "frame_locks (CF_RunUnlock r) = [LK_Run r]"
| "frame_locks _ = []"

definition lk_at :: "crt \<Rightarrow> nat \<Rightarrow> clock list" where
  "lk_at s = (\<lambda>t. concat (map frame_locks (co_stacks s t)))"

fun spin_locked :: "crt \<Rightarrow> clock \<Rightarrow> bool" where
  "spin_locked s (LK_Group g) = cg_lock (co_groups s g)"
| "spin_locked s (LK_Mutex m) = cm_lock (co_mutexes s m)"
| "spin_locked s (LK_Run r) = cr_lock (co_runs s r)"

text \<open>Events and wait groups whose waiters a thread is scheduling.\<close>

datatype cwake = WK_Event nat | WK_Group nat

fun frame_wakes :: "cframe \<Rightarrow> cwake list" where
  "frame_wakes (CF_Fire e) = [WK_Event e]"
| "frame_wakes (CF_Done g) = [WK_Group g]"
| "frame_wakes (CF_DoneLast g) = [WK_Group g]"
| "frame_wakes _ = []"

definition wk_at :: "crt \<Rightarrow> nat \<Rightarrow> cwake list" where
  "wk_at s = (\<lambda>t. concat (map frame_wakes (co_stacks s t)))"

fun waking :: "crt \<Rightarrow> cwake \<Rightarrow> bool" where
  "waking s (WK_Event e) = (ce_fired (co_events s e) \<and> ce_waiters (co_events s e) \<noteq> [])"
| "waking s (WK_Group g) = (cg_n (co_groups s g) = 0 \<and> cg_waiters (co_groups s g) \<noteq> [])"

text \<open>Critical sections begun or submitted.\<close>

fun frame_css :: "cframe \<Rightarrow> nat list" where
  "frame_css (CF_Body c r F) = [r]"
| "frame_css (CF_Cs c r F) = [r]"
| "frame_css _ = []"

fun task_css :: "ctask \<Rightarrow> nat list" where
  "task_css (CT_Cs c r F) = [r]"
| "task_css (CT_Resume c) = []"

definition cs_at :: "crt \<Rightarrow> nat option \<Rightarrow> nat list" where
  "cs_at s = (\<lambda>l. case l of None \<Rightarrow> concat (map task_css (co_queue s)) | Some t \<Rightarrow> concat (map frame_css (co_stacks s t)))"

lemma co_at_upd [simp]:
  "co_at (co_stack t st s) = (co_at s)(CL_Stack t := concat (map frame_cos st))"
  "co_at (co_submit k s) = (co_at s)(CL_Queue := co_at s CL_Queue @ [task_co k])"
  "co_at (s\<lparr>co_queue := q\<rparr>) = (co_at s)(CL_Queue := map task_co q)"
  "co_at (s\<lparr>co_events := (co_events s)(e := e')\<rparr>) = (co_at s)(CL_Event e := ce_waiters e')"
  "co_at (s\<lparr>co_groups := (co_groups s)(g := g')\<rparr>) = (co_at s)(CL_Group g := cg_waiters g')"
  "co_at (s\<lparr>co_mutexes := (co_mutexes s)(m := m')\<rparr>) = (co_at s)(CL_Mutex m := cm_waiters m')"
  "co_at (s\<lparr>co_runs := (co_runs s)(r := r')\<rparr>) = (co_at s)(CL_Run r := map fst (cr_waiters r'))"
  "co_at (s\<lparr>co_live := lv\<rparr>) = co_at s" "co_at (s\<lparr>co_sched := sc\<rparr>) = co_at s" "co_at (s\<lparr>co_owned := ow\<rparr>) = co_at s"
  "co_at (s\<lparr>co_bad := b\<rparr>) = co_at s" "co_at (s\<lparr>co_miscast := b\<rparr>) = co_at s"
  by (rule ext, case_tac x; simp add: co_stack_def co_submit_def)+

lemma lk_at_upd [simp]:
  "lk_at (co_stack t st s) = (lk_at s)(t := concat (map frame_locks st))"
  "lk_at (co_submit k s) = lk_at s" "lk_at (s\<lparr>co_queue := q\<rparr>) = lk_at s"
  "lk_at (s\<lparr>co_events := es\<rparr>) = lk_at s" "lk_at (s\<lparr>co_groups := gs\<rparr>) = lk_at s"
  "lk_at (s\<lparr>co_mutexes := ms\<rparr>) = lk_at s" "lk_at (s\<lparr>co_runs := rs\<rparr>) = lk_at s"
  "lk_at (s\<lparr>co_live := lv\<rparr>) = lk_at s" "lk_at (s\<lparr>co_sched := sc\<rparr>) = lk_at s" "lk_at (s\<lparr>co_owned := ow\<rparr>) = lk_at s"
  "lk_at (s\<lparr>co_bad := b\<rparr>) = lk_at s" "lk_at (s\<lparr>co_miscast := b\<rparr>) = lk_at s"
  by (auto simp: lk_at_def co_stack_def co_submit_def)

lemma wk_at_upd [simp]:
  "wk_at (co_stack t st s) = (wk_at s)(t := concat (map frame_wakes st))"
  "wk_at (co_submit k s) = wk_at s" "wk_at (s\<lparr>co_queue := q\<rparr>) = wk_at s"
  "wk_at (s\<lparr>co_events := es\<rparr>) = wk_at s" "wk_at (s\<lparr>co_groups := gs\<rparr>) = wk_at s"
  "wk_at (s\<lparr>co_mutexes := ms\<rparr>) = wk_at s" "wk_at (s\<lparr>co_runs := rs\<rparr>) = wk_at s"
  "wk_at (s\<lparr>co_live := lv\<rparr>) = wk_at s" "wk_at (s\<lparr>co_sched := sc\<rparr>) = wk_at s" "wk_at (s\<lparr>co_owned := ow\<rparr>) = wk_at s"
  "wk_at (s\<lparr>co_bad := b\<rparr>) = wk_at s" "wk_at (s\<lparr>co_miscast := b\<rparr>) = wk_at s"
  by (auto simp: wk_at_def co_stack_def co_submit_def)

lemma cs_at_upd [simp]:
  "cs_at (co_stack t st s) = (cs_at s)(Some t := concat (map frame_css st))"
  "cs_at (co_submit k s) = (cs_at s)(None := cs_at s None @ task_css k)"
  "cs_at (s\<lparr>co_queue := q\<rparr>) = (cs_at s)(None := concat (map task_css q))"
  "cs_at (s\<lparr>co_events := es\<rparr>) = cs_at s" "cs_at (s\<lparr>co_groups := gs\<rparr>) = cs_at s"
  "cs_at (s\<lparr>co_mutexes := ms\<rparr>) = cs_at s" "cs_at (s\<lparr>co_runs := rs\<rparr>) = cs_at s"
  "cs_at (s\<lparr>co_live := lv\<rparr>) = cs_at s" "cs_at (s\<lparr>co_sched := sc\<rparr>) = cs_at s" "cs_at (s\<lparr>co_owned := ow\<rparr>) = cs_at s"
  "cs_at (s\<lparr>co_bad := b\<rparr>) = cs_at s" "cs_at (s\<lparr>co_miscast := b\<rparr>) = cs_at s"
  by (auto simp: cs_at_def co_stack_def co_submit_def split: option.splits)

lemma co_stack_fields [simp]:
  "co_live (co_stack t st s) = co_live s" "co_sched (co_stack t st s) = co_sched s"
  "co_stacks (co_stack t st s) = (co_stacks s)(t := st)" "co_queue (co_stack t st s) = co_queue s"
  "co_events (co_stack t st s) = co_events s" "co_groups (co_stack t st s) = co_groups s"
  "co_mutexes (co_stack t st s) = co_mutexes s" "co_runs (co_stack t st s) = co_runs s"
  "co_owned (co_stack t st s) = co_owned s" "co_bad (co_stack t st s) = co_bad s" "co_miscast (co_stack t st s) = co_miscast s"
  by (simp_all add: co_stack_def)

lemma co_submit_fields [simp]:
  "co_live (co_submit k s) = co_live s" "co_sched (co_submit k s) = co_sched s"
  "co_stacks (co_submit k s) = co_stacks s" "co_queue (co_submit k s) = co_queue s @ [k]"
  "co_events (co_submit k s) = co_events s" "co_groups (co_submit k s) = co_groups s"
  "co_mutexes (co_submit k s) = co_mutexes s" "co_runs (co_submit k s) = co_runs s"
  "co_owned (co_submit k s) = co_owned s" "co_bad (co_submit k s) = co_bad s" "co_miscast (co_submit k s) = co_miscast s"
  by (simp_all add: co_submit_def)

lemma co_Schedule_fields [simp]:
  "co_live (co_Schedule t st k s) = co_live s" "co_sched (co_Schedule t st k s) = co_sched s"
  "co_events (co_Schedule t st k s) = co_events s" "co_groups (co_Schedule t st k s) = co_groups s"
  "co_mutexes (co_Schedule t st k s) = co_mutexes s" "co_runs (co_Schedule t st k s) = co_runs s"
  "co_owned (co_Schedule t st k s) = co_owned s" "co_bad (co_Schedule t st k s) = co_bad s"
  "co_miscast (co_Schedule t st k s) = co_miscast s"
  by (simp_all add: co_Schedule_def split: option.splits)

lemma task_Run_views [simp]:
  "frame_cos (task_Run k) = [task_co k]" "frame_locks (task_Run k) = []" "frame_wakes (task_Run k) = []"
  "frame_css (task_Run k) = task_css k"
  by (cases k; simp)+

section \<open>Handing a mutex over\<close>

text \<open>The two \<open>Unlock\<close> functions with a waiter: the waiter is scheduled, with the lock held if it runs here.\<close>

lemma Unlock_handoff:
  assumes "coro_await t c st (CW_Unlock m) s = Some s'" "cm_waiters (co_mutexes s m) = w # ws"
  obtains m' st' own where
    "s' = co_Schedule t st' (CT_Resume w) (s\<lparr>co_mutexes := (co_mutexes s)(m := m'), co_owned := own\<rparr>)"
    "m' = \<lparr>cm_lock = (co_sched s w = nullptr), cm_locked = True, cm_waiters = ws\<rparr>"
    "st' = (if co_sched s w = nullptr then CF_Unlock m # CF_Co c # st else CF_Co c # st)"
    "own = (let own = (co_owned s)(c := co_owned s c - {m}) in own(w := insert m (own w)))"
    "m \<in> co_owned s c" "\<not> cm_lock (co_mutexes s m)"
  using assms by (cases "co_mutexes s m") (simp add: ScopedLockMutex_Unlock_def Let_def split: if_splits)

lemma Cs_handoff:
  assumes "coro_frame t (CF_Cs c r F) st s = Some s'" "cr_waiters (co_runs s r) = (w, G) # ws" "\<not> co_miscast s'"
  obtains r' st' where
    "s' = co_Schedule t st' (CT_Cs w r G) (s\<lparr>co_runs := (co_runs s)(r := r')\<rparr>)"
    "r' = \<lparr>cr_lock = (co_sched s w = nullptr), cr_locked = True, cr_waiters = ws\<rparr>"
    "st' = (if co_sched s w = nullptr then CF_RunUnlock r # CF_Co c # st else CF_Co c # st)"
    "\<not> cr_lock (co_runs s r)"
  using assms by (cases "co_runs s r") (auto simp: RunMutex_Unlock_def Let_def split: if_splits)

text \<open>A coroutine that runs after \<open>JumpTo\<close> is in that scheduler until it jumps again.\<close>

lemma JumpTo_CurrentScheduler:
  assumes "coro_await t c st (CW_JumpTo k) s = Some s'"
  shows "CurrentScheduler c s' = Some k" "d \<noteq> c \<Longrightarrow> CurrentScheduler d s' = CurrentScheduler d s"
  using assms by (auto simp: CurrentScheduler_def)

lemma await_keeps_scheduler:
  assumes "coro_await t c st a s = Some s'" "\<And>k. a \<noteq> CW_JumpTo k"
  shows "CurrentScheduler d s' = CurrentScheduler d s"
  using assms by (cases a) (auto simp: CurrentScheduler_def CoroEvent_await_suspend_def WaitSuspend_def ScopedLockMutex_Lock_def
    ScopedLockMutex_Unlock_def RunMutex_Lock_def Let_def split: if_splits option.splits list.splits)

section \<open>Every coroutine is in one place\<close>

definition coro_cos :: "crt \<Rightarrow> bool" where
  "coro_cos s \<longleftrightarrow> places (co_at s) \<and> placed (co_at s) = co_live s"

text \<open>A waiter taken from the front of the list \<open>l\<close> is scheduled.\<close>

lemma schedule_cos:
  assumes A: "places A" "A l = w # ws" and s: "co_at s = A(l := ws)" and l: "l \<noteq> CL_Queue" "l \<noteq> CL_Stack t"
    and k: "task_co k = w" and st: "concat (map frame_cos st) = A (CL_Stack t)"
  shows "places (co_at (co_Schedule t st k s))" "placed (co_at (co_Schedule t st k s)) = placed A"
proof -
  have q: "map task_co (co_queue s) = A CL_Queue"
    using fun_cong [OF s, of CL_Queue] l by simp
  have "co_at (co_Schedule t st k s) =
      (case co_sched s w of
         None \<Rightarrow> A(l := ws, CL_Stack t := w # A (CL_Stack t))
       | Some _ \<Rightarrow> A(l := ws, CL_Queue := A CL_Queue @ [w]))"
    using s l k st q by (auto simp: co_Schedule_def fun_eq_iff split: option.splits)
  then show "places (co_at (co_Schedule t st k s))" "placed (co_at (co_Schedule t st k s)) = placed A"
    using places_push [OF A, of CL_Queue] places_push [OF A, of "CL_Stack t"] l by (auto split: option.splits)
qed

lemma coro_await_cos:
  assumes inv: "coro_cos s" and stk: "co_stacks s t = CF_Co c # st" and step: "coro_await t c st a s = Some s'"
  shows "coro_cos s'"
proof -
  have A: "places (co_at s)" and live: "placed (co_at s) = co_live s"
    using inv by (simp_all add: coro_cos_def)
  have top: "co_at s (CL_Stack t) = c # concat (map frame_cos st)"
    using stk by simp
  note push = places_push [OF A top]
  show ?thesis
  proof (cases a)
    case (CW_JumpTo k)
    then show ?thesis
      using step push(3,4) [of CL_Queue] live by (auto simp: coro_cos_def)
  next
    case CW_Yield
    then show ?thesis
      using step push(3,4) [of CL_Queue] inv live by (auto simp: coro_cos_def split: option.splits)
  next
    case CW_CurrentScheduler
    then show ?thesis using step inv by simp
  next
    case (CW_Event e)
    then show ?thesis
      using step push(3,4) [of "CL_Event e"] inv live
      by (auto simp: coro_cos_def CoroEvent_await_suspend_def list_PushBack_def fun_upd_twist split: if_splits)
  next
    case (CW_Group g)
    then show ?thesis
      using step push(3,4) [of "CL_Group g"] inv live
      by (auto simp: coro_cos_def WaitSuspend_def list_PushBack_def fun_upd_twist split: if_splits)
  next
    case (CW_ScopedLock m)
    then show ?thesis
      using step push(3,4) [of "CL_Mutex m"] inv live
      by (auto simp: coro_cos_def ScopedLockMutex_Lock_def list_PushBack_def fun_upd_twist fun_upd_idem split: if_splits)
  next
    case (CW_Run r F)
    then show ?thesis
      using step push(3,4) [of "CL_Run r"] inv live stk
      by (auto simp: coro_cos_def RunMutex_Lock_def list_PushBack_def fun_upd_twist fun_upd_idem split: if_splits)
  next
    case CW_Return
    then show ?thesis
      using step places_tl [OF A top] live by (auto simp: coro_cos_def split: if_splits)
  next
    case (CW_Unlock m)
    show ?thesis
    proof (cases "cm_waiters (co_mutexes s m)")
      case Nil
      with CW_Unlock step inv show ?thesis
        by (auto simp: coro_cos_def ScopedLockMutex_Unlock_def Let_def fun_upd_idem split: if_splits)
    next
      case (Cons w ws)
      then have m: "co_at s (CL_Mutex m) = w # ws" by simp
      obtain m' st' own where s':
        "s' = co_Schedule t st' (CT_Resume w) (s\<lparr>co_mutexes := (co_mutexes s)(m := m'), co_owned := own\<rparr>)"
        "m' = \<lparr>cm_lock = (co_sched s w = nullptr), cm_locked = True, cm_waiters = ws\<rparr>"
        "st' = (if co_sched s w = nullptr then CF_Unlock m # CF_Co c # st else CF_Co c # st)"
        by (rule Unlock_handoff [OF step [unfolded CW_Unlock] Cons])
      then show ?thesis
        using schedule_cos [OF A m, of _ t "CT_Resume w" st'] live top unfolding coro_cos_def s'(1) by simp
    qed
  qed
qed

lemma coro_call_cos:
  assumes inv: "coro_cos s" and step: "coro_call t a s = Some s'"
  shows "coro_cos s'"
proof -
  have A: "places (co_at s)" and live: "placed (co_at s) = co_live s"
    using inv by (simp_all add: coro_cos_def)
  show ?thesis
  proof (cases a)
    case (CC_Go c)
    then show ?thesis
      using step places_cons [OF A, of c "CL_Stack t"] live by (auto simp: coro_cos_def split: if_splits)
  qed (use step inv in \<open>auto simp: coro_cos_def CoroEvent_Fire_def CoroWaitGroup_Add_def CoroWaitGroup_Done_def Let_def
         fun_upd_idem split: if_splits bool.splits\<close>)
qed

lemma coro_frame_cos:
  assumes inv: "coro_cos s" and stk: "co_stacks s t = f # st" and step: "coro_frame t f st s = Some s'"
    and ok: "\<not> co_miscast s'"
  shows "coro_cos s'"
proof -
  have A: "places (co_at s)" and live: "placed (co_at s) = co_live s"
    using inv by (simp_all add: coro_cos_def)
  have top: "co_at s (CL_Stack t) = frame_cos f @ concat (map frame_cos st)"
    using stk by simp
  show ?thesis
  proof (cases f)
    case (CF_Cs c r F)
    show ?thesis
    proof (cases "cr_waiters (co_runs s r)")
      case Nil
      with CF_Cs step inv stk show ?thesis
        by (auto simp: coro_cos_def RunMutex_Unlock_def Let_def fun_upd_idem split: if_splits)
    next
      case (Cons v ws)
      obtain w G where v: "v = (w, G)" by (cases v)
      then have r: "co_at s (CL_Run r) = w # map fst ws" using Cons by simp
      obtain r' st' where s':
        "s' = co_Schedule t st' (CT_Cs w r G) (s\<lparr>co_runs := (co_runs s)(r := r')\<rparr>)"
        and r': "r' = \<lparr>cr_lock = (co_sched s w = nullptr), cr_locked = True, cr_waiters = ws\<rparr>"
        and st': "st' = (if co_sched s w = nullptr then CF_RunUnlock r # CF_Co c # st else CF_Co c # st)"
        by (rule Cs_handoff [OF step [unfolded CF_Cs] Cons [unfolded v] ok])
      show ?thesis
        using schedule_cos [OF A r, of _ t "CT_Cs w r G" st'] live top CF_Cs unfolding coro_cos_def s'
        by (simp add: r' st')
    qed
  next
    case (CF_Fire e)
    then show ?thesis
    proof (cases "ce_waiters (co_events s e)")
      case (Cons w ws)
      then have "co_at s (CL_Event e) = w # ws" by simp
      note sched = schedule_cos [OF A this, of _ t "CT_Resume w"]
      show ?thesis
        using step CF_Fire Cons sched top live by (auto simp: coro_cos_def)
    qed (use step inv in \<open>auto simp: coro_cos_def\<close>)
  next
    case (CF_DoneLast g)
    then show ?thesis
    proof (cases "cg_waiters (co_groups s g)")
      case (Cons w ws)
      then have "co_at s (CL_Group g) = w # ws" by simp
      note sched = schedule_cos [OF A this, of _ t "CT_Resume w"]
      show ?thesis
        using step CF_DoneLast Cons sched top live by (auto simp: coro_cos_def)
    qed (use step inv in \<open>auto simp: coro_cos_def\<close>)
  next
    case (CF_Done g)
    then show ?thesis
    proof (cases "\<exists>w w' ws. cg_waiters (co_groups s g) = w # w' # ws")
      case True
      then obtain w w' ws where g: "cg_waiters (co_groups s g) = w # w' # ws" by blast
      then have "co_at s (CL_Group g) = w # w' # ws" by simp
      note sched = schedule_cos [OF A this, of _ t "CT_Resume w"]
      show ?thesis
        using step CF_Done g sched top live by (auto simp: coro_cos_def)
    next
      case False
      with step CF_Done inv stk show ?thesis
        by (auto simp: coro_cos_def fun_upd_idem split: list.splits)
    qed
  qed (use step inv stk in \<open>auto simp: coro_cos_def fun_upd_idem\<close>)
qed

lemma coro_run_cos:
  assumes inv: "coro_cos s" and step: "coro_move (CS_Run t i) s = Some s'"
  shows "coro_cos s'"
proof -
  have A: "places (co_at s)" and live: "placed (co_at s) = co_live s"
    using inv by (simp_all add: coro_cos_def)
  from step have i: "i < length (co_queue s)" and st: "co_stacks s t = []"
    and s': "s' = co_stack t [task_Run (co_queue s ! i)] (s\<lparr>co_queue := take i (co_queue s) @ drop (Suc i) (co_queue s)\<rparr>)"
    by (simp_all split: if_splits)
  have "co_at s CL_Queue = map task_co (take i (co_queue s)) @ task_co (co_queue s ! i) # map task_co (drop (Suc i) (co_queue s))"
    using id_take_nth_drop [OF i] by (metis co_at.simps(2) list.simps(9) map_append)
  from places_move [OF A this, of "CL_Stack t" "[]" "[]"] live st show ?thesis
    unfolding s' coro_cos_def by simp
qed

lemma lk_at_apply: "lk_at s t = concat (map frame_locks (co_stacks s t))"
  by (simp add: lk_at_def)

lemma wk_at_apply: "wk_at s t = concat (map frame_wakes (co_stacks s t))"
  by (simp add: wk_at_def)

lemma cs_at_apply:
  "cs_at s None = concat (map task_css (co_queue s))" "cs_at s (Some t) = concat (map frame_css (co_stacks s t))"
  by (simp_all add: cs_at_def)

section \<open>Every spin lock is held by the thread that will release it\<close>

lemma schedule_locks_wakes [simp]:
  "lk_at (co_Schedule t st k s) = (lk_at s)(t := concat (map frame_locks st))"
  "wk_at (co_Schedule t st k s) = (wk_at s)(t := concat (map frame_wakes st))"
  by (simp_all add: co_Schedule_def split: option.splits)

lemma spin_locked_upd [simp]:
  "spin_locked (co_stack t st s) = spin_locked s" "spin_locked (co_submit k s) = spin_locked s"
  "spin_locked (co_Schedule t st k s) = spin_locked s"
  "spin_locked (s\<lparr>co_groups := (co_groups s)(g := g')\<rparr>) = (spin_locked s)(LK_Group g := cg_lock g')"
  "spin_locked (s\<lparr>co_mutexes := (co_mutexes s)(m := m')\<rparr>) = (spin_locked s)(LK_Mutex m := cm_lock m')"
  "spin_locked (s\<lparr>co_runs := (co_runs s)(r := r')\<rparr>) = (spin_locked s)(LK_Run r := cr_lock r')"
  "spin_locked (s\<lparr>co_queue := q\<rparr>) = spin_locked s" "spin_locked (s\<lparr>co_events := es\<rparr>) = spin_locked s"
  "spin_locked (s\<lparr>co_live := lv\<rparr>) = spin_locked s" "spin_locked (s\<lparr>co_sched := sc\<rparr>) = spin_locked s"
  "spin_locked (s\<lparr>co_owned := ow\<rparr>) = spin_locked s" "spin_locked (s\<lparr>co_bad := b\<rparr>) = spin_locked s"
  "spin_locked (s\<lparr>co_miscast := b\<rparr>) = spin_locked s"
  by (rule ext, case_tac x; simp)+

definition coro_locks :: "crt \<Rightarrow> bool" where
  "coro_locks s \<longleftrightarrow> tracks (lk_at s) (spin_locked s)"

lemma coro_locks_same:
  assumes "coro_locks s" "lk_at s' = lk_at s" "spin_locked s' = spin_locked s"
  shows "coro_locks s'"
  using assms by (simp add: coro_locks_def)

lemma coro_locks_take:
  assumes "coro_locks s" "\<not> spin_locked s l" "lk_at s' = (lk_at s)(t := l # lk_at s t)" "spin_locked s' = (spin_locked s)(l := True)"
  shows "coro_locks s'"
  using assms tracks_take [of "lk_at s" "spin_locked s" l t] by (simp add: coro_locks_def)

lemma coro_locks_drop:
  assumes "coro_locks s" "lk_at s t = l # ls" "lk_at s' = (lk_at s)(t := ls)" "spin_locked s' = (spin_locked s)(l := False)"
  shows "coro_locks s'"
  using assms tracks_drop [of "lk_at s" "spin_locked s" t l ls] by (simp add: coro_locks_def)

lemma coro_await_locks:
  assumes inv: "coro_locks s" and stk: "co_stacks s t = CF_Co c # st" and step: "coro_await t c st a s = Some s'"
  shows "coro_locks s'"
proof (cases "\<exists>m w ws. a = CW_Unlock m \<and> cm_waiters (co_mutexes s m) = w # ws \<and> co_sched s w = nullptr")
  case True
  then obtain m w ws where m: "a = CW_Unlock m" "cm_waiters (co_mutexes s m) = w # ws" "co_sched s w = nullptr" by blast
  obtain m' st' own where s':
    "s' = co_Schedule t st' (CT_Resume w) (s\<lparr>co_mutexes := (co_mutexes s)(m := m'), co_owned := own\<rparr>)"
    "m' = \<lparr>cm_lock = (co_sched s w = nullptr), cm_locked = True, cm_waiters = ws\<rparr>"
    "st' = (if co_sched s w = nullptr then CF_Unlock m # CF_Co c # st else CF_Co c # st)"
    and free: "\<not> cm_lock (co_mutexes s m)"
    by (rule Unlock_handoff [OF step [unfolded m(1)] m(2)])
  show ?thesis
  proof (rule coro_locks_take [OF inv, of "LK_Mutex m" _ t])
    show "\<not> spin_locked s (LK_Mutex m)" using free by simp
    show "lk_at s' = (lk_at s)(t := LK_Mutex m # lk_at s t)"
      using m(3) stk by (simp add: s' lk_at_apply)
    show "spin_locked s' = (spin_locked s)(LK_Mutex m := True)"
      using m(3) by (simp add: s')
  qed
next
  case False
  have t: "(lk_at s)(t := concat (map frame_locks st)) = lk_at s"
    using stk by (simp add: lk_at_apply fun_eq_iff)
  show ?thesis
  proof (rule coro_locks_same [OF inv])
    show "lk_at s' = lk_at s"
      using step False t by (cases a) (auto simp: CoroEvent_await_suspend_def WaitSuspend_def ScopedLockMutex_Lock_def
        ScopedLockMutex_Unlock_def RunMutex_Lock_def Let_def split: if_splits option.splits list.splits)
    show "spin_locked s' = spin_locked s"
      using step False by (cases a) (auto simp: fun_upd_idem CoroEvent_await_suspend_def WaitSuspend_def ScopedLockMutex_Lock_def
        ScopedLockMutex_Unlock_def RunMutex_Lock_def Let_def split: if_splits option.splits list.splits)
  qed
qed

lemma coro_call_locks:
  assumes inv: "coro_locks s" and step: "coro_call t a s = Some s'"
  shows "coro_locks s'"
proof (cases "\<exists>g. a = CC_Done g \<and> fst (CoroWaitGroup_Done (co_groups s g))")
  case True
  then obtain g where g: "a = CC_Done g" "fst (CoroWaitGroup_Done (co_groups s g))" by blast
  show ?thesis
  proof (rule coro_locks_take [OF inv, of "LK_Group g" _ t])
    show "\<not> spin_locked s (LK_Group g)"
      using step g by (simp split: if_splits)
    show "lk_at s' = (lk_at s)(t := LK_Group g # lk_at s t)"
      using step g by (auto simp: CoroWaitGroup_Done_def lk_at_apply Let_def fun_eq_iff split: if_splits)
    show "spin_locked s' = (spin_locked s)(LK_Group g := True)"
      using step g by (auto simp: CoroWaitGroup_Done_def Let_def split: if_splits)
  qed
next
  case False
  show ?thesis
  proof (rule coro_locks_same [OF inv])
    show "lk_at s' = lk_at s"
      using step False by (cases a) (auto simp: CoroEvent_Fire_def CoroWaitGroup_Add_def CoroWaitGroup_Done_def Let_def
        lk_at_apply fun_eq_iff split: if_splits bool.splits)
    show "spin_locked s' = spin_locked s"
      using step False by (cases a) (auto simp: fun_upd_idem CoroEvent_Fire_def CoroWaitGroup_Add_def CoroWaitGroup_Done_def
        Let_def split: if_splits bool.splits)
  qed
qed

lemma coro_frame_locks:
  assumes inv: "coro_locks s" and stk: "co_stacks s t = f # st" and step: "coro_frame t f st s = Some s'"
    and ok: "\<not> co_miscast s'"
  shows "coro_locks s'"
proof -
  have top: "lk_at s t = frame_locks f @ concat (map frame_locks st)"
    using stk by (simp add: lk_at_apply)
  then have t: "(lk_at s)(t := frame_locks f @ concat (map frame_locks st)) = lk_at s"
    by (simp add: fun_upd_idem)
  show ?thesis
  proof (cases f)
    case (CF_Co c)
    then show ?thesis using step by simp
  next
    case (CF_Body c r F)
    then show ?thesis using step t by (intro coro_locks_same [OF inv]; auto)
  next
    case (CF_Fire e)
    then show ?thesis
      using step t by (intro coro_locks_same [OF inv]; cases "ce_waiters (co_events s e)"; auto)
  next
    case (CF_DoneLast g)
    then show ?thesis
      using step t by (intro coro_locks_same [OF inv]; cases "cg_waiters (co_groups s g)"; auto simp: fun_upd_idem)
  next
    case (CF_Unlock m)
    then show ?thesis
      using step top by (intro coro_locks_drop [OF inv, of t "LK_Mutex m"]; auto)
  next
    case (CF_RunUnlock r)
    then show ?thesis
      using step top by (intro coro_locks_drop [OF inv, of t "LK_Run r"]; auto)
  next
    case (CF_Done g)
    show ?thesis
    proof (cases "\<exists>w w' ws. cg_waiters (co_groups s g) = w # w' # ws")
      case True
      with CF_Done show ?thesis
        using step t by (intro coro_locks_same [OF inv]; auto simp: fun_upd_idem)
    next
      case False
      then have "s' = co_stack t (CF_DoneLast g # st) (s\<lparr>co_groups := (co_groups s)(g := (co_groups s g)\<lparr>cg_lock := False\<rparr>)\<rparr>)"
        using step CF_Done by (auto split: list.splits)
      with CF_Done show ?thesis
        using top by (intro coro_locks_drop [OF inv, of t "LK_Group g"]; auto)
    qed
  next
    case (CF_Cs c r F)
    show ?thesis
    proof (cases "cr_waiters (co_runs s r)")
      case Nil
      with CF_Cs show ?thesis
        using step t by (intro coro_locks_same [OF inv]; auto simp: fun_upd_idem RunMutex_Unlock_def Let_def split: if_splits)
    next
      case (Cons v ws)
      obtain w G where v: "v = (w, G)" by (cases v)
      obtain r' st' where s':
        "s' = co_Schedule t st' (CT_Cs w r G) (s\<lparr>co_runs := (co_runs s)(r := r')\<rparr>)"
        "r' = \<lparr>cr_lock = (co_sched s w = nullptr), cr_locked = True, cr_waiters = ws\<rparr>"
        "st' = (if co_sched s w = nullptr then CF_RunUnlock r # CF_Co c # st else CF_Co c # st)"
        "\<not> cr_lock (co_runs s r)"
        by (rule Cs_handoff [OF step [unfolded CF_Cs] Cons [unfolded v] ok])
      show ?thesis
      proof (cases "co_sched s w = nullptr")
        case True
        then show ?thesis
          using s' top CF_Cs by (intro coro_locks_take [OF inv, of "LK_Run r" _ t]; simp)
      next
        case False
        then show ?thesis
          using s' t CF_Cs by (intro coro_locks_same [OF inv]; auto simp: fun_upd_idem)
      qed
    qed
  qed
qed

section \<open>Waiters of fired events and finished groups are being scheduled\<close>

lemma waking_upd [simp]:
  "waking (co_stack t st s) = waking s" "waking (co_submit k s) = waking s" "waking (co_Schedule t st k s) = waking s"
  "waking (s\<lparr>co_events := (co_events s)(e := e')\<rparr>) = (waking s)(WK_Event e := (ce_fired e' \<and> ce_waiters e' \<noteq> []))"
  "waking (s\<lparr>co_groups := (co_groups s)(g := g')\<rparr>) = (waking s)(WK_Group g := (cg_n g' = 0 \<and> cg_waiters g' \<noteq> []))"
  "waking (s\<lparr>co_mutexes := ms\<rparr>) = waking s" "waking (s\<lparr>co_runs := rs\<rparr>) = waking s"
  "waking (s\<lparr>co_queue := q\<rparr>) = waking s" "waking (s\<lparr>co_live := lv\<rparr>) = waking s" "waking (s\<lparr>co_sched := sc\<rparr>) = waking s"
  "waking (s\<lparr>co_owned := ow\<rparr>) = waking s" "waking (s\<lparr>co_bad := b\<rparr>) = waking s" "waking (s\<lparr>co_miscast := b\<rparr>) = waking s"
  by (rule ext, case_tac x; simp)+

text \<open>In the last step of \<open>Done\<close> exactly one waiter is left.\<close>

definition coro_last :: "crt \<Rightarrow> bool" where
  "coro_last s \<longleftrightarrow> (\<forall>t g. CF_DoneLast g \<in> set (co_stacks s t) \<longrightarrow> length (cg_waiters (co_groups s g)) = 1)"

definition coro_wakes :: "crt \<Rightarrow> bool" where
  "coro_wakes s \<longleftrightarrow> tracks (wk_at s) (waking s) \<and> coro_last s \<and> \<not> co_bad s"

lemma coro_last_waking:
  assumes "coro_wakes s" "CF_DoneLast g \<in> set (co_stacks s t)"
  shows "cg_n (co_groups s g) = 0" "cg_waiters (co_groups s g) \<noteq> []"
proof -
  have "WK_Group g \<in> set (wk_at s t)"
    using assms(2) by (force simp: wk_at_apply)
  then have "waking s (WK_Group g)"
    using assms(1) tracks_in by (fastforce simp: coro_wakes_def)
  then show "cg_n (co_groups s g) = 0" "cg_waiters (co_groups s g) \<noteq> []" by simp_all
qed

lemma stack_frames:
  "set (co_stacks (co_Schedule t st k s) u) \<subseteq> (if u = t then insert (task_Run k) (set st) else set (co_stacks s u))"
  "task_Run k \<noteq> CF_DoneLast g"
  by (auto simp: co_Schedule_def split: option.splits) (cases k; simp)

lemma coro_last_schedule:
  assumes "\<And>u g. CF_DoneLast g \<in> set (if u = t then st else co_stacks s u) \<Longrightarrow> length (cg_waiters (co_groups s g)) = 1"
  shows "coro_last (co_Schedule t st k s)"
  unfolding coro_last_def
proof (intro allI impI)
  fix u g
  assume "CF_DoneLast g \<in> set (co_stacks (co_Schedule t st k s) u)"
  then have "CF_DoneLast g \<in> set (if u = t then st else co_stacks s u)"
    using stack_frames(1) [of t st k s u] stack_frames(2) [of k g] by (auto split: if_splits)
  then show "length (cg_waiters (co_groups (co_Schedule t st k s) g)) = 1"
    using assms by simp
qed

lemmas coro_await_defs = CoroEvent_await_suspend_def WaitSuspend_def ScopedLockMutex_Lock_def ScopedLockMutex_Unlock_def
  RunMutex_Lock_def list_PushBack_def Let_def

lemma coro_await_wakes:
  assumes inv: "coro_wakes s" and stk: "co_stacks s t = CF_Co c # st" and step: "coro_await t c st a s = Some s'"
  shows "coro_wakes s'"
proof -
  have t: "(wk_at s)(t := concat (map frame_wakes st)) = wk_at s"
    using stk by (simp add: wk_at_apply fun_eq_iff)
  have wk: "wk_at s' = wk_at s"
    using step t by (cases a) (auto simp: coro_await_defs split: if_splits option.splits list.splits)
  moreover have "waking s' = waking s"
    using step by (cases a) (auto simp: coro_await_defs fun_upd_idem split: if_splits option.splits list.splits)
  moreover have "\<not> co_bad s'"
    using step inv by (cases a) (auto simp: coro_await_defs coro_wakes_def split: if_splits option.splits list.splits)
  moreover have "coro_last s'"
    unfolding coro_last_def
  proof (intro allI impI)
    fix u g
    assume "CF_DoneLast g \<in> set (co_stacks s' u)"
    then have g: "CF_DoneLast g \<in> set (co_stacks s u)"
      using step stk by (cases a) (auto simp: coro_await_defs co_Schedule_def split: if_splits option.splits list.splits)
    have "co_groups s' g = co_groups s g"
      using step coro_last_waking [OF inv g] by (cases a) (auto simp: coro_await_defs split: if_splits option.splits list.splits)
    then show "length (cg_waiters (co_groups s' g)) = 1"
      using inv g by (auto simp: coro_wakes_def coro_last_def)
  qed
  ultimately show ?thesis
    using inv by (simp add: coro_wakes_def)
qed

lemma no_wrap_zero:
  fixes a b :: u64
  assumes "unat a + unat b < 2 ^ 64" "a + b = 0"
  shows "a = 0"
proof -
  have "unat (a + b) = unat a + unat b"
    using assms(1) by (intro unat_add_lem [THEN iffD1]) simp
  with assms(2) show ?thesis
    by (simp add: unat_eq_zero)
qed

lemma coro_call_wakes:
  assumes inv: "coro_wakes s" and step: "coro_call t a s = Some s'"
  shows "coro_wakes s'"
proof -
  have tr: "tracks (wk_at s) (waking s)" and last: "coro_last s" and bad: "\<not> co_bad s"
    using inv by (simp_all add: coro_wakes_def)
  have t: "(wk_at s)(t := concat (map frame_wakes (co_stacks s t))) = wk_at s"
    by (simp add: wk_at_apply fun_eq_iff)
  have "tracks (wk_at s') (waking s')"
  proof (cases a)
    case (CC_Go c)
    then show ?thesis using step tr t by (auto split: if_splits)
  next
    case (CC_Fire e)
    then show ?thesis
      using step tr t tracks_take [OF tr, of "WK_Event e" t]
      by (cases "ce_waiters (co_events s e)") (auto simp: CoroEvent_Fire_def fun_upd_idem wk_at_apply split: if_splits)
  next
    case (CC_Add g k)
    have "(cg_n (co_groups s g) + k = 0 \<and> cg_waiters (co_groups s g) \<noteq> []) = waking s (WK_Group g)"
      using step CC_Add no_wrap_zero [of "cg_n (co_groups s g)" k] by (auto split: if_splits)
    then have "waking s' = waking s"
      using step CC_Add by (auto simp: CoroWaitGroup_Add_def fun_upd_idem simp del: waking.simps split: if_splits)
    then show ?thesis using step tr CC_Add by (auto split: if_splits)
  next
    case (CC_Done g)
    then show ?thesis
      using step tr t tracks_take [OF tr, of "WK_Group g" t]
      by (auto simp: CoroWaitGroup_Done_def Let_def fun_upd_idem wk_at_apply split: if_splits)
  qed
  moreover have "\<not> co_bad s'"
    using step bad by (cases a) (auto simp: CoroEvent_Fire_def CoroWaitGroup_Done_def Let_def split: if_splits bool.splits)
  moreover have "coro_last s'"
    unfolding coro_last_def
  proof (intro allI impI)
    fix u g
    assume "CF_DoneLast g \<in> set (co_stacks s' u)"
    then have g: "CF_DoneLast g \<in> set (co_stacks s u)"
      using step by (cases a) (auto simp: CoroEvent_Fire_def CoroWaitGroup_Done_def Let_def split: if_splits bool.splits)
    have "cg_waiters (co_groups s' g) = cg_waiters (co_groups s g)"
      using step by (cases a) (auto simp: CoroEvent_Fire_def CoroWaitGroup_Add_def CoroWaitGroup_Done_def Let_def
        split: if_splits bool.splits)
    then show "length (cg_waiters (co_groups s' g)) = 1"
      using last g by (auto simp: coro_last_def)
  qed
  ultimately show ?thesis
    by (simp add: coro_wakes_def)
qed

lemma coro_frame_wakes:
  assumes inv: "coro_wakes s" and stk: "co_stacks s t = f # st" and step: "coro_frame t f st s = Some s'"
    and ok: "\<not> co_miscast s'"
  shows "coro_wakes s'"
proof -
  have tr: "tracks (wk_at s) (waking s)" and last: "coro_last s" and bad: "\<not> co_bad s"
    using inv by (simp_all add: coro_wakes_def)
  have top: "wk_at s t = frame_wakes f @ concat (map frame_wakes st)"
    using stk by (simp add: wk_at_apply)
  then have t: "(wk_at s)(t := frame_wakes f @ concat (map frame_wakes st)) = wk_at s"
    by (simp add: fun_upd_idem)
  have top_waking: "waking s w" if "w \<in> set (frame_wakes f)" for w
    using tracks_in [OF tr, of w t] that top by simp
  have st: "length (cg_waiters (co_groups s g)) = 1" if "CF_DoneLast g \<in> set (f # st)" for g
    using last that unfolding stk [symmetric] by (auto simp: coro_last_def)
  have other: "length (cg_waiters (co_groups s g)) = 1" if "CF_DoneLast g \<in> set (co_stacks s u)" for g u
    using last that by (auto simp: coro_last_def)
  have once: False if "WK_Group g \<in> set (frame_wakes f)" "CF_DoneLast g \<in> set (if u = t then st else co_stacks s u)" for g u
  proof -
    have pl: "places (wk_at s)"
      using tr by (simp add: tracks_def)
    have g: "WK_Group g \<in> set (wk_at s t)"
      using that(1) top by simp
    show False
    proof (cases "u = t")
      case True
      then have "WK_Group g \<in> set (concat (map frame_wakes st))"
        using that(2) by force
      then show False
        using places_distinct [OF pl, of t] that(1) top by auto
    next
      case False
      then have "WK_Group g \<in> set (wk_at s u)"
        using that(2) by (force simp: wk_at_apply)
      then show False
        using places_unique [OF pl g] False by blast
    qed
  qed
  have once_here: "CF_DoneLast g \<notin> set st" if "WK_Group g \<in> set (frame_wakes f)" for g
    using once [OF that, of t] by auto
  have once_there: "CF_DoneLast g \<notin> set (co_stacks s u)" if "WK_Group g \<in> set (frame_wakes f)" "u \<noteq> t" for g u
    using once [OF that(1), of u] that(2) by auto
  show ?thesis
  proof (cases f)
    case (CF_Fire e)
    then obtain w ws where w: "ce_waiters (co_events s e) = w # ws"
      using top_waking [of "WK_Event e"] by (cases "ce_waiters (co_events s e)") auto
    have "tracks (wk_at s') (waking s')"
      using step CF_Fire w tr t top_waking [of "WK_Event e"] tracks_drop [OF tr, of t "WK_Event e"] top
      by (auto simp: fun_upd_idem)
    moreover have "coro_last s'"
      using step CF_Fire w st other by (auto intro!: coro_last_schedule split: if_splits)
    ultimately show ?thesis
      using step CF_Fire w bad by (auto simp: coro_wakes_def)
  next
    case (CF_DoneLast g)
    then obtain w where w: "cg_waiters (co_groups s g) = [w]"
      using st [of g] by (auto simp: length_Suc_conv)
    have "tracks (wk_at s') (waking s')"
      using step CF_DoneLast w tracks_drop [OF tr, of t "WK_Group g"] top by auto
    moreover have "coro_last s'"
      using step CF_DoneLast w st other once_here [of g] once_there [of g] by (auto intro!: coro_last_schedule split: if_splits)
    ultimately show ?thesis
      using step CF_DoneLast w bad by (auto simp: coro_wakes_def)
  next
    case (CF_Done g)
    then have g: "cg_n (co_groups s g) = 0" "cg_waiters (co_groups s g) \<noteq> []"
      using top_waking [of "WK_Group g"] by auto
    show ?thesis
    proof (cases "length (cg_waiters (co_groups s g)) = 1")
      case True
      then obtain w where w: "cg_waiters (co_groups s g) = [w]"
        by (auto simp: length_Suc_conv)
      have "coro_last s'"
        using step CF_Done w st other by (auto simp: coro_last_def split: if_splits)
      then show ?thesis
        using step CF_Done w g tr t bad by (auto simp: coro_wakes_def fun_upd_idem)
    next
      case False
      then obtain w w' ws where w: "cg_waiters (co_groups s g) = w # w' # ws"
        using g by (metis One_nat_def length_Cons list.size(3) neq_Nil_conv)
      have "coro_last s'"
        using step CF_Done w st other once_here [of g] once_there [of g] by (auto intro!: coro_last_schedule split: if_splits)
      then show ?thesis
        using step CF_Done w g tr t bad by (auto simp: coro_wakes_def fun_upd_idem)
    qed
  next
    case (CF_Cs c r F)
    have "coro_last s'"
      using step CF_Cs st other ok
      by (cases "cr_waiters (co_runs s r)") (auto simp: RunMutex_Unlock_def Let_def coro_last_def [of "co_stack _ _ _"]
        intro!: coro_last_schedule split: if_splits)
    then show ?thesis
      using step CF_Cs t tr bad ok
      by (auto simp: coro_wakes_def RunMutex_Unlock_def Let_def split: if_splits list.splits)
  qed (use step t tr bad st other in \<open>auto simp: coro_wakes_def coro_last_def split: if_splits\<close>)
qed

section \<open>Critical sections of a run mutex\<close>

definition run_locked :: "crt \<Rightarrow> nat \<Rightarrow> bool" where
  "run_locked s = (\<lambda>r. cr_locked (co_runs s r))"

lemma run_locked_apply: "run_locked s r = cr_locked (co_runs s r)"
  by (simp add: run_locked_def)

lemma run_locked_upd [simp]:
  "run_locked (co_stack t st s) = run_locked s" "run_locked (co_submit k s) = run_locked s"
  "run_locked (co_Schedule t st k s) = run_locked s"
  "run_locked (s\<lparr>co_runs := (co_runs s)(r := r')\<rparr>) = (run_locked s)(r := cr_locked r')"
  "run_locked (s\<lparr>co_groups := gs\<rparr>) = run_locked s" "run_locked (s\<lparr>co_mutexes := ms\<rparr>) = run_locked s"
  "run_locked (s\<lparr>co_queue := q\<rparr>) = run_locked s" "run_locked (s\<lparr>co_events := es\<rparr>) = run_locked s"
  "run_locked (s\<lparr>co_live := lv\<rparr>) = run_locked s" "run_locked (s\<lparr>co_sched := sc\<rparr>) = run_locked s"
  "run_locked (s\<lparr>co_owned := ow\<rparr>) = run_locked s" "run_locked (s\<lparr>co_bad := b\<rparr>) = run_locked s"
  "run_locked (s\<lparr>co_miscast := b\<rparr>) = run_locked s"
  by (auto simp: run_locked_def fun_eq_iff)

definition coro_css :: "crt \<Rightarrow> bool" where
  "coro_css s \<longleftrightarrow> tracks (cs_at s) (run_locked s) \<and> (\<forall>r. cr_waiters (co_runs s r) \<noteq> [] \<longrightarrow> cr_locked (co_runs s r))"

lemma schedule_css [simp]:
  "cs_at (co_Schedule t st (CT_Resume w) s) = (cs_at s)(Some t := concat (map frame_css st))"
  by (auto simp: co_Schedule_def fun_eq_iff cs_at_apply split: option.splits)

lemma coro_await_css:
  assumes inv: "coro_css s" and stk: "co_stacks s t = CF_Co c # st" and step: "coro_await t c st a s = Some s'"
  shows "coro_css s'"
proof -
  have tr: "tracks (cs_at s) (run_locked s)" and ws: "\<And>r. cr_waiters (co_runs s r) \<noteq> [] \<Longrightarrow> cr_locked (co_runs s r)"
    using inv by (auto simp: coro_css_def)
  have top: "cs_at s (Some t) = concat (map frame_css st)"
    using stk by (simp add: cs_at_apply)
  then have t: "(cs_at s)(Some t := concat (map frame_css st)) = cs_at s"
    by (simp add: fun_upd_idem)
  have q: "(cs_at s)(None := cs_at s None) = cs_at s" by simp
  have ws': "cr_waiters (co_runs s' r) \<noteq> [] \<longrightarrow> cr_locked (co_runs s' r)" for r
    using step ws by (cases a) (auto simp: coro_await_defs split: if_splits option.splits list.splits)
  have "tracks (cs_at s') (run_locked s')"
  proof (cases "\<exists>r F. a = CW_Run r F \<and> \<not> cr_locked (co_runs s r)")
    case True
    then obtain r F where r: "a = CW_Run r F" "\<not> run_locked s r" "\<not> cr_locked (co_runs s r)"
      by (auto simp: run_locked_apply)
    then show ?thesis
      using step tracks_take [OF tr r(2), of "Some t"] top by (auto simp: coro_await_defs split: if_splits)
  next
    case False
    have "cs_at s' = cs_at s"
      using step t False by (cases a) (auto simp: coro_await_defs split: if_splits option.splits list.splits)
    moreover have "run_locked s' = run_locked s"
      using step False by (cases a) (auto simp: coro_await_defs fun_upd_idem run_locked_apply split: if_splits option.splits list.splits)
    ultimately show ?thesis using tr by simp
  qed
  with ws' show ?thesis by (simp add: coro_css_def)
qed

lemma coro_call_css:
  assumes inv: "coro_css s" and step: "coro_call t a s = Some s'"
  shows "coro_css s'"
proof -
  have "(cs_at s)(Some t := concat (map frame_css (co_stacks s t))) = cs_at s"
    by (simp add: cs_at_apply fun_upd_idem)
  then show ?thesis
    using inv step by (cases a) (auto simp: coro_css_def CoroEvent_Fire_def CoroWaitGroup_Done_def Let_def split: if_splits bool.splits)
qed

lemma coro_frame_css:
  assumes inv: "coro_css s" and stk: "co_stacks s t = f # st" and step: "coro_frame t f st s = Some s'"
    and ok: "\<not> co_miscast s'"
  shows "coro_css s'"
proof -
  have tr: "tracks (cs_at s) (run_locked s)" and ws: "\<And>r. cr_waiters (co_runs s r) \<noteq> [] \<Longrightarrow> cr_locked (co_runs s r)"
    using inv by (auto simp: coro_css_def)
  have top: "cs_at s (Some t) = frame_css f @ concat (map frame_css st)"
    using stk by (simp add: cs_at_apply)
  then have t: "(cs_at s)(Some t := frame_css f @ concat (map frame_css st)) = cs_at s"
    by (simp add: fun_upd_idem)
  show ?thesis
  proof (cases f)
    case (CF_Cs c r F)
    show ?thesis
    proof (cases "cr_waiters (co_runs s r)")
      case Nil
      with CF_Cs step top ws show ?thesis
        using tracks_drop [OF tr, of "Some t" r] by (auto simp: coro_css_def RunMutex_Unlock_def Let_def split: if_splits)
    next
      case (Cons v vs)
      obtain w G where v: "v = (w, G)" by (cases v)
      obtain r' st' where s':
        "s' = co_Schedule t st' (CT_Cs w r G) (s\<lparr>co_runs := (co_runs s)(r := r')\<rparr>)"
        "r' = \<lparr>cr_lock = (co_sched s w = nullptr), cr_locked = True, cr_waiters = vs\<rparr>"
        "st' = (if co_sched s w = nullptr then CF_RunUnlock r # CF_Co c # st else CF_Co c # st)"
        by (rule Cs_handoff [OF step [unfolded CF_Cs] Cons [unfolded v] ok])
      have l: "run_locked s' = run_locked s"
        using ws [of r] Cons by (simp add: s' run_locked_apply fun_upd_idem fun_eq_iff)
      have "tracks (cs_at s') (run_locked s)"
      proof (cases "co_sched s w")
        case None
        with tr t CF_Cs show ?thesis by (simp add: s' co_Schedule_def)
      next
        case (Some k)
        with tracks_move [OF tr, of "Some t" "[]" r "concat (map frame_css st)" None "cs_at s None" "[]"] top CF_Cs
        show ?thesis by (simp add: s' co_Schedule_def)
      qed
      with l ws show ?thesis
        by (auto simp: coro_css_def s' split: if_splits)
    qed
  next
    case (CF_Fire e)
    then show ?thesis
      using step inv t by (cases "ce_waiters (co_events s e)") (auto simp: coro_css_def)
  next
    case (CF_DoneLast g)
    then show ?thesis
      using step inv t by (cases "cg_waiters (co_groups s g)") (auto simp: coro_css_def)
  next
    case (CF_Done g)
    then show ?thesis
      using step inv t by (auto simp: coro_css_def split: list.splits)
  qed (use step inv t in \<open>auto simp: coro_css_def fun_upd_idem run_locked_apply split: if_splits\<close>)
qed

lemma coro_run_css:
  assumes inv: "coro_css s" and step: "coro_move (CS_Run t i) s = Some s'"
  shows "coro_css s'"
proof -
  have tr: "tracks (cs_at s) (run_locked s)"
    using inv by (simp add: coro_css_def)
  from step have i: "i < length (co_queue s)" and st: "co_stacks s t = []"
    and s': "s' = co_stack t [task_Run (co_queue s ! i)] (s\<lparr>co_queue := take i (co_queue s) @ drop (Suc i) (co_queue s)\<rparr>)"
    by (simp_all split: if_splits)
  let ?k = "co_queue s ! i"
  let ?us = "concat (map task_css (take i (co_queue s)))" and ?vs = "concat (map task_css (drop (Suc i) (co_queue s)))"
  have "map task_css (co_queue s) = map task_css (take i (co_queue s)) @ task_css ?k # map task_css (drop (Suc i) (co_queue s))"
    using id_take_nth_drop [OF i] by (metis list.simps(9) map_append)
  then have q: "cs_at s None = ?us @ task_css ?k @ ?vs"
    by (simp add: cs_at_apply)
  have st': "cs_at s (Some t) = []"
    using st by (simp add: cs_at_apply)
  have "tracks (cs_at s') (run_locked s')"
  proof (cases ?k)
    case (CT_Resume c)
    then show ?thesis
      using tr q st' by (simp add: s' fun_upd_idem)
  next
    case (CT_Cs c r F)
    then show ?thesis
      using tracks_move [OF tr, of None ?us r ?vs "Some t" "[]" "[]"] q st' by (simp add: s')
  qed
  with inv show ?thesis
    by (simp add: coro_css_def s')
qed

section \<open>Guards of a mutex, and the scheduler of a submitted coroutine\<close>

definition coro_guards :: "crt \<Rightarrow> bool" where
  "coro_guards s \<longleftrightarrow>
     (\<forall>m. cm_locked (co_mutexes s m) \<longleftrightarrow> (\<exists>c. m \<in> co_owned s c)) \<and>
     (\<forall>m c d. m \<in> co_owned s c \<and> m \<in> co_owned s d \<longrightarrow> c = d) \<and>
     (\<forall>m. cm_waiters (co_mutexes s m) \<noteq> [] \<longrightarrow> cm_locked (co_mutexes s m)) \<and>
     (\<forall>c m. m \<in> co_owned s c \<longrightarrow> c \<in> co_live s)"

definition coro_submitted :: "crt \<Rightarrow> bool" where
  "coro_submitted s \<longleftrightarrow> (\<forall>k \<in> set (co_queue s). co_sched s (task_co k) \<noteq> nullptr)"

lemma coro_cos_live: "coro_cos s \<Longrightarrow> c \<in> set (co_at s l) \<Longrightarrow> c \<in> co_live s"
  unfolding coro_cos_def placed_def by blast

lemma coro_guardsI:
  assumes "\<And>m. cm_locked (co_mutexes s m) \<longleftrightarrow> (\<exists>c. m \<in> co_owned s c)"
    "\<And>m c d. m \<in> co_owned s c \<Longrightarrow> m \<in> co_owned s d \<Longrightarrow> c = d"
    "\<And>m. cm_waiters (co_mutexes s m) \<noteq> [] \<Longrightarrow> cm_locked (co_mutexes s m)"
    "\<And>c m. m \<in> co_owned s c \<Longrightarrow> c \<in> co_live s"
  shows "coro_guards s"
  unfolding coro_guards_def using assms by blast

lemma coro_guardsD:
  assumes "coro_guards s"
  shows "cm_locked (co_mutexes s m) \<longleftrightarrow> (\<exists>c. m \<in> co_owned s c)"
    "m \<in> co_owned s c \<Longrightarrow> m \<in> co_owned s d \<Longrightarrow> c = d"
    "cm_waiters (co_mutexes s m) \<noteq> [] \<Longrightarrow> cm_locked (co_mutexes s m)"
    "m \<in> co_owned s c \<Longrightarrow> c \<in> co_live s"
  using assms unfolding coro_guards_def by blast+

lemma coro_guards_same:
  assumes "coro_guards s" "co_mutexes s' = co_mutexes s" "co_owned s' = co_owned s" "co_live s \<subseteq> co_live s'"
  shows "coro_guards s'"
  using coro_guardsD [OF assms(1)] assms(2-4) by (intro coro_guardsI) auto

lemma coro_await_guards:
  assumes inv: "coro_guards s" and cos: "coro_cos s" and stk: "co_stacks s t = CF_Co c # st"
    and step: "coro_await t c st a s = Some s'"
  shows "coro_guards s'"
proof -
  have c: "c \<in> co_live s"
    using coro_cos_live [OF cos, of c "CL_Stack t"] stk by simp
  note d = coro_guardsD [OF inv]
  show ?thesis
  proof (cases a)
    case (CW_ScopedLock m)
    show ?thesis
    proof (cases "cm_locked (co_mutexes s m)")
      case True
      with CW_ScopedLock step show ?thesis
        using d by (intro coro_guardsI) (auto simp: coro_await_defs split: if_splits)
    next
      case False
      then have m: "m \<notin> co_owned s e" for e
        using d(1) [of m] by blast
      have own: "k \<in> co_owned s' e \<longleftrightarrow> (if k = m then e = c else k \<in> co_owned s e)" for k e
        using CW_ScopedLock step False m by (auto simp: coro_await_defs split: if_splits)
      have mx: "co_mutexes s' = (co_mutexes s)(m := (co_mutexes s m)\<lparr>cm_locked := True\<rparr>)" "co_live s' = co_live s"
        using CW_ScopedLock step False by (auto simp: coro_await_defs split: if_splits)
      show ?thesis
        using d c by (intro coro_guardsI) (auto simp: mx own split: if_splits)
    qed
  next
    case (CW_Unlock m)
    show ?thesis
    proof (cases "cm_waiters (co_mutexes s m)")
      case Nil
      have m: "m \<in> co_owned s c" using step CW_Unlock by (simp split: if_splits)
      then have "e \<noteq> c \<Longrightarrow> m \<notin> co_owned s e" for e
        using d(2) by blast
      then have own: "k \<in> co_owned s' e \<longleftrightarrow> k \<noteq> m \<and> k \<in> co_owned s e" for k e
        using CW_Unlock step Nil by (auto simp: coro_await_defs split: if_splits)
      have mx: "co_mutexes s' = (co_mutexes s)(m := (co_mutexes s m)\<lparr>cm_locked := False\<rparr>)" "co_live s' = co_live s"
        using CW_Unlock step Nil by (auto simp: coro_await_defs split: if_splits)
      show ?thesis
        using d Nil by (intro coro_guardsI) (auto simp: mx own split: if_splits)
    next
      case (Cons w ws)
      obtain m' st' own where s':
        "s' = co_Schedule t st' (CT_Resume w) (s\<lparr>co_mutexes := (co_mutexes s)(m := m'), co_owned := own\<rparr>)"
        "m' = \<lparr>cm_lock = (co_sched s w = nullptr), cm_locked = True, cm_waiters = ws\<rparr>"
        "own = (let own = (co_owned s)(c := co_owned s c - {m}) in own(w := insert m (own w)))"
        "m \<in> co_owned s c"
        by (rule Unlock_handoff [OF step [unfolded CW_Unlock] Cons])
      have w: "w \<in> co_live s"
        using coro_cos_live [OF cos, of w "CL_Mutex m"] Cons by simp
      have u: "m \<notin> co_owned s e" if "e \<noteq> c" for e
        using d(2) [of m c e] s'(4) that by blast
      have own: "k \<in> own e \<longleftrightarrow> (if k = m then e = w else k \<in> co_owned s e)" for k e
        using u [of e] s'(4) by (auto simp: s'(3) Let_def)
      show ?thesis
      proof (rule coro_guardsI)
        show "cm_locked (co_mutexes s' k) \<longleftrightarrow> (\<exists>e. k \<in> co_owned s' e)" for k
          using d(1) s'(2) own by (simp add: s'(1))
        show "e = e'" if "k \<in> co_owned s' e" "k \<in> co_owned s' e'" for k e e'
          using d(2) [of k e e'] that own by (simp add: s'(1) split: if_splits)
        show "cm_locked (co_mutexes s' k)" if "cm_waiters (co_mutexes s' k) \<noteq> []" for k
          using d(3) [of k] that s'(2) by (simp add: s'(1) split: if_splits)
        show "e \<in> co_live s'" if "k \<in> co_owned s' e" for k e
          using d(4) [of k e] that own w by (simp add: s'(1) split: if_splits)
      qed
    qed
  next
    case CW_Return
    then show ?thesis
      using step d by (intro coro_guardsI) (auto split: if_splits)
  qed (use step inv in \<open>auto intro!: coro_guards_same [OF inv] simp: coro_await_defs split: if_splits option.splits\<close>)
qed

lemma coro_call_guards:
  assumes inv: "coro_guards s" and step: "coro_call t a s = Some s'"
  shows "coro_guards s'"
  using step by (cases a) (auto intro!: coro_guards_same [OF inv] simp: CoroEvent_Fire_def CoroWaitGroup_Done_def Let_def
    split: if_splits bool.splits)

lemma coro_frame_guards:
  assumes inv: "coro_guards s" and step: "coro_frame t f st s = Some s'"
  shows "coro_guards s'"
proof (cases f)
  case (CF_Unlock m)
  then show ?thesis
    using coro_guardsD [OF inv] step by (intro coro_guardsI) (auto split: if_splits)
next
  case (CF_Cs c r F)
  then show ?thesis
    using step by (cases "cr_waiters (co_runs s r)")
      (auto intro!: coro_guards_same [OF inv] simp: RunMutex_Unlock_def Let_def split: if_splits)
next
  case (CF_Fire e)
  then show ?thesis
    using step by (cases "ce_waiters (co_events s e)") (auto intro!: coro_guards_same [OF inv])
next
  case (CF_DoneLast g)
  then show ?thesis
    using step by (cases "cg_waiters (co_groups s g)") (auto intro!: coro_guards_same [OF inv])
qed (use step in \<open>auto intro!: coro_guards_same [OF inv] split: list.splits\<close>)

lemma coro_move_submitted:
  assumes inv: "coro_submitted s" and cos: "coro_cos s" and step: "coro_move e s = Some s'"
  shows "coro_submitted s'"
proof (cases e)
  case (CS_Await t a)
  then obtain c st where "co_stacks s t = CF_Co c # st" "coro_await t c st a s = Some s'"
    using step by (auto split: list.splits cframe.splits)
  then show ?thesis
    using inv by (cases a) (auto simp: co_Schedule_def coro_await_defs coro_submitted_def
      split: if_splits option.splits list.splits)
next
  case (CS_Call t a)
  then have "coro_call t a s = Some s'"
    using step by (auto split: list.splits cframe.splits)
  moreover have "c \<in> co_live s" if "k \<in> set (co_queue s)" "task_co k = c" for c k
    using coro_cos_live [OF cos, of c CL_Queue] that by auto
  ultimately show ?thesis
    using inv by (cases a) (auto simp: coro_submitted_def CoroEvent_Fire_def CoroWaitGroup_Done_def Let_def
      split: if_splits bool.splits)
next
  case (CS_Frame t)
  then obtain f st where "co_stacks s t = f # st" "coro_frame t f st s = Some s'"
    using step by (auto split: list.splits)
  then show ?thesis
    using inv by (cases f) (auto simp: co_Schedule_def coro_submitted_def RunMutex_Unlock_def Let_def
      split: if_splits option.splits list.splits prod.splits)
next
  case (CS_Run t i)
  moreover have "set (take i (co_queue s) @ drop (Suc i) (co_queue s)) \<subseteq> set (co_queue s)"
    by (auto dest: in_set_takeD in_set_dropD)
  ultimately show ?thesis
    using step inv by (force simp: coro_submitted_def split: if_splits)
qed

section \<open>The invariant\<close>

definition coro_inv :: "crt \<Rightarrow> bool" where
  "coro_inv s \<longleftrightarrow> coro_cos s \<and> coro_locks s \<and> coro_wakes s \<and> coro_css s \<and> coro_guards s \<and> coro_submitted s"

lemma coro_run_fields:
  assumes "coro_move (CS_Run t i) s = Some s'" "coro_locks s" "coro_wakes s" "coro_guards s"
  shows "coro_locks s'" "coro_wakes s'" "coro_guards s'"
proof -
  from assms(1) have st: "co_stacks s t = []"
    and s': "s' = co_stack t [task_Run (co_queue s ! i)] (s\<lparr>co_queue := take i (co_queue s) @ drop (Suc i) (co_queue s)\<rparr>)"
    by (simp_all split: if_splits)
  have "(lk_at s)(t := []) = lk_at s" "(wk_at s)(t := []) = wk_at s"
    using st by (simp_all add: lk_at_apply wk_at_apply fun_upd_idem)
  then show "coro_locks s'" "coro_wakes s'" "coro_guards s'"
    using assms(2-4) st stack_frames(2) [of "co_queue s ! i", THEN not_sym]
    by (auto simp: s' coro_locks_def coro_wakes_def coro_last_def intro!: coro_guards_same [OF assms(4)])
qed

lemma coro_step_move:
  assumes "coro_step e s = Some s'"
  shows "coro_move e s = Some s'" "\<not> co_miscast s"
  using assms by (simp_all add: coro_step_def split: if_splits)

text \<open>A wrong cast leaves everything else as it was.\<close>

lemma coro_frame_miscast:
  assumes "coro_frame t f st s = Some s'" "\<not> co_miscast s" "co_miscast s'"
  shows "s' = s\<lparr>co_miscast := True\<rparr>"
  using assms by (cases f) (auto simp: RunMutex_Unlock_def Let_def split: if_splits option.splits list.splits prod.splits)

lemma coro_inv_miscast: "coro_inv s \<Longrightarrow> coro_inv (s\<lparr>co_miscast := b\<rparr>)"
  using coro_guards_same [of s "s\<lparr>co_miscast := b\<rparr>"]
  by (simp add: coro_inv_def coro_cos_def coro_locks_def coro_wakes_def coro_css_def coro_submitted_def coro_last_def)

interpretation coro: transition_invariant coro_step coro_init coro_inv
proof
  have v: "co_at coro_init = (\<lambda>l. [])"
    by (rule ext, case_tac l) (simp_all add: coro_init_def cevent_new_def cgroup_new_def cmutex_new_def crun_new_def)
  have w: "spin_locked coro_init = (\<lambda>l. False)" "waking coro_init = (\<lambda>l. False)"
    by (rule ext, case_tac l; simp add: coro_init_def cevent_new_def cgroup_new_def cmutex_new_def crun_new_def)
      (rule ext, case_tac l; simp add: coro_init_def cevent_new_def cgroup_new_def cmutex_new_def crun_new_def)
  have x: "lk_at coro_init = (\<lambda>t. [])" "wk_at coro_init = (\<lambda>t. [])" "cs_at coro_init = (\<lambda>l. [])"
    "run_locked coro_init = (\<lambda>r. False)"
    by (auto simp: lk_at_def wk_at_def cs_at_def run_locked_def coro_init_def crun_new_def fun_eq_iff split: option.splits)
  show "coro_inv coro_init"
    unfolding coro_inv_def coro_cos_def coro_locks_def coro_wakes_def coro_css_def v w x
    by (simp add: places_empty tracks_empty coro_last_def coro_guards_def coro_submitted_def)
      (simp add: coro_init_def cmutex_new_def crun_new_def)
next
  fix s e s'
  assume inv: "coro_inv s" and "coro_step e s = Some s'"
  note step = coro_step_move(1) [OF this(2)] and ok = coro_step_move(2) [OF this(2)]
  note i = inv [unfolded coro_inv_def]
  show "coro_inv s'"
  proof (cases e)
    case (CS_Await t a)
    then obtain c st where a: "co_stacks s t = CF_Co c # st" "coro_await t c st a s = Some s'"
      using step by (auto split: list.splits cframe.splits)
    show ?thesis
      using i coro_await_cos [OF _ a] coro_await_locks [OF _ a] coro_await_wakes [OF _ a] coro_await_css [OF _ a]
        coro_await_guards [OF _ _ a] coro_move_submitted [OF _ _ step] unfolding coro_inv_def by blast
  next
    case (CS_Call t a)
    then have a: "coro_call t a s = Some s'"
      using step by (auto split: list.splits cframe.splits)
    show ?thesis
      using i coro_call_cos [OF _ a] coro_call_locks [OF _ a] coro_call_wakes [OF _ a] coro_call_css [OF _ a]
        coro_call_guards [OF _ a] coro_move_submitted [OF _ _ step] unfolding coro_inv_def by blast
  next
    case (CS_Frame t)
    then obtain f st where a: "co_stacks s t = f # st" "coro_frame t f st s = Some s'"
      using step by (auto split: list.splits)
    show ?thesis
    proof (cases "co_miscast s'")
      case True
      with coro_frame_miscast [OF a(2) ok] coro_inv_miscast [OF inv] show ?thesis by simp
    next
      case False
      with i coro_frame_cos [OF _ a] coro_frame_locks [OF _ a] coro_frame_wakes [OF _ a] coro_frame_css [OF _ a]
        coro_frame_guards [OF _ a(2)] coro_move_submitted [OF _ _ step] show ?thesis unfolding coro_inv_def by blast
    qed
  next
    case (CS_Run t k)
    then show ?thesis
      using i coro_run_cos [of s t k s'] coro_run_css [of s t k s'] coro_run_fields [of t k s s'] step
        coro_move_submitted [OF _ _ step] unfolding coro_inv_def by blast
  qed
qed

section \<open>Threads and types\<close>

fun cstep_thread :: "cstep \<Rightarrow> nat" where
  "cstep_thread (CS_Await t a) = t"
| "cstep_thread (CS_Call t a) = t"
| "cstep_thread (CS_Frame t) = t"
| "cstep_thread (CS_Run t i) = t"

lemma co_Schedule_other: "u \<noteq> t \<Longrightarrow> co_stacks (co_Schedule t st k s) u = co_stacks s u"
  by (simp add: co_Schedule_def split: option.splits)

lemma coro_move_other:
  assumes "coro_move e s = Some s'" "cstep_thread e \<noteq> t"
  shows "co_stacks s' t = co_stacks s t"
proof (cases e)
  case (CS_Await u a)
  then obtain c st where "coro_await u c st a s = Some s'"
    using assms by (auto split: list.splits cframe.splits)
  then show ?thesis
    using assms CS_Await by (cases a) (auto simp: coro_await_defs co_Schedule_other split: if_splits option.splits list.splits)
next
  case (CS_Call u a)
  then have "coro_call u a s = Some s'"
    using assms by (auto split: list.splits cframe.splits)
  then show ?thesis
    using assms CS_Call by (cases a) (auto simp: CoroEvent_Fire_def CoroWaitGroup_Done_def Let_def split: if_splits bool.splits)
next
  case (CS_Frame u)
  then obtain f st where "coro_frame u f st s = Some s'"
    using assms by (auto split: list.splits)
  then show ?thesis
    using assms CS_Frame by (cases f) (auto simp: co_Schedule_other RunMutex_Unlock_def Let_def
      split: if_splits option.splits list.splits prod.splits)
next
  case (CS_Run u i)
  then show ?thesis
    using assms by (auto split: if_splits)
qed

text \<open>A thread that needs a lock of its own stack stays where it is.\<close>

lemma stuck_step:
  assumes inv: "coro_inv s" and stk: "co_stacks s t = CF_Cs c r F # st" and own: "CF_RunUnlock r \<in> set st"
    and "coro_step e s = Some s'"
  shows "co_stacks s' t = co_stacks s t"
proof (cases "cstep_thread e = t")
  case False
  with coro_step_move(1) [OF assms(4)] show ?thesis by (rule coro_move_other)
next
  case True
  have "LK_Run r \<in> set (lk_at s t)"
    using stk own by (force simp: lk_at_apply)
  then have "spin_locked s (LK_Run r)"
    using inv tracks_in unfolding coro_inv_def coro_locks_def by metis
  with True coro_step_move(1) [OF assms(4)] stk show ?thesis
    by (cases e) auto
qed

lemma stuck_exec:
  assumes "coro_inv s" "co_stacks s t = CF_Cs c r F # st" "CF_RunUnlock r \<in> set st" "exec coro_step s es = Some s'"
  shows "co_stacks s' t = co_stacks s t"
  using assms
proof (induction es arbitrary: s)
  case (Cons e es)
  from Cons.prems(4) obtain s1 where s1: "coro_step e s = Some s1" "exec coro_step s1 es = Some s'"
    by (auto split: option.splits)
  have "co_stacks s1 t = co_stacks s t"
    using stuck_step [OF Cons.prems(1-3) s1(1)] .
  with Cons.IH [OF coro.inv_step [OF Cons.prems(1) s1(1)] _ Cons.prems(3) s1(2)] Cons.prems(2) show ?case
    by simp
qed simp

text \<open>Every critical section given to run mutex \<open>r\<close> has the type \<open>ty r\<close>.\<close>

fun cstep_typed :: "(nat \<Rightarrow> nat) \<Rightarrow> cstep \<Rightarrow> bool" where
  "cstep_typed ty (CS_Await t (CW_Run r F)) = (F = ty r)"
| "cstep_typed ty e = True"

fun frame_typed :: "(nat \<Rightarrow> nat) \<Rightarrow> cframe \<Rightarrow> bool" where
  "frame_typed ty (CF_Body c r F) = (F = ty r)"
| "frame_typed ty (CF_Cs c r F) = (F = ty r)"
| "frame_typed ty _ = True"

definition coro_typed :: "(nat \<Rightarrow> nat) \<Rightarrow> crt \<Rightarrow> bool" where
  "coro_typed ty s \<longleftrightarrow>
     (\<forall>t. list_all (frame_typed ty) (co_stacks s t)) \<and> list_all (\<lambda>k. frame_typed ty (task_Run k)) (co_queue s) \<and>
     (\<forall>r. list_all (\<lambda>(w, G). G = ty r) (cr_waiters (co_runs s r))) \<and> \<not> co_miscast s"

lemma co_Schedule_typed:
  assumes "\<forall>u. list_all (frame_typed ty) (if u = t then st else co_stacks s u)" "frame_typed ty (task_Run k)"
    "list_all (\<lambda>k. frame_typed ty (task_Run k)) (co_queue s)"
    "\<forall>r. list_all (\<lambda>(w, G). G = ty r) (cr_waiters (co_runs s r))" "\<not> co_miscast s"
  shows "coro_typed ty (co_Schedule t st k s)"
  using assms by (auto simp: coro_typed_def co_Schedule_def split: option.splits if_splits)

lemma coro_move_typed:
  assumes inv: "coro_typed ty s" and e: "cstep_typed ty e" and step: "coro_move e s = Some s'"
  shows "coro_typed ty s'"
proof -
  have st: "list_all (frame_typed ty) (co_stacks s t)" for t
    using inv by (simp add: coro_typed_def)
  have r: "list_all (\<lambda>(w, G). G = ty r) (cr_waiters (co_runs s r))" for r
    using inv by (simp add: coro_typed_def)
  have q: "list_all (\<lambda>k. frame_typed ty (task_Run k)) (co_queue s)" "\<not> co_miscast s"
    using inv by (simp_all add: coro_typed_def)
  show ?thesis
  proof (cases e)
    case (CS_Await t a)
    then obtain c st' where a: "co_stacks s t = CF_Co c # st'" "coro_await t c st' a s = Some s'"
      using step by (auto split: list.splits cframe.splits)
    have "list_all (frame_typed ty) st'"
      using st [of t] a(1) by simp
    then show ?thesis
      using a(2) e CS_Await st r q by (cases a)
        (auto simp: coro_await_defs coro_typed_def co_Schedule_def split: if_splits option.splits list.splits)
  next
    case (CS_Call t a)
    then have "coro_call t a s = Some s'"
      using step by (auto split: list.splits cframe.splits)
    then show ?thesis
      using inv by (cases a) (auto simp: coro_typed_def CoroEvent_Fire_def CoroWaitGroup_Done_def Let_def split: if_splits bool.splits)
  next
    case (CS_Frame t)
    then obtain f st' where a: "co_stacks s t = f # st'" "coro_frame t f st' s = Some s'"
      using step by (auto split: list.splits)
    have f: "list_all (frame_typed ty) st'" "frame_typed ty f"
      using st [of t] a(1) by simp_all
    show ?thesis
    proof (cases f)
      case (CF_Cs c r F)
      then show ?thesis
        using a(2) f st r [of r] r q by (cases "cr_waiters (co_runs s r)")
          (auto simp: RunMutex_Unlock_def Let_def coro_typed_def [of _ "co_stack _ _ _"] intro!: co_Schedule_typed split: if_splits)
    qed (use a(2) f st r q in \<open>auto simp: coro_typed_def [of _ "co_stack _ _ _"] coro_typed_def [of _ "co_bad_update _ _"]
           intro!: co_Schedule_typed split: if_splits list.splits option.splits prod.splits\<close>)
  next
    case (CS_Run t i)
    moreover have "list_all (\<lambda>k. frame_typed ty (task_Run k)) (take i (co_queue s) @ drop (Suc i) (co_queue s))"
      using q(1) by (auto simp: list_all_iff dest: in_set_takeD in_set_dropD)
    moreover have "frame_typed ty (task_Run (co_queue s ! i))" if "i < length (co_queue s)"
      using q(1) that by (simp add: list_all_length)
    ultimately show ?thesis
      using step st r q by (auto simp: coro_typed_def split: if_splits)
  qed
qed

lemma coro_exec_typed:
  assumes "coro_typed ty s" "\<forall>e \<in> set es. cstep_typed ty e" "exec coro_step s es = Some s'"
  shows "coro_typed ty s'"
  using assms by (induction es arbitrary: s) (auto split: option.splits intro: coro_move_typed [OF _ _ coro_step_move(1)])

text \<open>
  With one type of critical section for each run mutex, as when a mutex is used by one lambda
  expression, no cast is wrong.
\<close>

lemma run_mutex_casts_typed:
  assumes "exec coro_step coro_init es = Some s" "\<forall>e \<in> set es. cstep_typed ty e"
  shows "\<not> co_miscast s"
proof -
  have "coro_typed ty coro_init"
    by (simp add: coro_typed_def coro_init_def crun_new_def)
  from coro_exec_typed [OF this assms(2,1)] show ?thesis
    by (simp add: coro_typed_def)
qed

lemmas coro_eval = coro_step_def coro_init_def crun_new_def cmutex_new_def coro_await_defs RunMutex_Unlock_def co_stack_def
  co_submit_def co_Schedule_def

text \<open>
  With critical sections of two types one can be: the \<open>Unlock\<close> of the first casts the waiter of
  the second to one of its own type, and would read its scheduler where its own is.
\<close>

lemma run_mutex_miscast:
  "\<exists>s. exec coro_step coro_init
      [CS_Call 0 (CC_Go 1), CS_Await 0 (CW_Run 3 7), CS_Call 1 (CC_Go 2), CS_Await 1 (CW_JumpTo 0), CS_Run 1 0,
       CS_Await 1 (CW_Run 3 8), CS_Frame 0, CS_Frame 0] = Some s \<and> co_miscast s"
  by (simp add: coro_eval)

section \<open>Properties\<close>

text \<open>
  C10: coroutines are never lost or duplicated, and what they wait for does what it promises, in
  every execution in which no waiter of a run mutex has been cast to the wrong type, \<open>Fire\<close> is called
  once for an event, \<open>Done\<close> is called for something added, no \<open>Add\<close> overflows, and nothing is added to a
  group while the waiters of its zero are being scheduled. Every
  live coroutine is in exactly one place, once: on the stack of one thread, submitted to its
  scheduler, or in one list of waiters. At most one coroutine owns a guard of a mutex, the mutex is
  locked exactly while a live coroutine owns one, and only then has waiters; at most one critical
  section of a run mutex is begun or submitted. A spin lock is held exactly while a frame that holds it
  is on the stack of a thread. No null pointer is dereferenced in \<open>Fire\<close> and \<open>Done\<close>. When no thread
  runs anything and nothing is submitted, nobody waits for a fired event, for a finished
  group, or for a mutex that no live coroutine owns, and no spin lock is held.
\<close>

theorem coro_runtime_correct:
  assumes "reachable coro_step coro_init s" "\<not> co_miscast s"
  shows "\<not> co_bad s \<and> places (co_at s) \<and> placed (co_at s) = co_live s \<and>
    (\<forall>m c d. m \<in> co_owned s c \<and> m \<in> co_owned s d \<longrightarrow> c = d) \<and>
    (\<forall>m. cm_locked (co_mutexes s m) \<longleftrightarrow> (\<exists>c \<in> co_live s. m \<in> co_owned s c)) \<and>
    (\<forall>m. cm_waiters (co_mutexes s m) \<noteq> [] \<longrightarrow> cm_locked (co_mutexes s m)) \<and>
    places (cs_at s) \<and> (\<forall>r. cr_locked (co_runs s r) \<longleftrightarrow> r \<in> placed (cs_at s)) \<and>
    (\<forall>l. spin_locked s l \<longleftrightarrow> (\<exists>t. l \<in> set (lk_at s t))) \<and>
    ((\<forall>t. co_stacks s t = []) \<and> co_queue s = [] \<longrightarrow>
      (\<forall>e. ce_fired (co_events s e) \<longrightarrow> ce_waiters (co_events s e) = []) \<and>
      (\<forall>g. cg_n (co_groups s g) = 0 \<longrightarrow> cg_waiters (co_groups s g) = []) \<and>
      (\<forall>m. cm_waiters (co_mutexes s m) \<noteq> [] \<longrightarrow> (\<exists>c \<in> co_live s. m \<in> co_owned s c)) \<and>
      (\<forall>r. cr_waiters (co_runs s r) = []) \<and> (\<forall>l. \<not> spin_locked s l))"
proof -
  from coro.reachable_inv [OF assms(1)] have i: "coro_cos s" "coro_locks s" "coro_wakes s" "coro_css s" "coro_guards s"
    by (simp_all add: coro_inv_def)
  note g = coro_guardsD [OF i(5)]
  have l: "spin_locked s l \<longleftrightarrow> (\<exists>t. l \<in> set (lk_at s t))" for l
    using i(2) unfolding coro_locks_def tracks_def placed_def by blast
  have w: "waking s k \<longleftrightarrow> (\<exists>t. k \<in> set (wk_at s t))" for k
    using i(3) unfolding coro_wakes_def tracks_def placed_def by blast
  have c: "places (cs_at s)" "cr_locked (co_runs s r) \<longleftrightarrow> r \<in> placed (cs_at s)" for r
    using i(4) by (simp_all add: coro_css_def tracks_def run_locked_apply)
  have m: "cm_locked (co_mutexes s m) \<longleftrightarrow> (\<exists>c \<in> co_live s. m \<in> co_owned s c)" for m
    using g(1,4) by blast
  have q: "(\<forall>e. ce_fired (co_events s e) \<longrightarrow> ce_waiters (co_events s e) = []) \<and>
      (\<forall>g. cg_n (co_groups s g) = 0 \<longrightarrow> cg_waiters (co_groups s g) = []) \<and>
      (\<forall>r. cr_waiters (co_runs s r) = []) \<and> (\<forall>l. \<not> spin_locked s l)"
    if "\<forall>t. co_stacks s t = []" "co_queue s = []"
  proof -
    have "\<not> waking s k" for k
      using w that(1) by (simp add: wk_at_apply)
    then have "\<not> waking s (WK_Event e)" "\<not> waking s (WK_Group g)" for e g by blast+
    moreover have "cr_waiters (co_runs s r) = []" for r
    proof -
      have "r \<notin> set (cs_at s k)" for k
        using that by (cases k) (simp_all add: cs_at_apply)
      then show ?thesis
        using c(2) i(4) unfolding coro_css_def placed_def by blast
    qed
    moreover have "\<not> spin_locked s l" for l
      using l that(1) by (simp add: lk_at_apply)
    ultimately show ?thesis by simp
  qed
  have "\<not> co_bad s" "places (co_at s)" "placed (co_at s) = co_live s"
    using i(1,3) by (simp_all add: coro_cos_def coro_wakes_def)
  then show ?thesis
    using g(2,3) m c l q by blast
qed

theorem coro_runtime_correct_witness:
  "\<exists>s. reachable coro_step coro_init s \<and> \<not> co_miscast s \<and> cm_waiters (co_mutexes s 0) = [] \<and> co_queue s = [CT_Resume 2] \<and>
     0 \<in> co_owned s 2 \<and> cm_locked (co_mutexes s 0) \<and> places (co_at s) \<and> placed (co_at s) = co_live s"
proof -
  have "\<exists>s. exec coro_step coro_init
      [CS_Call 0 (CC_Go 1), CS_Await 0 (CW_JumpTo 0), CS_Call 0 (CC_Go 2), CS_Await 0 (CW_JumpTo 0), CS_Run 5 0, CS_Run 6 0,
       CS_Await 5 (CW_ScopedLock 0), CS_Await 6 (CW_ScopedLock 0), CS_Await 5 (CW_Unlock 0)] = Some s \<and>
      cm_waiters (co_mutexes s 0) = [] \<and> co_queue s = [CT_Resume 2] \<and> 0 \<in> co_owned s 2 \<and> 2 \<in> co_live s \<and>
      \<not> co_miscast s"
    by (simp add: coro_eval)
  from exec_reachable_ex [OF this] obtain s where s: "reachable coro_step coro_init s"
    "cm_waiters (co_mutexes s 0) = []" "co_queue s = [CT_Resume 2]" "0 \<in> co_owned s 2" "2 \<in> co_live s" "\<not> co_miscast s" by blast
  from coro_runtime_correct [OF s(1,6)] have "places (co_at s)" "placed (co_at s) = co_live s" by blast+
  moreover from coro_runtime_correct [OF s(1,6)] s(4,5) have "cm_locked (co_mutexes s 0)" by blast
  ultimately show ?thesis using s by blast
qed

text \<open>
  C39: a run mutex handed to a waiter without a scheduler deadlocks. \<open>Unlock\<close> runs the waiter
  while it holds the spin lock, and the waiter unlocks the mutex again on the same stack: from
  then on the thread never does anything, whatever happens elsewhere. A coroutine resumed by the
  \<open>Unlock\<close> of a mutex with guards cannot drop its guard there either.
\<close>

theorem inline_handoff_deadlocks:
  assumes "reachable coro_step coro_init s"
  shows "(\<forall>t c r F st es s'. co_stacks s t = CF_Cs c r F # st \<and> CF_RunUnlock r \<in> set st \<and> exec coro_step s es = Some s'
       \<longrightarrow> co_stacks s' t = co_stacks s t) \<and>
     (\<forall>t m. CF_Unlock m \<in> set (co_stacks s t) \<longrightarrow> coro_step (CS_Await t (CW_Unlock m)) s = None)"
proof -
  from coro.reachable_inv [OF assms] have inv: "coro_inv s" .
  have "coro_step (CS_Await t (CW_Unlock m)) s = None" if "CF_Unlock m \<in> set (co_stacks s t)" for t m
  proof -
    have "LK_Mutex m \<in> set (lk_at s t)"
      using that by (force simp: lk_at_apply)
    then have "spin_locked s (LK_Mutex m)"
      using inv tracks_in unfolding coro_inv_def coro_locks_def by metis
    then show ?thesis
      by (simp add: coro_step_def split: list.splits cframe.splits)
  qed
  with stuck_exec [OF inv] show ?thesis by blast
qed

theorem inline_handoff_deadlocks_witness:
  "\<exists>s. reachable coro_step coro_init s \<and> co_stacks s 0 = [CF_Cs 2 3 7, CF_RunUnlock 3, CF_Co 1] \<and>
     (\<forall>es s'. exec coro_step s es = Some s' \<longrightarrow> co_stacks s' 0 = [CF_Cs 2 3 7, CF_RunUnlock 3, CF_Co 1])"
proof -
  have "\<exists>s. exec coro_step coro_init
      [CS_Call 0 (CC_Go 1), CS_Await 0 (CW_Run 3 7), CS_Call 1 (CC_Go 2), CS_Await 1 (CW_Run 3 7),
       CS_Frame 0, CS_Frame 0, CS_Frame 0] = Some s \<and> co_stacks s 0 = [CF_Cs 2 3 7, CF_RunUnlock 3, CF_Co 1]"
    by (simp add: coro_eval)
  from exec_reachable_ex [OF this] obtain s where s: "reachable coro_step coro_init s"
    "co_stacks s 0 = [CF_Cs 2 3 7, CF_RunUnlock 3, CF_Co 1]" by blast
  have "co_stacks s' 0 = co_stacks s 0" if "exec coro_step s es = Some s'" for es s'
    using inline_handoff_deadlocks [OF s(1)] that s(2) by (metis list.set_intros(1))
  with s show ?thesis by auto
qed

end
