(* ===== verification/Memory_Model.thy ===== *)
theory Memory_Model
  imports Prelude
begin

text \<open>
  \<open>deps/twist/.../rt/sim/system/sync\<close>: the memory model of the simulator. It gives atomics the value
  of the last store, follows the happens-before order of C++ with vector clocks, and reports data
  races of accesses to non-atomic variables.

  Threads are numbered from 1 in the order of their creation; \<open>mm_count\<close> is \<open>ThreadCount()\<close>. Clocks
  are functions from thread numbers to epochs of 32 bits. What only serves the texts of reports
  (source locations, operation names) is left out.
\<close>

section \<open>Vector clocks\<close>

type_synonym vclock = "nat \<Rightarrow> nat"

definition epoch_succ :: "nat \<Rightarrow> nat" where
  "epoch_succ e = (e + 1) mod 2 ^ 32"

definition clock_Init :: vclock where
  "clock_Init = (\<lambda>_. 0)"

definition clock_Tick :: "nat \<Rightarrow> vclock \<Rightarrow> vclock" where
  "clock_Tick tid v = v(tid := epoch_succ (v tid))"

text \<open>Assignment and join touch the entries of the threads created so far.\<close>

definition clock_Assign :: "nat \<Rightarrow> vclock \<Rightarrow> vclock \<Rightarrow> vclock" where
  "clock_Assign n that v = (\<lambda>i. if 1 \<le> i \<and> i \<le> n then that i else v i)"

definition clock_Join :: "nat \<Rightarrow> vclock \<Rightarrow> vclock \<Rightarrow> vclock" where
  "clock_Join n that v = (\<lambda>i. if 1 \<le> i \<and> i \<le> n then max (v i) (that i) else v i)"

section \<open>Data\<close>

definition kMaxThreads :: nat where
  "kMaxThreads = 16"

datatype memory_order = MO_relaxed | MO_consume | MO_acquire | MO_release | MO_acq_rel | MO_seq_cst

fun IsLoadOrder :: "memory_order \<Rightarrow> bool" where
  "IsLoadOrder mo = (mo \<in> {MO_relaxed, MO_acquire, MO_seq_cst})"

fun IsAcquireOrder :: "memory_order \<Rightarrow> bool" where
  "IsAcquireOrder mo = (mo \<in> {MO_acquire, MO_acq_rel, MO_seq_cst})"

fun IsStoreOrder :: "memory_order \<Rightarrow> bool" where
  "IsStoreOrder mo = (mo \<in> {MO_relaxed, MO_acq_rel, MO_release, MO_seq_cst})"

fun IsReleaseOrder :: "memory_order \<Rightarrow> bool" where
  "IsReleaseOrder mo = (mo \<in> {MO_release, MO_acq_rel, MO_seq_cst})"

datatype action_type =
    AtomicInit | AtomicLoad | AtomicDebugLoad | AtomicStore | AtomicRmwLoad | AtomicRmwCommit | AtomicDestroy
  | AtomicThreadFence

record action =
  ac_loc :: nat
  ac_size :: nat
  ac_type :: action_type
  ac_value :: u64
  ac_mo :: memory_order

datatype access_type = AT_Init | AT_Read | AT_Write | AT_Destroy

definition IsRead :: "access_type \<Rightarrow> bool" where
  "IsRead a \<longleftrightarrow> a = AT_Read"

definition IsWrite :: "access_type \<Rightarrow> bool" where
  "IsWrite a \<longleftrightarrow> \<not> IsRead a"

record access =
  as_loc :: nat
  as_type :: access_type

record old_access =
  oa_loc :: nat
  oa_type :: access_type
  oa_thread :: nat
  oa_epoch :: nat

record thread_clock =
  tc_current :: vclock
  tc_acquire :: vclock
  tc_release :: vclock
  tc_epoch :: nat

definition thread_clock_Init :: thread_clock where
  "thread_clock_Init = \<lparr>tc_current = clock_Init, tc_acquire = clock_Init, tc_release = clock_Init, tc_epoch = 0\<rparr>"

record atomic_var =
  av_size :: nat
  av_clock :: vclock
  av_value :: u64
  av_dtor :: bool

record non_atomic_var =
  nv_last_read :: "nat \<Rightarrow> old_access option"
  nv_last_write :: "old_access option"
  nv_dtor :: "old_access option"

record alloc =
  al_alive :: bool
  al_size :: nat
  al_thread :: nat
  al_free :: vclock

record memory_model =
  mm_count :: nat
  mm_threads :: "nat \<Rightarrow> thread_clock"
  mm_atomics :: "nat \<Rightarrow> atomic_var option"
  mm_non_atomics :: "nat \<Rightarrow> non_atomic_var option"
  mm_allocs :: "nat \<Rightarrow> alloc option"

text \<open>After \<open>Reset\<close>, with the main thread created.\<close>

definition mm_init :: memory_model where
  "mm_init = \<lparr>mm_count = 1, mm_threads = (\<lambda>_. thread_clock_Init), mm_atomics = Map.empty, mm_non_atomics = Map.empty,
     mm_allocs = Map.empty\<rparr>"

datatype mm_error =
    UnknownAtomicVarAccess | DeadAtomicVarAccess | UnknownSharedVarAccess | InitOnLiveSharedVar
  | UnexpectedMemoryOrder | FenceNotSupported

abbreviation mm_thread :: "nat \<Rightarrow> (thread_clock \<Rightarrow> thread_clock) \<Rightarrow> memory_model \<Rightarrow> memory_model" where
  "mm_thread t f s \<equiv> s\<lparr>mm_threads := (mm_threads s)(t := f (mm_threads s t))\<rparr>"

section \<open>Threads\<close>

definition mm_Tick :: "nat \<Rightarrow> memory_model \<Rightarrow> memory_model" where
  "mm_Tick t s = mm_thread t (\<lambda>c. c\<lparr>tc_current := clock_Tick t (tc_current c), tc_epoch := epoch_succ (tc_epoch c)\<rparr>) s"

text \<open>\<open>CreateThread\<close> gives the child the next number and clean clocks; \<open>Spawn\<close> passes on the clock of the parent.\<close>

definition mm_Spawn :: "nat \<Rightarrow> nat \<Rightarrow> memory_model \<Rightarrow> memory_model" where
  "mm_Spawn parent child s =
     (let s' = s\<lparr>mm_count := mm_count s + 1, mm_threads := (mm_threads s)(child := thread_clock_Init)\<rparr>
      in mm_Tick child
           (mm_thread child (\<lambda>c. c\<lparr>tc_current := clock_Assign (mm_count s') (tc_current (mm_threads s' parent)) (tc_current c)\<rparr>) s'))"

definition mm_Wake :: "nat \<Rightarrow> nat \<Rightarrow> memory_model \<Rightarrow> memory_model" where
  "mm_Wake waker waiter s =
     mm_Tick waiter
       (mm_thread waiter (\<lambda>c. c\<lparr>tc_current := clock_Join (mm_count s) (tc_release (mm_threads s waker)) (tc_current c)\<rparr>) s)"

section \<open>Fences\<close>

definition FenceRelease :: "nat \<Rightarrow> memory_model \<Rightarrow> memory_model" where
  "FenceRelease t s = mm_thread t (\<lambda>c. c\<lparr>tc_release := clock_Assign (mm_count s) (tc_current c) (tc_release c)\<rparr>) s"

definition FenceAcquire :: "nat \<Rightarrow> memory_model \<Rightarrow> memory_model" where
  "FenceAcquire t s = mm_thread t (\<lambda>c. c\<lparr>tc_current := clock_Join (mm_count s) (tc_acquire c) (tc_current c)\<rparr>) s"

definition FenceAcqRel :: "nat \<Rightarrow> memory_model \<Rightarrow> memory_model" where
  "FenceAcqRel t s = FenceRelease t (FenceAcquire t s)"

definition ThreadFence :: "nat \<Rightarrow> action \<Rightarrow> memory_model \<Rightarrow> mm_error + memory_model" where
  "ThreadFence t a s =
     (case ac_mo a of
        MO_acquire \<Rightarrow> Inr (FenceAcquire t s)
      | MO_release \<Rightarrow> Inr (FenceRelease t s)
      | MO_acq_rel \<Rightarrow> Inr (FenceAcqRel t s)
      | _ \<Rightarrow> Inl FenceNotSupported)"

section \<open>Atomics\<close>

definition GetShadowAtomicVar :: "action \<Rightarrow> memory_model \<Rightarrow> mm_error + atomic_var" where
  "GetShadowAtomicVar a s =
     (case mm_atomics s (ac_loc a) of
        None \<Rightarrow> Inl UnknownAtomicVarAccess
      | Some v \<Rightarrow> if av_dtor v then Inl DeadAtomicVarAccess else Inr v)"

definition do_AtomicInit :: "action \<Rightarrow> memory_model \<Rightarrow> memory_model" where
  "do_AtomicInit a s =
     s\<lparr>mm_atomics := (mm_atomics s)(ac_loc a \<mapsto>
         \<lparr>av_size = ac_size a, av_clock = clock_Init, av_value = ac_value a, av_dtor = False\<rparr>)\<rparr>"

definition AtomicLoadRelaxed :: "nat \<Rightarrow> atomic_var \<Rightarrow> memory_model \<Rightarrow> u64 \<times> memory_model" where
  "AtomicLoadRelaxed t v s =
     (av_value v, mm_thread t (\<lambda>c. c\<lparr>tc_acquire := clock_Join (mm_count s) (av_clock v) (tc_acquire c)\<rparr>) s)"

definition AtomicStoreRelaxed :: "nat \<Rightarrow> nat \<Rightarrow> atomic_var \<Rightarrow> u64 \<Rightarrow> memory_model \<Rightarrow> memory_model" where
  "AtomicStoreRelaxed t l v x s =
     s\<lparr>mm_atomics := (mm_atomics s)(l \<mapsto>
         v\<lparr>av_value := x, av_clock := clock_Assign (mm_count s) (tc_release (mm_threads s t)) (av_clock v)\<rparr>)\<rparr>"

definition AtomicRmwCommitRelaxed :: "nat \<Rightarrow> nat \<Rightarrow> atomic_var \<Rightarrow> u64 \<Rightarrow> memory_model \<Rightarrow> memory_model" where
  "AtomicRmwCommitRelaxed t l v x s =
     s\<lparr>mm_atomics := (mm_atomics s)(l \<mapsto>
         v\<lparr>av_clock := clock_Join (mm_count s) (tc_release (mm_threads s t)) (av_clock v), av_value := x\<rparr>)\<rparr>"

definition do_AtomicLoad :: "nat \<Rightarrow> action \<Rightarrow> memory_model \<Rightarrow> mm_error + u64 \<times> memory_model" where
  "do_AtomicLoad t a s =
     (if \<not> IsLoadOrder (ac_mo a) then Inl UnexpectedMemoryOrder
      else case GetShadowAtomicVar a s of
        Inl e \<Rightarrow> Inl e
      | Inr v \<Rightarrow> (case AtomicLoadRelaxed t v s of
          (x, s') \<Rightarrow> Inr (x, if IsAcquireOrder (ac_mo a) then FenceAcquire t s' else s')))"

definition do_AtomicDebugLoad :: "action \<Rightarrow> memory_model \<Rightarrow> mm_error + u64 \<times> memory_model" where
  "do_AtomicDebugLoad a s =
     (case GetShadowAtomicVar a s of Inl e \<Rightarrow> Inl e | Inr v \<Rightarrow> Inr (av_value v, s))"

definition do_AtomicStore :: "nat \<Rightarrow> action \<Rightarrow> memory_model \<Rightarrow> mm_error + memory_model" where
  "do_AtomicStore t a s =
     (if \<not> IsStoreOrder (ac_mo a) then Inl UnexpectedMemoryOrder
      else case GetShadowAtomicVar a s of
        Inl e \<Rightarrow> Inl e
      | Inr v \<Rightarrow>
          Inr (AtomicStoreRelaxed t (ac_loc a) v (ac_value a)
            (if IsReleaseOrder (ac_mo a) then FenceRelease t s else s)))"

definition do_AtomicRmwLoad :: "nat \<Rightarrow> action \<Rightarrow> memory_model \<Rightarrow> mm_error + u64 \<times> memory_model" where
  "do_AtomicRmwLoad t a s =
     (case GetShadowAtomicVar a s of
        Inl e \<Rightarrow> Inl e
      | Inr v \<Rightarrow> (case AtomicLoadRelaxed t v s of
          (x, s') \<Rightarrow> Inr (x, if IsAcquireOrder (ac_mo a) then FenceAcquire t s' else s')))"

definition do_AtomicRmwCommit :: "nat \<Rightarrow> action \<Rightarrow> memory_model \<Rightarrow> mm_error + memory_model" where
  "do_AtomicRmwCommit t a s =
     (case GetShadowAtomicVar a s of
        Inl e \<Rightarrow> Inl e
      | Inr v \<Rightarrow>
          Inr (AtomicRmwCommitRelaxed t (ac_loc a) v (ac_value a)
            (if IsReleaseOrder (ac_mo a) then FenceRelease t s else s)))"

definition do_AtomicDestroy :: "action \<Rightarrow> memory_model \<Rightarrow> mm_error + memory_model" where
  "do_AtomicDestroy a s =
     (case GetShadowAtomicVar a s of
        Inl e \<Rightarrow> Inl e
      | Inr v \<Rightarrow> Inr (s\<lparr>mm_atomics := (mm_atomics s)(ac_loc a \<mapsto> v\<lparr>av_dtor := True\<rparr>)\<rparr>))"

fun Sync :: "nat \<Rightarrow> action \<Rightarrow> memory_model \<Rightarrow> mm_error + u64 \<times> memory_model" where
  "Sync t a s0 =
     (let s = mm_Tick t s0 in
      case ac_type a of
        AtomicInit \<Rightarrow> Inr (0, do_AtomicInit a s)
      | AtomicDestroy \<Rightarrow> map_sum id (Pair 0) (do_AtomicDestroy a s)
      | AtomicLoad \<Rightarrow> do_AtomicLoad t a s
      | AtomicDebugLoad \<Rightarrow> do_AtomicDebugLoad a s
      | AtomicStore \<Rightarrow> map_sum id (Pair 0) (do_AtomicStore t a s)
      | AtomicRmwLoad \<Rightarrow> do_AtomicRmwLoad t a s
      | AtomicRmwCommit \<Rightarrow> map_sum id (Pair 0) (do_AtomicRmwCommit t a s)
      | AtomicThreadFence \<Rightarrow> map_sum id (Pair 0) (ThreadFence t a s))"

section \<open>Non-atomic variables\<close>

definition Conflict :: "access_type \<Rightarrow> access_type \<Rightarrow> bool" where
  "Conflict a b \<longleftrightarrow> IsWrite a \<or> IsWrite b"

definition HappensBefore :: "old_access \<Rightarrow> nat \<Rightarrow> memory_model \<Rightarrow> bool" where
  "HappensBefore old t s \<longleftrightarrow> tc_current (mm_threads s t) (oa_thread old) \<ge> oa_epoch old"

text \<open>The loop over the last reads of threads \<open>i\<close> to \<open>n\<close>.\<close>

function check_reads :: "nat \<Rightarrow> non_atomic_var \<Rightarrow> memory_model \<Rightarrow> nat \<Rightarrow> nat \<Rightarrow> old_access option" where
  "check_reads t var s i n =
     (if i \<le> n
      then case nv_last_read var i of
        Some old \<Rightarrow> if i \<noteq> t \<and> \<not> HappensBefore old t s then Some old else check_reads t var s (i + 1) n
      | None \<Rightarrow> check_reads t var s (i + 1) n
      else None)"
  by pat_completeness auto
termination
  by (relation "measure (\<lambda>(t, var, s, i, n). Suc n - i)") auto

declare check_reads.simps [simp del]

definition CheckDataRaces :: "nat \<Rightarrow> non_atomic_var \<Rightarrow> access \<Rightarrow> memory_model \<Rightarrow> old_access option" where
  "CheckDataRaces t var a s =
     (case nv_last_write var of
        Some w \<Rightarrow>
          if oa_thread w \<noteq> t \<and> \<not> HappensBefore w t s then Some w
          else if IsWrite (as_type a) then check_reads t var s 1 (mm_count s) else None
      | None \<Rightarrow> if IsWrite (as_type a) then check_reads t var s 1 (mm_count s) else None)"

definition non_atomic_Init :: non_atomic_var where
  "non_atomic_Init = \<lparr>nv_last_read = (\<lambda>_. None), nv_last_write = None, nv_dtor = None\<rparr>"

definition non_atomic_Log :: "old_access \<Rightarrow> non_atomic_var \<Rightarrow> non_atomic_var" where
  "non_atomic_Log a var =
     (if IsRead (oa_type a) then var\<lparr>nv_last_read := (nv_last_read var)(oa_thread a \<mapsto> a)\<rparr>
      else var\<lparr>nv_last_write := Some a\<rparr>)"

definition this_access :: "nat \<Rightarrow> access \<Rightarrow> memory_model \<Rightarrow> old_access" where
  "this_access t a s =
     \<lparr>oa_loc = as_loc a, oa_type = as_type a, oa_thread = t, oa_epoch = tc_epoch (mm_threads s t)\<rparr>"

text \<open>The outcome of an access: done, the older access it races with, or an invalid access.\<close>

datatype mm_result = MM_Ok memory_model | MM_Race old_access | MM_Error mm_error

definition InitNonAtomicVar :: "nat \<Rightarrow> access \<Rightarrow> memory_model \<Rightarrow> mm_result" where
  "InitNonAtomicVar t a s =
     (let fresh = MM_Ok (s\<lparr>mm_non_atomics := (mm_non_atomics s)(as_loc a \<mapsto>
                     non_atomic_Log (this_access t a s) non_atomic_Init)\<rparr>)
      in case mm_non_atomics s (as_loc a) of
           None \<Rightarrow> fresh
         | Some var \<Rightarrow>
             if nv_dtor var = None then MM_Error InitOnLiveSharedVar
             else case CheckDataRaces t var a s of Some race \<Rightarrow> MM_Race race | None \<Rightarrow> fresh)"

definition AccessLiveNonAtomicVar :: "nat \<Rightarrow> access \<Rightarrow> memory_model \<Rightarrow> mm_result" where
  "AccessLiveNonAtomicVar t a s =
     (case mm_non_atomics s (as_loc a) of
        None \<Rightarrow> MM_Error UnknownSharedVarAccess
      | Some var \<Rightarrow>
          (case CheckDataRaces t var a s of
             Some race \<Rightarrow> MM_Race race
           | None \<Rightarrow>
               let me = this_access t a s;
                   var' = (if as_type a = AT_Destroy then var\<lparr>nv_dtor := Some me\<rparr> else var)
               in MM_Ok (s\<lparr>mm_non_atomics := (mm_non_atomics s)(as_loc a \<mapsto> non_atomic_Log me var')\<rparr>)))"

definition AccessNonAtomicVar :: "nat \<Rightarrow> access \<Rightarrow> memory_model \<Rightarrow> mm_result" where
  "AccessNonAtomicVar t a s0 =
     (let s = mm_Tick t s0 in
      if as_type a = AT_Init then InitNonAtomicVar t a s else AccessLiveNonAtomicVar t a s)"

section \<open>Allocations\<close>

definition GetShadowAllocation :: "nat \<Rightarrow> memory_model \<Rightarrow> alloc" where
  "GetShadowAllocation addr s =
     (case mm_allocs s addr of
        Some al \<Rightarrow> al
      | None \<Rightarrow> \<lparr>al_alive = False, al_size = 0, al_thread = 0, al_free = clock_Init\<rparr>)"

definition mm_Malloc :: "nat \<Rightarrow> nat \<Rightarrow> nat \<Rightarrow> memory_model \<Rightarrow> memory_model" where
  "mm_Malloc t addr bytes s =
     (let al = GetShadowAllocation addr s
      in mm_thread t (\<lambda>c. c\<lparr>tc_current := clock_Join (mm_count s) (al_free al) (tc_current c)\<rparr>)
           (s\<lparr>mm_allocs := (mm_allocs s)(addr \<mapsto> al\<lparr>al_alive := True, al_size := bytes, al_thread := t\<rparr>)\<rparr>))"

definition mm_Free :: "nat \<Rightarrow> nat \<Rightarrow> memory_model \<Rightarrow> memory_model" where
  "mm_Free t addr s =
     (let al = GetShadowAllocation addr s
      in s\<lparr>mm_allocs := (mm_allocs s)(addr \<mapsto>
             al\<lparr>al_alive := False, al_free := clock_Assign (mm_count s) (tc_current (mm_threads s t)) (al_free al)\<rparr>)\<rparr>)"

section \<open>The calls of the simulator\<close>

datatype mm_event =
    EV_Spawn nat nat
  | EV_Wake nat nat
  | EV_Sync nat action
  | EV_Access nat access
  | EV_Malloc nat nat nat
  | EV_Free nat nat

abbreviation is_thread :: "memory_model \<Rightarrow> nat \<Rightarrow> bool" where
  "is_thread s t \<equiv> 1 \<le> t \<and> t \<le> mm_count s"

text \<open>None when the threads named do not exist, or the number of the child is not the next one.\<close>

fun mm_step :: "mm_event \<Rightarrow> memory_model \<Rightarrow> mm_result option" where
  "mm_step (EV_Spawn p c) s =
     (if is_thread s p \<and> c = mm_count s + 1 \<and> c \<le> kMaxThreads then Some (MM_Ok (mm_Spawn p c s)) else None)"
| "mm_step (EV_Wake w t) s = (if is_thread s w \<and> is_thread s t then Some (MM_Ok (mm_Wake w t s)) else None)"
| "mm_step (EV_Sync t a) s =
     (if is_thread s t then Some (case Sync t a s of Inl e \<Rightarrow> MM_Error e | Inr (x, s') \<Rightarrow> MM_Ok s') else None)"
| "mm_step (EV_Access t a) s = (if is_thread s t then Some (AccessNonAtomicVar t a s) else None)"
| "mm_step (EV_Malloc t addr bytes) s = (if is_thread s t then Some (MM_Ok (mm_Malloc t addr bytes s)) else None)"
| "mm_step (EV_Free t addr) s = (if is_thread s t then Some (MM_Ok (mm_Free t addr s)) else None)"

text \<open>A step that neither fails nor finds a race.\<close>

definition mm_ok :: "mm_event \<Rightarrow> memory_model \<Rightarrow> memory_model option" where
  "mm_ok e s = (case mm_step e s of Some (MM_Ok s') \<Rightarrow> Some s' | _ \<Rightarrow> None)"

end
