(* ===== verification/Happens_Before.thy ===== *)
theory Happens_Before
  imports Memory_Model
begin

text \<open>
  The happens-before order of a trace of the memory model, defined on the trace alone, and the proof
  that the vector clocks of the model compute it.

  The order is that of C++: program order, thread creation, and the synchronization of a release
  fence with an acquire fence through a store and a load that reads from its release sequence (a
  release store and an acquire load contain their fences). The simulator adds that a woken thread
  is ordered after the releases of its waker, and an allocation after the last free of its address.
\<close>

section \<open>The order\<close>

fun actor :: "mm_event \<Rightarrow> nat" where
  "actor (EV_Spawn p c) = c"
| "actor (EV_Wake w t) = t"
| "actor (EV_Sync t a) = t"
| "actor (EV_Access t a) = t"
| "actor (EV_Malloc t addr n) = t"
| "actor (EV_Free t addr) = t"

fun ticking :: "mm_event \<Rightarrow> bool" where
  "ticking (EV_Malloc t addr n) = False"
| "ticking (EV_Free t addr) = False"
| "ticking _ = True"

fun is_release :: "mm_event \<Rightarrow> bool" where
  "is_release (EV_Sync t a) =
     (ac_type a \<in> {AtomicStore, AtomicRmwCommit} \<and> IsReleaseOrder (ac_mo a) \<or>
      ac_type a = AtomicThreadFence \<and> ac_mo a \<in> {MO_release, MO_acq_rel})"
| "is_release _ = False"

fun is_acquire :: "mm_event \<Rightarrow> bool" where
  "is_acquire (EV_Sync t a) =
     (ac_type a \<in> {AtomicLoad, AtomicRmwLoad} \<and> IsAcquireOrder (ac_mo a) \<or>
      ac_type a = AtomicThreadFence \<and> ac_mo a \<in> {MO_acquire, MO_acq_rel})"
| "is_acquire _ = False"

fun writes :: "nat \<Rightarrow> mm_event \<Rightarrow> bool" where
  "writes l (EV_Sync t a) = (ac_loc a = l \<and> ac_type a \<in> {AtomicStore, AtomicRmwCommit})"
| "writes l _ = False"

fun reads :: "nat \<Rightarrow> mm_event \<Rightarrow> bool" where
  "reads l (EV_Sync t a) = (ac_loc a = l \<and> ac_type a \<in> {AtomicLoad, AtomicRmwLoad})"
| "reads l _ = False"

text \<open>A store other than that of a read-modify-write ends the release sequences of its location.\<close>

fun breaks :: "nat \<Rightarrow> mm_event \<Rightarrow> bool" where
  "breaks l (EV_Sync t a) = (ac_loc a = l \<and> ac_type a \<in> {AtomicInit, AtomicStore})"
| "breaks l _ = False"

fun frees :: "nat \<Rightarrow> mm_event \<Rightarrow> bool" where
  "frees l (EV_Free t addr) = (addr = l)"
| "frees l _ = False"

text \<open>The write \<open>w\<close> heads a release sequence that is not broken before position \<open>n\<close>.\<close>

definition heads :: "mm_event list \<Rightarrow> nat \<Rightarrow> nat \<Rightarrow> nat \<Rightarrow> bool" where
  "heads es l w n \<longleftrightarrow> w < n \<and> writes l (es ! w) \<and> (\<forall>k. w < k \<and> k < n \<longrightarrow> \<not> breaks l (es ! k))"

definition sync_with :: "mm_event list \<Rightarrow> nat \<Rightarrow> nat \<Rightarrow> bool" where
  "sync_with es i j \<longleftrightarrow> is_release (es ! i) \<and> is_acquire (es ! j) \<and>
     (\<exists>w r l. i \<le> w \<and> r \<le> j \<and> actor (es ! w) = actor (es ! i) \<and> actor (es ! r) = actor (es ! j) \<and>
        heads es l w r \<and> reads l (es ! r))"

definition hb_edge :: "mm_event list \<Rightarrow> nat \<Rightarrow> nat \<Rightarrow> bool" where
  "hb_edge es i j \<longleftrightarrow> i < j \<and> j < length es \<and>
     (actor (es ! i) = actor (es ! j) \<or>
      (\<exists>c. es ! j = EV_Spawn (actor (es ! i)) c) \<or>
      is_release (es ! i) \<and> (\<exists>t. es ! j = EV_Wake (actor (es ! i)) t) \<or>
      (\<exists>t addr n. es ! j = EV_Malloc t addr n \<and> frees addr (es ! i) \<and> (\<forall>k. i < k \<and> k < j \<longrightarrow> \<not> frees addr (es ! k))) \<or>
      sync_with es i j)"

definition hb :: "mm_event list \<Rightarrow> nat \<Rightarrow> nat \<Rightarrow> bool" where
  "hb es = (hb_edge es)\<^sup>+\<^sup>+"

abbreviation hb_eq :: "mm_event list \<Rightarrow> nat \<Rightarrow> nat \<Rightarrow> bool" where
  "hb_eq es i j \<equiv> i = j \<or> hb es i j"

lemma hb_edge_less: "hb_edge es i j \<Longrightarrow> i < j \<and> j < length es"
  by (simp add: hb_edge_def)

lemma hb_less: "hb es i j \<Longrightarrow> i < j \<and> j < length es"
  unfolding hb_def by (induction rule: tranclp.induct) (auto dest: hb_edge_less)

lemma hb_trans: "hb es i j \<Longrightarrow> hb es j k \<Longrightarrow> hb es i k"
  unfolding hb_def by (rule tranclp_trans)

lemma hb_po: "i < j \<Longrightarrow> j < length es \<Longrightarrow> actor (es ! i) = actor (es ! j) \<Longrightarrow> hb es i j"
  unfolding hb_def by (rule tranclp.r_into_trancl) (simp add: hb_edge_def)

section \<open>Extending a trace\<close>

lemma heads_prefix: "n \<le> length es \<Longrightarrow> heads (es @ fs) l w n = heads es l w n"
  by (auto simp: heads_def nth_append)

lemma sync_with_prefix:
  assumes "i < length es" "j < length es"
  shows "sync_with (es @ fs) i j = sync_with es i j"
proof -
  have "(i \<le> w \<and> r \<le> j \<and> actor ((es @ fs) ! w) = actor (es ! i) \<and> actor ((es @ fs) ! r) = actor (es ! j) \<and>
         heads (es @ fs) l w r \<and> reads l ((es @ fs) ! r)) \<longleftrightarrow>
        (i \<le> w \<and> r \<le> j \<and> actor (es ! w) = actor (es ! i) \<and> actor (es ! r) = actor (es ! j) \<and>
         heads es l w r \<and> reads l (es ! r))" for w r l
  proof (cases "r \<le> j \<and> w < r")
    case True
    with assms show ?thesis
      by (simp add: nth_append heads_prefix)
  qed (auto simp: heads_def)
  with assms show ?thesis
    by (simp add: sync_with_def nth_append)
qed

lemma hb_edge_prefix:
  assumes "j < length es"
  shows "hb_edge (es @ fs) i j = hb_edge es i j"
proof (cases "i < j")
  case True
  with assms sync_with_prefix [of i es j fs] show ?thesis
    by (auto simp: hb_edge_def nth_append)
qed (simp add: hb_edge_def)

lemma hb_restrict: "hb (es @ fs) i j \<Longrightarrow> j < length es \<Longrightarrow> hb es i j"
  unfolding hb_def
proof (induction rule: tranclp.induct)
  case (trancl_into_trancl i j k)
  from hb_edge_less [OF trancl_into_trancl.hyps(2)] trancl_into_trancl.prems have "j < length es" by simp
  with trancl_into_trancl show ?case
    by (simp add: hb_edge_prefix tranclp.trancl_into_trancl)
qed (simp add: hb_edge_prefix tranclp.r_into_trancl)

lemma hb_extend: "hb es i j \<Longrightarrow> hb (es @ fs) i j"
  unfolding hb_def
proof (induction rule: tranclp.induct)
  case (r_into_trancl i j)
  with hb_edge_less [OF r_into_trancl] show ?case
    by (simp add: hb_edge_prefix tranclp.r_into_trancl)
next
  case (trancl_into_trancl i j k)
  with hb_edge_less [OF trancl_into_trancl.hyps(2)] show ?case
    using hb_edge_prefix [of k es fs j] by (simp add: tranclp.trancl_into_trancl)
qed

lemma hb_prefix: "j < length es \<Longrightarrow> hb (es @ fs) i j = hb es i j"
  using hb_restrict hb_extend by blast

lemma hb_last:
  "hb (es @ [x]) i (length es) \<longleftrightarrow> (\<exists>k < length es. hb_eq es i k \<and> hb_edge (es @ [x]) k (length es))"
proof -
  have "hb (es @ [x]) i (length es) \<longleftrightarrow>
      hb_edge (es @ [x]) i (length es) \<or> (\<exists>k. hb (es @ [x]) i k \<and> hb_edge (es @ [x]) k (length es))"
    unfolding hb_def by (subst tranclp.simps) blast
  also have "\<dots> \<longleftrightarrow> (\<exists>k < length es. hb_eq es i k \<and> hb_edge (es @ [x]) k (length es))"
    using hb_edge_less [of "es @ [x]" _ "length es"] hb_prefix [of _ es "[x]" i] by blast
  finally show ?thesis .
qed

section \<open>What threads and locations have seen\<close>

definition seen :: "mm_event list \<Rightarrow> nat \<Rightarrow> nat set" where
  "seen es t = {i. \<exists>j < length es. actor (es ! j) = t \<and> hb_eq es i j}"

definition released :: "mm_event list \<Rightarrow> nat \<Rightarrow> nat set" where
  "released es t = {i. \<exists>f < length es. is_release (es ! f) \<and> actor (es ! f) = t \<and> hb_eq es i f}"

definition carried :: "mm_event list \<Rightarrow> nat \<Rightarrow> nat set" where
  "carried es l =
     {i. \<exists>f w. f \<le> w \<and> heads es l w (length es) \<and> is_release (es ! f) \<and> actor (es ! w) = actor (es ! f) \<and> hb_eq es i f}"

definition acquirable :: "mm_event list \<Rightarrow> nat \<Rightarrow> nat set" where
  "acquirable es t =
     {i. \<exists>r < length es. \<exists>l. actor (es ! r) = t \<and> reads l (es ! r) \<and> i \<in> carried (take r es) l}"

definition freed_before :: "mm_event list \<Rightarrow> nat \<Rightarrow> nat set" where
  "freed_before es l =
     {i. \<exists>f < length es. frees l (es ! f) \<and> (\<forall>k. f < k \<and> k < length es \<longrightarrow> \<not> frees l (es ! k)) \<and> hb_eq es i f}"

text \<open>What the last event of a trace adds to what its thread has seen.\<close>

definition incoming :: "mm_event list \<Rightarrow> mm_event \<Rightarrow> nat set" where
  "incoming es x =
     (case x of
        EV_Spawn p c \<Rightarrow> seen es p
      | EV_Wake w t \<Rightarrow> released es w
      | EV_Malloc t l n \<Rightarrow> freed_before es l
      | _ \<Rightarrow> if is_acquire x then acquirable (es @ [x]) (actor x) else {})"

lemma ex_less_Suc: "(\<exists>j < Suc n. P j) \<longleftrightarrow> (\<exists>j < n. P j) \<or> P n"
  by (auto simp: less_Suc_eq)

lemma seen_other:
  assumes "actor x \<noteq> t"
  shows "seen (es @ [x]) t = seen es t"
  using assms by (auto simp: seen_def ex_less_Suc nth_append hb_prefix)

lemma released_snoc:
  "released (es @ [x]) t = (if is_release x \<and> actor x = t then seen (es @ [x]) t else released es t)"
proof -
  have "released (es @ [x]) t = released es t \<union> (if is_release x \<and> actor x = t then {i. hb_eq (es @ [x]) i (length es)} else {})"
    by (auto simp: released_def ex_less_Suc nth_append hb_prefix)
  moreover have "seen (es @ [x]) t = {i. hb_eq (es @ [x]) i (length es)}" if "actor x = t"
  proof -
    have "hb_eq (es @ [x]) i (length es)" if "j < length es" "actor (es ! j) = t" "hb_eq (es @ [x]) i j" for i j
      using that \<open>actor x = t\<close> hb_po [of j "length es" "es @ [x]"] hb_trans [of "es @ [x]" i j "length es"]
      by (auto simp: nth_append)
    with that show ?thesis by (auto simp: seen_def ex_less_Suc nth_append)
  qed
  moreover have "released es t \<subseteq> seen (es @ [x]) t"
    by (auto simp: released_def seen_def ex_less_Suc nth_append hb_prefix)
  ultimately show ?thesis by auto
qed

lemma hb_take: "f < r \<Longrightarrow> r \<le> length es \<Longrightarrow> hb (take r es) i f = hb es i f"
  using hb_prefix [of f "take r es" "drop r es" i] by simp

lemma heads_take: "r \<le> length es \<Longrightarrow> heads (take r es) l w r = heads es l w r"
  using heads_prefix [of r "take r es" "drop r es" l w] by simp

lemma heads_snoc:
  "heads (es @ [x]) l w (Suc (length es)) \<longleftrightarrow>
     w = length es \<and> writes l x \<or> heads es l w (length es) \<and> \<not> breaks l x"
  by (auto simp: heads_def nth_append less_Suc_eq)

lemma carried_snoc:
  "carried (es @ [x]) l = (if breaks l x then {} else carried es l) \<union> (if writes l x then released (es @ [x]) (actor x) else {})"
proof (rule set_eqI)
  fix i
  have r: "i \<in> released (es @ [x]) (actor x) \<longleftrightarrow>
      (\<exists>f. f \<le> length es \<and> is_release ((es @ [x]) ! f) \<and> actor ((es @ [x]) ! length es) = actor ((es @ [x]) ! f) \<and>
         hb_eq (es @ [x]) i f)"
    by (auto simp: released_def less_Suc_eq_le)
  have "i \<in> carried (es @ [x]) l \<longleftrightarrow>
      (\<exists>f w. f \<le> w \<and> (w = length es \<and> writes l x \<or> heads es l w (length es) \<and> \<not> breaks l x) \<and>
         is_release ((es @ [x]) ! f) \<and> actor ((es @ [x]) ! w) = actor ((es @ [x]) ! f) \<and> hb_eq (es @ [x]) i f)"
    by (simp add: carried_def heads_snoc)
  also have "\<dots> \<longleftrightarrow> writes l x \<and> i \<in> released (es @ [x]) (actor x) \<or>
      \<not> breaks l x \<and> (\<exists>f w. f \<le> w \<and> heads es l w (length es) \<and> is_release ((es @ [x]) ! f) \<and>
         actor ((es @ [x]) ! w) = actor ((es @ [x]) ! f) \<and> hb_eq (es @ [x]) i f)"
    unfolding r by blast
  also have "(\<exists>f w. f \<le> w \<and> heads es l w (length es) \<and> is_release ((es @ [x]) ! f) \<and>
         actor ((es @ [x]) ! w) = actor ((es @ [x]) ! f) \<and> hb_eq (es @ [x]) i f) \<longleftrightarrow> i \<in> carried es l"
  proof -
    have "f < length es" "w < length es" if "f \<le> w" "heads es l w (length es)" for f w
      using that by (auto simp: heads_def)
    then have "(f \<le> w \<and> heads es l w (length es) \<and> is_release ((es @ [x]) ! f) \<and>
         actor ((es @ [x]) ! w) = actor ((es @ [x]) ! f) \<and> hb_eq (es @ [x]) i f) \<longleftrightarrow>
        (f \<le> w \<and> heads es l w (length es) \<and> is_release (es ! f) \<and> actor (es ! w) = actor (es ! f) \<and> hb_eq es i f)" for f w
      by (cases "f \<le> w \<and> heads es l w (length es)") (auto simp: nth_append hb_prefix)
    then show ?thesis by (simp add: carried_def)
  qed
  finally show "i \<in> carried (es @ [x]) l \<longleftrightarrow>
      i \<in> (if breaks l x then {} else carried es l) \<union> (if writes l x then released (es @ [x]) (actor x) else {})"
    by auto
qed

lemma acquirable_snoc:
  "acquirable (es @ [x]) t = acquirable es t \<union> {i. actor x = t \<and> (\<exists>l. reads l x \<and> i \<in> carried es l)}"
  by (auto simp: acquirable_def ex_less_Suc nth_append)

lemma seen_last: "actor x = t \<Longrightarrow> seen (es @ [x]) t = {i. hb_eq (es @ [x]) i (length es)}"
proof -
  assume x: "actor x = t"
  have "hb_eq (es @ [x]) i (length es)" if "j < length es" "actor (es ! j) = t" "hb_eq (es @ [x]) i j" for i j
    using that x hb_po [of j "length es" "es @ [x]"] hb_trans [of "es @ [x]" i j "length es"]
    by (auto simp: nth_append)
  with x show ?thesis by (auto simp: seen_def ex_less_Suc nth_append)
qed

lemma freed_snoc:
  "freed_before (es @ [x]) l = (if frees l x then seen (es @ [x]) (actor x) else freed_before es l)"
proof (cases "frees l x")
  case True
  have "f = length es" if "f < Suc (length es)" "\<forall>k. f < k \<and> k < Suc (length es) \<longrightarrow> \<not> frees l ((es @ [x]) ! k)" for f
    using that True by (metis less_Suc_eq lessI nth_append_length)
  with True have "freed_before (es @ [x]) l = {i. hb_eq (es @ [x]) i (length es)}"
    unfolding freed_before_def by auto
  with True show ?thesis by (simp add: seen_last)
next
  case False
  then show ?thesis
    by (auto simp: freed_before_def ex_less_Suc nth_append hb_prefix less_Suc_eq)
qed

lemma sync_with_last:
  "(\<exists>k < length es. hb_eq es i k \<and> sync_with (es @ [x]) k (length es)) \<longleftrightarrow>
     is_acquire x \<and> i \<in> acquirable (es @ [x]) (actor x)"
proof -
  let ?xs = "es @ [x]" and ?n = "length es"
  have c: "i \<in> carried (take r ?xs) l \<longleftrightarrow>
      (\<exists>f w. f \<le> w \<and> heads ?xs l w r \<and> is_release (?xs ! f) \<and> actor (?xs ! w) = actor (?xs ! f) \<and> hb_eq es i f)"
    if r: "r \<le> ?n" for r l
  proof -
    have len: "length (take r ?xs) = r" using r by simp
    have "(f \<le> w \<and> heads (take r ?xs) l w r \<and> is_release (take r ?xs ! f) \<and>
         actor (take r ?xs ! w) = actor (take r ?xs ! f) \<and> hb_eq (take r ?xs) i f) \<longleftrightarrow>
        (f \<le> w \<and> heads ?xs l w r \<and> is_release (?xs ! f) \<and> actor (?xs ! w) = actor (?xs ! f) \<and> hb_eq es i f)" for f w
    proof (cases "f \<le> w \<and> w < r")
      case True
      then have "take r ?xs ! f = ?xs ! f" "take r ?xs ! w = ?xs ! w"
        "heads (take r ?xs) l w r = heads ?xs l w r" "hb (take r ?xs) i f = hb es i f"
        using r heads_take [of r ?xs l w] by (simp_all add: nth_append hb_take [of f r es])
      then show ?thesis by simp
    qed (auto simp: heads_def)
    then show ?thesis unfolding carried_def len by simp
  qed
  have "i \<in> acquirable ?xs (actor x) \<longleftrightarrow>
      (\<exists>r \<le> ?n. \<exists>l. actor (?xs ! r) = actor x \<and> reads l (?xs ! r) \<and> i \<in> carried (take r ?xs) l)"
    by (auto simp: acquirable_def less_Suc_eq_le)
  also have "\<dots> \<longleftrightarrow> (\<exists>r l f w. r \<le> ?n \<and> actor (?xs ! r) = actor x \<and> reads l (?xs ! r) \<and>
      f \<le> w \<and> heads ?xs l w r \<and> is_release (?xs ! f) \<and> actor (?xs ! w) = actor (?xs ! f) \<and> hb_eq es i f)"
    using c by blast
  finally have a: "i \<in> acquirable ?xs (actor x) \<longleftrightarrow> \<dots>" .
  have "f < ?n" if "f \<le> w" "heads ?xs l w r" "r \<le> ?n" for f w l r
    using that by (auto simp: heads_def)
  then show ?thesis
    unfolding a sync_with_def nth_append_length by blast
qed

lemma ex_less_disj5:
  "(\<exists>k < n. P k \<and> (A k \<or> B k \<or> C k \<or> D k \<or> E k)) \<longleftrightarrow>
     (\<exists>k < (n :: nat). P k \<and> A k) \<or> (\<exists>k < n. P k \<and> B k) \<or> (\<exists>k < n. P k \<and> C k) \<or> (\<exists>k < n. P k \<and> D k) \<or> (\<exists>k < n. P k \<and> E k)"
  by blast

lemma seen_snoc:
  "seen (es @ [x]) t = (if actor x = t then insert (length es) (seen es t \<union> incoming es x) else seen es t)"
proof (cases "actor x = t")
  case True
  let ?n = "length es"
  have edge: "hb_edge (es @ [x]) k ?n \<longleftrightarrow> actor (es ! k) = t \<or> (\<exists>c. x = EV_Spawn (actor (es ! k)) c) \<or>
      is_release (es ! k) \<and> (\<exists>u. x = EV_Wake (actor (es ! k)) u) \<or>
      (\<exists>u l m. x = EV_Malloc u l m \<and> frees l (es ! k) \<and> (\<forall>m. k < m \<and> m < ?n \<longrightarrow> \<not> frees l (es ! m))) \<or>
      sync_with (es @ [x]) k ?n" if "k < ?n" for k
  proof -
    have f: "(\<forall>m. k < m \<and> m < ?n \<longrightarrow> \<not> frees l ((es @ [x]) ! m)) \<longleftrightarrow> (\<forall>m. k < m \<and> m < ?n \<longrightarrow> \<not> frees l (es ! m))" for l
      by (simp add: nth_append)
    have "(es @ [x]) ! k = es ! k" "(es @ [x]) ! ?n = x" "?n < length (es @ [x])"
      using that by (simp_all add: nth_append)
    with that True show ?thesis
      by (simp only: hb_edge_def f simp_thms)
  qed
  have "hb (es @ [x]) i ?n \<longleftrightarrow> i \<in> seen es t \<union> incoming es x" for i
  proof -
    have "hb (es @ [x]) i ?n \<longleftrightarrow> (\<exists>k < ?n. hb_eq es i k \<and>
        (actor (es ! k) = t \<or> (\<exists>c. x = EV_Spawn (actor (es ! k)) c) \<or>
         is_release (es ! k) \<and> (\<exists>u. x = EV_Wake (actor (es ! k)) u) \<or>
         (\<exists>u l m. x = EV_Malloc u l m \<and> frees l (es ! k) \<and> (\<forall>m. k < m \<and> m < ?n \<longrightarrow> \<not> frees l (es ! m))) \<or>
         sync_with (es @ [x]) k ?n))"
      by (simp only: hb_last edge cong: conj_cong)
    also have "\<dots> \<longleftrightarrow> i \<in> seen es t \<union> incoming es x"
      unfolding ex_less_disj5 sync_with_last
      by (cases x) (auto simp: incoming_def seen_def released_def freed_before_def)
    finally show ?thesis .
  qed
  with True show ?thesis by (auto simp: seen_last)
qed (simp add: seen_other)

section \<open>Clocks as sets of events\<close>

definition ticks :: "mm_event list \<Rightarrow> nat \<Rightarrow> nat" where
  "ticks es u = length (filter (\<lambda>e. ticking e \<and> actor e = u) es)"

text \<open>The number that the event at position \<open>i\<close> has among the events of its thread.\<close>

definition epoch_of :: "mm_event list \<Rightarrow> nat \<Rightarrow> nat" where
  "epoch_of es i = ticks (take (Suc i) es) (actor (es ! i))"

definition clock_of :: "mm_event list \<Rightarrow> vclock \<Rightarrow> nat set \<Rightarrow> bool" where
  "clock_of es v S \<longleftrightarrow> S \<subseteq> {..< length es} \<and> (\<forall>u. v u \<le> ticks es u) \<and>
     (\<forall>i < length es. ticking (es ! i) \<longrightarrow> (i \<in> S \<longleftrightarrow> epoch_of es i \<le> v (actor (es ! i))))"

lemma clock_ofD:
  assumes "clock_of es v S"
  shows "S \<subseteq> {..< length es}" "v u \<le> ticks es u"
    "i < length es \<Longrightarrow> ticking (es ! i) \<Longrightarrow> i \<in> S \<longleftrightarrow> epoch_of es i \<le> v (actor (es ! i))"
  using assms by (simp_all add: clock_of_def)

lemma ticks_Nil [simp]: "ticks [] u = 0"
  by (simp add: ticks_def)

lemma ticks_snoc [simp]: "ticks (es @ [x]) u = (if ticking x \<and> actor x = u then Suc (ticks es u) else ticks es u)"
  by (simp add: ticks_def)

lemma ticks_le: "ticks es u \<le> length es"
  by (simp add: ticks_def)

lemma epoch_of_snoc: "i < length es \<Longrightarrow> epoch_of (es @ [x]) i = epoch_of es i"
  by (simp add: epoch_of_def nth_append)

lemma epoch_of_last: "ticking x \<Longrightarrow> epoch_of (es @ [x]) (length es) = Suc (ticks es (actor x))"
  by (simp add: epoch_of_def)

lemma epoch_of_pos: "i < length es \<Longrightarrow> ticking (es ! i) \<Longrightarrow> 0 < epoch_of es i"
  by (simp add: epoch_of_def take_Suc_conv_app_nth)

lemma epoch_of_le:
  assumes "i < length es"
  shows "epoch_of es i \<le> ticks es (actor (es ! i))"
proof -
  have "ticks es u = ticks (take (Suc i) es) u + ticks (drop (Suc i) es) u" for u
    unfolding ticks_def by (metis append_take_drop_id filter_append length_append)
  then show ?thesis by (simp add: epoch_of_def)
qed

lemma clock_of_empty: "clock_of es (\<lambda>_. 0) {}"
  using epoch_of_pos [of _ es] by (auto simp: clock_of_def)

lemma clock_of_snoc:
  assumes "clock_of es v S"
  shows "clock_of (es @ [x]) v S"
proof -
  note d = clock_ofD [OF assms]
  have "i \<in> S \<longleftrightarrow> epoch_of (es @ [x]) i \<le> v (actor ((es @ [x]) ! i))"
    if "i < Suc (length es)" "ticking ((es @ [x]) ! i)" for i
  proof (cases "i = length es")
    case True
    with that d(1) d(2) [of "actor x"] show ?thesis
      by (auto simp: epoch_of_last not_le)
  next
    case False
    with that d(3) [of i] show ?thesis
      by (simp add: epoch_of_snoc nth_append)
  qed
  with d(1,2) show ?thesis
    unfolding clock_of_def by (auto simp: le_SucI lessThan_Suc)
qed

lemma clock_of_tick:
  assumes c: "clock_of es v S" and own: "v (actor x) = ticks es (actor x)" and x: "ticking x"
  shows "clock_of (es @ [x]) (v(actor x := Suc (v (actor x)))) (insert (length es) S)"
proof -
  note d = clock_ofD [OF clock_of_snoc [OF c, of x]]
  let ?v = "v(actor x := Suc (v (actor x)))"
  have "i \<in> insert (length es) S \<longleftrightarrow> epoch_of (es @ [x]) i \<le> ?v (actor ((es @ [x]) ! i))"
    if i: "i < Suc (length es)" "ticking ((es @ [x]) ! i)" for i
  proof (cases "i = length es")
    case True
    with x own show ?thesis by (simp add: epoch_of_last)
  next
    case False
    with i d(3) [of i] own epoch_of_le [of i es] show ?thesis
      by (auto simp: epoch_of_snoc nth_append)
  qed
  with d(1) clock_ofD(2) [OF c] own x show ?thesis
    unfolding clock_of_def by (auto simp: le_SucI)
qed

lemma clock_of_silent:
  assumes "clock_of es v S" "\<not> ticking x"
  shows "clock_of (es @ [x]) v (insert (length es) S)"
proof -
  note d = clock_ofD [OF clock_of_snoc [OF assms(1), of x]]
  have "i \<in> insert (length es) S \<longleftrightarrow> i \<in> S" if "i < length (es @ [x])" "ticking ((es @ [x]) ! i)" for i
    using that assms(2) by (cases "i = length es") auto
  with d show ?thesis
    unfolding clock_of_def by auto
qed

lemma clock_of_join:
  assumes "clock_of es v S" "clock_of es w T"
  shows "clock_of es (\<lambda>i. max (v i) (w i)) (S \<union> T)"
  using assms unfolding clock_of_def by (auto simp: le_max_iff_disj)

text \<open>Threads outside \<open>1..n\<close> have no events: entries beyond the thread count are zero.\<close>

definition threads_upto :: "nat \<Rightarrow> mm_event list \<Rightarrow> bool" where
  "threads_upto n es \<longleftrightarrow> (\<forall>e \<in> set es. 1 \<le> actor e \<and> actor e \<le> n)"

lemma threads_upto_zero: "threads_upto n es \<Longrightarrow> \<not> (1 \<le> u \<and> u \<le> n) \<Longrightarrow> ticks es u = 0"
  by (auto simp: threads_upto_def ticks_def filter_empty_conv)

lemma threads_upto_mono: "threads_upto n es \<Longrightarrow> n \<le> m \<Longrightarrow> threads_upto m es"
  by (auto simp: threads_upto_def)

lemma clock_of_Join:
  assumes "clock_of es v S" "clock_of es w T" "threads_upto n es"
  shows "clock_of es (clock_Join n w v) (S \<union> T)"
proof -
  have "clock_Join n w v = (\<lambda>i. max (v i) (w i))"
    using clock_ofD(2) [OF assms(1)] clock_ofD(2) [OF assms(2)] threads_upto_zero [OF assms(3)]
    by (auto simp: clock_Join_def fun_eq_iff) (metis le_zero_eq max_0R)+
  then show ?thesis using clock_of_join [OF assms(1,2)] by simp
qed

lemma clock_of_Assign:
  assumes "clock_of es w T" "clock_of es v S" "threads_upto n es"
  shows "clock_of es (clock_Assign n w v) T"
proof -
  have "clock_Assign n w v = w"
    using clock_ofD(2) [OF assms(1)] clock_ofD(2) [OF assms(2)] threads_upto_zero [OF assms(3)]
    by (auto simp: clock_Assign_def fun_eq_iff) (metis le_zero_eq)+
  then show ?thesis using assms(1) by simp
qed

end
