(* ===== verification/Race_Detector.thy ===== *)
theory Race_Detector
  imports Happens_Before
begin

text \<open>
  The vector clocks of the memory model compute the happens-before order, and the race detector
  reports exactly the accesses that are unordered with an earlier conflicting one.
\<close>

section \<open>The clocks\<close>

definition thread_ok :: "mm_event list \<Rightarrow> nat \<Rightarrow> thread_clock \<Rightarrow> bool" where
  "thread_ok es t c \<longleftrightarrow> clock_of es (tc_current c) (seen es t) \<and> clock_of es (tc_acquire c) (acquirable es t) \<and>
     clock_of es (tc_release c) (released es t) \<and> tc_current c t = ticks es t \<and> tc_epoch c = ticks es t"

lemma thread_okD:
  assumes "thread_ok es t c"
  shows "clock_of es (tc_current c) (seen es t)" "clock_of es (tc_acquire c) (acquirable es t)"
    "clock_of es (tc_release c) (released es t)" "tc_current c t = ticks es t" "tc_epoch c = ticks es t"
  using assms by (simp_all add: thread_ok_def)

definition clocks_ok :: "mm_event list \<Rightarrow> memory_model \<Rightarrow> bool" where
  "clocks_ok es s \<longleftrightarrow> threads_upto (mm_count s) es \<and> (\<forall>t. thread_ok es t (mm_threads s t)) \<and>
     (\<forall>l v. mm_atomics s l = Some v \<longrightarrow> clock_of es (av_clock v) (carried es l)) \<and>
     (\<forall>a. clock_of es (al_free (GetShadowAllocation a s)) (freed_before es a))"

lemma clocks_okD:
  assumes "clocks_ok es s"
  shows "threads_upto (mm_count s) es" "thread_ok es t (mm_threads s t)"
    "mm_atomics s l = Some v \<Longrightarrow> clock_of es (av_clock v) (carried es l)"
    "clock_of es (al_free (GetShadowAllocation a s)) (freed_before es a)"
  using assms by (simp_all add: clocks_ok_def)

lemma clocks_okI:
  assumes "threads_upto (mm_count s) es" "\<And>t. thread_ok es t (mm_threads s t)"
    "\<And>l v. mm_atomics s l = Some v \<Longrightarrow> clock_of es (av_clock v) (carried es l)"
    "\<And>a. clock_of es (al_free (GetShadowAllocation a s)) (freed_before es a)"
  shows "clocks_ok es s"
  using assms by (simp add: clocks_ok_def)

lemma thread_ok_other:
  assumes "thread_ok es t c" "actor x \<noteq> t"
  shows "thread_ok (es @ [x]) t c"
proof -
  have "seen (es @ [x]) t = seen es t" "acquirable (es @ [x]) t = acquirable es t" "released (es @ [x]) t = released es t"
    using assms(2) by (simp_all add: seen_other acquirable_snoc released_snoc)
  with thread_okD [OF assms(1)] assms(2) show ?thesis
    by (auto simp: thread_ok_def clock_of_snoc)
qed

text \<open>The clocks of the acting thread after its tick, before the effect of the event.\<close>

definition ticked :: "mm_event list \<Rightarrow> mm_event \<Rightarrow> thread_clock \<Rightarrow> bool" where
  "ticked es x c \<longleftrightarrow> clock_of (es @ [x]) (tc_current c) (insert (length es) (seen es (actor x))) \<and>
     clock_of (es @ [x]) (tc_acquire c) (acquirable es (actor x)) \<and>
     clock_of (es @ [x]) (tc_release c) (released es (actor x)) \<and>
     tc_current c (actor x) = ticks (es @ [x]) (actor x) \<and> tc_epoch c = ticks (es @ [x]) (actor x)"

lemma epoch_succ_small: "e < 2 ^ 32 - 1 \<Longrightarrow> epoch_succ e = Suc e"
  by (simp add: epoch_succ_def)

lemma ticked_Tick:
  assumes ok: "thread_ok es (actor x) c" and x: "ticking x" and small: "Suc (length es) < 2 ^ 32"
  shows "ticked es x (c\<lparr>tc_current := clock_Tick (actor x) (tc_current c), tc_epoch := epoch_succ (tc_epoch c)\<rparr>)"
proof -
  note d = thread_okD [OF ok]
  have succ: "epoch_succ (ticks es (actor x)) = Suc (ticks es (actor x))"
    using ticks_le [of es "actor x"] small by (intro epoch_succ_small) simp
  show ?thesis
    using clock_of_tick [OF d(1,4) x] d(4,5) x clock_of_snoc [OF d(2), of x] clock_of_snoc [OF d(3), of x]
    by (simp add: ticked_def clock_Tick_def succ)
qed

lemma join_own: "clock_of es w T \<Longrightarrow> v t = ticks es t \<Longrightarrow> clock_Join n w v t = ticks es t"
  using clock_ofD(2) [of es w T t] by (simp add: clock_Join_def)

text \<open>The acting thread at the end of its event: it may acquire, release, or both.\<close>

lemma thread_ok_finish:
  assumes t: "ticked es x c" and up: "threads_upto n (es @ [x])"
    and acq: "clock_of (es @ [x]) (tc_acquire c') (acquirable (es @ [x]) (actor x))"
    and curr: "tc_current c' = (if is_acquire x then clock_Join n (tc_acquire c') (tc_current c) else tc_current c)"
    and rel: "tc_release c' = (if is_release x then clock_Assign n (tc_current c') (tc_release c) else tc_release c)"
    and ep: "tc_epoch c' = tc_epoch c"
    and inc: "incoming es x = (if is_acquire x then acquirable (es @ [x]) (actor x) else {})"
  shows "thread_ok (es @ [x]) (actor x) c'"
proof -
  let ?t = "actor x"
  have d: "clock_of (es @ [x]) (tc_current c) (insert (length es) (seen es ?t))"
    "clock_of (es @ [x]) (tc_release c) (released es ?t)"
    "tc_current c ?t = ticks (es @ [x]) ?t" "tc_epoch c = ticks (es @ [x]) ?t"
    using t by (simp_all add: ticked_def)
  have c: "clock_of (es @ [x]) (tc_current c') (seen (es @ [x]) ?t)"
    using d(1) clock_of_Join [OF d(1) acq up] by (simp add: curr seen_snoc inc)
  moreover have "clock_of (es @ [x]) (tc_release c') (released (es @ [x]) ?t)"
    using d(2) clock_of_Assign [OF c d(2) up] by (simp add: rel released_snoc)
  moreover have "tc_current c' ?t = ticks (es @ [x]) ?t"
    using d(3) join_own [OF acq, of "tc_current c" ?t n] by (simp add: curr)
  ultimately show ?thesis
    using acq d(4) ep by (simp add: thread_ok_def)
qed

lemma threads_upto_snoc: "threads_upto n (es @ [x]) \<longleftrightarrow> threads_upto n es \<and> 1 \<le> actor x \<and> actor x \<le> n"
  by (auto simp: threads_upto_def)

lemma carried_other: "(\<And>l. \<not> writes l x) \<Longrightarrow> (\<And>l. \<not> breaks l x) \<Longrightarrow> carried (es @ [x]) l = carried es l"
  by (simp add: carried_snoc)

lemma clocks_ok_carry:
  assumes ok: "clocks_ok es s" and up: "threads_upto (mm_count s') (es @ [x])"
    and me: "thread_ok (es @ [x]) (actor x) (mm_threads s' (actor x))"
    and others: "\<And>t. t \<noteq> actor x \<Longrightarrow> mm_threads s' t = mm_threads s t"
    and atomics: "\<And>l v. mm_atomics s' l = Some v \<Longrightarrow> clock_of (es @ [x]) (av_clock v) (carried (es @ [x]) l)"
    and allocs: "\<And>a. \<not> frees a x \<Longrightarrow> al_free (GetShadowAllocation a s') = al_free (GetShadowAllocation a s)"
    and free: "\<And>a. frees a x \<Longrightarrow> clock_of (es @ [x]) (al_free (GetShadowAllocation a s')) (seen (es @ [x]) (actor x))"
  shows "clocks_ok (es @ [x]) s'"
proof (rule clocks_okI)
  note d = clocks_okD [OF ok]
  show "threads_upto (mm_count s') (es @ [x])" by (rule up)
  show "thread_ok (es @ [x]) t (mm_threads s' t)" for t
    using me others [of t] thread_ok_other [OF d(2) [of t], of x] by (cases "t = actor x") auto
  show "mm_atomics s' l = Some v \<Longrightarrow> clock_of (es @ [x]) (av_clock v) (carried (es @ [x]) l)" for l v
    by (rule atomics)
  show "clock_of (es @ [x]) (al_free (GetShadowAllocation a s')) (freed_before (es @ [x]) a)" for a
    using free [of a] allocs [of a] clock_of_snoc [OF d(4) [of a], of x] by (simp add: freed_snoc)
qed

lemma incoming_sync: "incoming es (EV_Sync t a) = (if is_acquire (EV_Sync t a) then acquirable (es @ [EV_Sync t a]) t else {})"
  by (simp add: incoming_def del: is_acquire.simps)

lemma incoming_access: "incoming es (EV_Access t a) = {}"
  by (simp add: incoming_def)

lemma GetShadowAtomicVar_Inr: "GetShadowAtomicVar a s = Inr v \<longleftrightarrow> mm_atomics s (ac_loc a) = Some v \<and> \<not> av_dtor v"
  by (auto simp: GetShadowAtomicVar_def split: option.splits)

abbreviation tick_of :: "nat \<Rightarrow> thread_clock \<Rightarrow> thread_clock" where
  "tick_of t c \<equiv> c\<lparr>tc_current := clock_Tick t (tc_current c), tc_epoch := epoch_succ (tc_epoch c)\<rparr>"

text \<open>What a successful atomic action does to the clocks of its thread, and to its location.\<close>

definition sync_clocks :: "nat \<Rightarrow> action \<Rightarrow> memory_model \<Rightarrow> thread_clock \<Rightarrow> thread_clock" where
  "sync_clocks t a s c =
     (let n = mm_count s;
          c1 = (if ac_type a \<in> {AtomicLoad, AtomicRmwLoad}
                then c\<lparr>tc_acquire := clock_Join n (av_clock (the (mm_atomics s (ac_loc a)))) (tc_acquire c)\<rparr> else c);
          c2 = (if is_acquire (EV_Sync t a) then c1\<lparr>tc_current := clock_Join n (tc_acquire c1) (tc_current c1)\<rparr> else c1)
      in if is_release (EV_Sync t a) then c2\<lparr>tc_release := clock_Assign n (tc_current c2) (tc_release c2)\<rparr> else c2)"

definition sync_atomic :: "nat \<Rightarrow> action \<Rightarrow> memory_model \<Rightarrow> vclock \<Rightarrow> nat \<Rightarrow> atomic_var option" where
  "sync_atomic t a s rel l =
     (if l \<noteq> ac_loc a then mm_atomics s l
      else case ac_type a of
        AtomicInit \<Rightarrow> Some \<lparr>av_size = ac_size a, av_clock = clock_Init, av_value = ac_value a, av_dtor = False\<rparr>
      | AtomicStore \<Rightarrow> map_option (\<lambda>v. v\<lparr>av_value := ac_value a, av_clock := clock_Assign (mm_count s) rel (av_clock v)\<rparr>) (mm_atomics s l)
      | AtomicRmwCommit \<Rightarrow> map_option (\<lambda>v. v\<lparr>av_clock := clock_Join (mm_count s) rel (av_clock v), av_value := ac_value a\<rparr>) (mm_atomics s l)
      | AtomicDestroy \<Rightarrow> map_option (\<lambda>v. v\<lparr>av_dtor := True\<rparr>) (mm_atomics s l)
      | _ \<Rightarrow> mm_atomics s l)"

lemma sync_clocks_acquire:
  "tc_acquire (sync_clocks t a s c) =
     (if ac_type a \<in> {AtomicLoad, AtomicRmwLoad}
      then clock_Join (mm_count s) (av_clock (the (mm_atomics s (ac_loc a)))) (tc_acquire c) else tc_acquire c)"
  by (simp add: sync_clocks_def Let_def)

lemma Sync_effect:
  assumes "Sync t a s = Inr (x, s')"
  defines "c \<equiv> sync_clocks t a s (tick_of t (mm_threads s t))"
  shows "s' = s\<lparr>mm_threads := (mm_threads s)(t := c), mm_atomics := sync_atomic t a s (tc_release c)\<rparr>"
    "ac_type a \<in> {AtomicLoad, AtomicRmwLoad, AtomicStore, AtomicRmwCommit, AtomicDestroy} \<Longrightarrow> mm_atomics s (ac_loc a) \<noteq> None"
proof -
  show "ac_type a \<in> {AtomicLoad, AtomicRmwLoad, AtomicStore, AtomicRmwCommit, AtomicDestroy} \<Longrightarrow> mm_atomics s (ac_loc a) \<noteq> None"
    using assms(1)
    by (auto simp: Let_def mm_Tick_def do_AtomicLoad_def do_AtomicRmwLoad_def do_AtomicStore_def do_AtomicRmwCommit_def
        do_AtomicDestroy_def GetShadowAtomicVar_def split: if_splits sum.splits option.splits)
  show "s' = s\<lparr>mm_threads := (mm_threads s)(t := c), mm_atomics := sync_atomic t a s (tc_release c)\<rparr>"
    using assms(1) unfolding c_def
    by (cases "ac_type a"; cases s)
      (auto simp: Let_def mm_Tick_def do_AtomicLoad_def do_AtomicRmwLoad_def do_AtomicStore_def do_AtomicRmwCommit_def
        do_AtomicDestroy_def do_AtomicInit_def do_AtomicDebugLoad_def GetShadowAtomicVar_Inr ThreadFence_def
        AtomicLoadRelaxed_def AtomicStoreRelaxed_def AtomicRmwCommitRelaxed_def FenceAcquire_def FenceRelease_def FenceAcqRel_def
        sync_clocks_def sync_atomic_def fun_eq_iff split: if_splits sum.splits option.splits memory_order.splits)
qed

lemma clocks_ok_Sync:
  assumes ok: "clocks_ok es s" and t: "is_thread s t" and step: "Sync t a s = Inr (r, s')"
    and small: "Suc (length es) < 2 ^ 32"
  shows "clocks_ok (es @ [EV_Sync t a]) s'"
proof -
  let ?x = "EV_Sync t a" and ?old = "tick_of t (mm_threads s t)" and ?n = "mm_count s"
  let ?c = "sync_clocks t a s ?old"
  note d = clocks_okD [OF ok] and eff = Sync_effect [OF step]
  have up: "threads_upto ?n (es @ [?x])"
    using d(1) t by (simp add: threads_upto_snoc)
  have k: "ticked es ?x ?old"
    using ticked_Tick [of es ?x "mm_threads s t"] d(2) [of t] small by simp
  have acq: "clock_of (es @ [?x]) (tc_acquire ?c) (acquirable (es @ [?x]) (actor ?x))"
  proof (cases "ac_type a \<in> {AtomicLoad, AtomicRmwLoad}")
    case True
    with eff(2) obtain v where v: "mm_atomics s (ac_loc a) = Some v" by auto
    have "acquirable (es @ [?x]) t = acquirable es t \<union> carried es (ac_loc a)"
      using True by (auto simp: acquirable_snoc)
    moreover have "clock_of (es @ [?x]) (tc_acquire ?old) (acquirable es t)"
      using k by (simp add: ticked_def)
    ultimately show ?thesis
      using clock_of_Join [OF _ clock_of_snoc [OF d(3) [OF v], of ?x] up] True v
      by (simp add: sync_clocks_acquire)
  next
    case False
    then have "acquirable (es @ [?x]) t = acquirable es t"
      by (auto simp: acquirable_snoc)
    with False k show ?thesis
      by (simp add: sync_clocks_acquire ticked_def)
  qed
  have me: "thread_ok (es @ [?x]) (actor ?x) ?c"
    by (rule thread_ok_finish [OF k up acq])
      (simp_all add: sync_clocks_def Let_def incoming_sync del: is_acquire.simps is_release.simps)
  have at: "clock_of (es @ [?x]) (av_clock v) (carried (es @ [?x]) l)"
    if "sync_atomic t a s (tc_release ?c) l = Some v" for l v
  proof (cases "l = ac_loc a")
    case False
    with that have "clock_of es (av_clock v) (carried es l)" "carried (es @ [?x]) l = carried es l"
      using d(3) [of l v] by (auto simp: sync_atomic_def carried_snoc)
    then show ?thesis by (simp add: clock_of_snoc)
  next
    case True
    have rel: "clock_of (es @ [?x]) (tc_release ?c) (released (es @ [?x]) t)"
      using thread_okD(3) [OF me] by simp
    have old: "clock_of (es @ [?x]) (av_clock w) (carried es l)" if "mm_atomics s l = Some w" for w
      using clock_of_snoc [OF d(3) [OF that]] .
    show ?thesis
      using that True rel old clock_of_Assign [OF rel _ up] clock_of_Join [OF _ rel up] clock_of_empty [of "es @ [?x]"]
      by (cases "ac_type a") (auto simp: sync_atomic_def carried_snoc clock_Init_def)
  qed
  show ?thesis
  proof (rule clocks_ok_carry [OF ok])
    show "threads_upto (mm_count s') (es @ [?x])"
      using up by (simp add: eff(1))
    show "thread_ok (es @ [?x]) (actor ?x) (mm_threads s' (actor ?x))"
      using me by (simp add: eff(1))
    show "mm_atomics s' l = Some v \<Longrightarrow> clock_of (es @ [?x]) (av_clock v) (carried (es @ [?x]) l)" for l v
      using at [of l v] by (simp add: eff(1))
  qed (simp_all add: eff(1) GetShadowAllocation_def)
qed

lemma thread_ok_new:
  assumes "threads_upto n es" "\<not> (1 \<le> t \<and> t \<le> n)"
  shows "thread_ok es t thread_clock_Init"
proof -
  have "actor (es ! j) \<noteq> t" if "j < length es" for j
    using assms that nth_mem [OF that] by (auto simp: threads_upto_def)
  then have "seen es t = {}" "acquirable es t = {}" "released es t = {}"
    by (auto simp: seen_def acquirable_def released_def)
  with clock_of_empty [of es] threads_upto_zero [OF assms] show ?thesis
    by (simp add: thread_ok_def thread_clock_Init_def clock_Init_def)
qed

text \<open>An event that lets its thread see more before its tick: a creation or a wakeup.\<close>

lemma thread_ok_receive:
  assumes c: "thread_ok es (actor x) c" and w: "clock_of es w (incoming es x)" and up: "threads_upto n es"
    and v: "v = clock_Join n w (tc_current c)"
    and x: "ticking x" "\<not> is_release x" "\<And>l. \<not> reads l x" and small: "Suc (length es) < 2 ^ 32"
  shows "thread_ok (es @ [x]) (actor x) (tick_of (actor x) (c\<lparr>tc_current := v\<rparr>))"
proof -
  let ?t = "actor x"
  note d = thread_okD [OF c]
  have cv: "clock_of es v (seen es ?t \<union> incoming es x)"
    unfolding v by (rule clock_of_Join [OF d(1) w up])
  have own: "v ?t = ticks es ?t"
    unfolding v by (rule join_own [where v = "tc_current c" and t = ?t, OF w d(4)])
  have succ: "epoch_succ (ticks es ?t) = Suc (ticks es ?t)"
    using ticks_le [of es ?t] small by (intro epoch_succ_small) simp
  have "clock_of (es @ [x]) (clock_Tick ?t v) (seen (es @ [x]) ?t)"
    using clock_of_tick [OF cv own x(1)] by (simp add: clock_Tick_def own succ seen_snoc)
  moreover have "acquirable (es @ [x]) ?t = acquirable es ?t" "released (es @ [x]) ?t = released es ?t"
    using x by (simp_all add: acquirable_snoc released_snoc)
  ultimately show ?thesis
    using d(2,3,5) x(1) by (simp add: thread_ok_def clock_of_snoc clock_Tick_def own succ)
qed

lemma clocks_ok_other:
  assumes ok: "clocks_ok es s" and up: "threads_upto (mm_count s') (es @ [x])"
    and me: "thread_ok (es @ [x]) (actor x) (mm_threads s' (actor x))"
    and others: "\<And>t. t \<noteq> actor x \<Longrightarrow> mm_threads s' t = mm_threads s t"
    and same: "mm_atomics s' = mm_atomics s" and x: "\<And>t a. x \<noteq> EV_Sync t a"
    and allocs: "\<And>a. \<not> frees a x \<Longrightarrow> al_free (GetShadowAllocation a s') = al_free (GetShadowAllocation a s)"
    and free: "\<And>a. frees a x \<Longrightarrow> clock_of (es @ [x]) (al_free (GetShadowAllocation a s')) (seen (es @ [x]) (actor x))"
  shows "clocks_ok (es @ [x]) s'"
proof (rule clocks_ok_carry [OF ok up me others _ allocs free])
  fix l v assume "mm_atomics s' l = Some v"
  then have "clock_of es (av_clock v) (carried es l)"
    using clocks_okD(3) [OF ok] by (simp add: same)
  moreover have "carried (es @ [x]) l = carried es l"
    using x by (cases x) (auto simp: carried_snoc)
  ultimately show "clock_of (es @ [x]) (av_clock v) (carried (es @ [x]) l)"
    by (simp add: clock_of_snoc)
qed

lemma clocks_ok_Spawn:
  assumes ok: "clocks_ok es s" and p: "is_thread s p" and small: "Suc (length es) < 2 ^ 32"
  defines "c \<equiv> mm_count s + 1"
  shows "clocks_ok (es @ [EV_Spawn p c]) (mm_Spawn p c s)"
proof (rule clocks_ok_other [OF ok])
  note d = clocks_okD [OF ok]
  let ?x = "EV_Spawn p c"
  have up: "threads_upto c es"
    using threads_upto_mono [OF d(1), of c] by (simp add: c_def)
  have new: "thread_ok es c thread_clock_Init"
    using thread_ok_new [OF d(1), of c] by (simp add: c_def)
  have w: "clock_of es (tc_current (mm_threads s p)) (incoming es ?x)"
    using thread_okD(1) [OF d(2)] by (simp add: incoming_def)
  have "clock_Assign c w' clock_Init = clock_Join c w' clock_Init" for w'
    by (simp add: clock_Assign_def clock_Join_def clock_Init_def fun_eq_iff)
  then show "thread_ok (es @ [?x]) (actor ?x) (mm_threads (mm_Spawn p c s) (actor ?x))"
    using thread_ok_receive [where x = ?x and c = thread_clock_Init, OF _ w up refl _ _ _ small] new p
    by (simp add: mm_Spawn_def mm_Tick_def c_def thread_clock_Init_def)
  show "threads_upto (mm_count (mm_Spawn p c s)) (es @ [?x])"
    using up by (simp add: mm_Spawn_def mm_Tick_def c_def threads_upto_snoc)
qed (simp_all add: mm_Spawn_def mm_Tick_def GetShadowAllocation_def)

lemma clocks_ok_Wake:
  assumes ok: "clocks_ok es s" and t: "is_thread s t" and small: "Suc (length es) < 2 ^ 32"
  shows "clocks_ok (es @ [EV_Wake w t]) (mm_Wake w t s)"
proof (rule clocks_ok_other [OF ok])
  note d = clocks_okD [OF ok]
  let ?x = "EV_Wake w t"
  have inc: "clock_of es (tc_release (mm_threads s w)) (incoming es ?x)"
    using thread_okD(3) [OF d(2)] by (simp add: incoming_def)
  show "thread_ok (es @ [?x]) (actor ?x) (mm_threads (mm_Wake w t s) (actor ?x))"
    using thread_ok_receive [where x = ?x, OF _ inc d(1) refl _ _ _ small] d(2) [of t]
    by (simp add: mm_Wake_def mm_Tick_def)
  show "threads_upto (mm_count (mm_Wake w t s)) (es @ [?x])"
    using d(1) t by (simp add: mm_Wake_def mm_Tick_def threads_upto_snoc)
qed (simp_all add: mm_Wake_def mm_Tick_def GetShadowAllocation_def)

lemma clocks_ok_tick:
  assumes ok: "clocks_ok es s" and t: "is_thread s t" and small: "Suc (length es) < 2 ^ 32"
  shows "clocks_ok (es @ [EV_Access t a]) (mm_Tick t s)"
proof (rule clocks_ok_other [OF ok])
  note d = clocks_okD [OF ok]
  let ?x = "EV_Access t a"
  have inc: "clock_of es (\<lambda>_. 0) (incoming es ?x)"
    by (simp add: incoming_access clock_of_empty)
  have "clock_Join n (\<lambda>_. 0) v = v" for n v
    by (simp add: clock_Join_def fun_eq_iff)
  then show "thread_ok (es @ [?x]) (actor ?x) (mm_threads (mm_Tick t s) (actor ?x))"
    using thread_ok_receive [where x = ?x, OF _ inc d(1) refl _ _ _ small] d(2) [of t]
    by (simp add: mm_Tick_def)
  show "threads_upto (mm_count (mm_Tick t s)) (es @ [?x])"
    using d(1) t by (simp add: mm_Tick_def threads_upto_snoc)
qed (simp_all add: mm_Tick_def GetShadowAllocation_def)

lemma thread_ok_silent:
  assumes c: "thread_ok es (actor x) c" and w: "clock_of es w (incoming es x)" and up: "threads_upto n es"
    and x: "\<not> ticking x" "\<not> is_release x" "\<And>l. \<not> reads l x"
  shows "thread_ok (es @ [x]) (actor x) (c\<lparr>tc_current := clock_Join n w (tc_current c)\<rparr>)"
proof -
  note d = thread_okD [OF c]
  have "clock_of (es @ [x]) (clock_Join n w (tc_current c)) (seen (es @ [x]) (actor x))"
    using clock_of_silent [OF clock_of_Join [OF d(1) w up] x(1)] by (simp add: seen_snoc)
  moreover have "acquirable (es @ [x]) (actor x) = acquirable es (actor x)" "released (es @ [x]) (actor x) = released es (actor x)"
    using x by (simp_all add: acquirable_snoc released_snoc)
  ultimately show ?thesis
    using d(2,3,5) x(1) join_own [where v = "tc_current c" and t = "actor x", OF w d(4)] by (simp add: thread_ok_def clock_of_snoc)
qed

lemma clocks_ok_Malloc:
  assumes ok: "clocks_ok es s" and t: "is_thread s t"
  shows "clocks_ok (es @ [EV_Malloc t addr n]) (mm_Malloc t addr n s)"
proof (rule clocks_ok_other [OF ok])
  note d = clocks_okD [OF ok]
  let ?x = "EV_Malloc t addr n"
  have inc: "clock_of es (al_free (GetShadowAllocation addr s)) (incoming es ?x)"
    using d(4) by (simp add: incoming_def)
  show "thread_ok (es @ [?x]) (actor ?x) (mm_threads (mm_Malloc t addr n s) (actor ?x))"
    using thread_ok_silent [where x = ?x, OF _ inc d(1)] d(2) [of t] by (simp add: mm_Malloc_def Let_def)
  show "threads_upto (mm_count (mm_Malloc t addr n s)) (es @ [?x])"
    using d(1) t by (simp add: mm_Malloc_def Let_def threads_upto_snoc)
qed (auto simp: mm_Malloc_def Let_def GetShadowAllocation_def)

lemma clocks_ok_Free:
  assumes ok: "clocks_ok es s" and t: "is_thread s t"
  shows "clocks_ok (es @ [EV_Free t addr]) (mm_Free t addr s)"
proof (rule clocks_ok_other [OF ok])
  note d = clocks_okD [OF ok]
  let ?x = "EV_Free t addr"
  have inc: "clock_of es (\<lambda>_. 0) (incoming es ?x)"
    by (simp add: incoming_def clock_of_empty)
  have "clock_Join n (\<lambda>_. 0) v = v" for n v
    by (simp add: clock_Join_def fun_eq_iff)
  then have me: "thread_ok (es @ [?x]) t (mm_threads s t)"
    using thread_ok_silent [where x = ?x, OF _ inc d(1)] d(2) [of t] by simp
  then show "thread_ok (es @ [?x]) (actor ?x) (mm_threads (mm_Free t addr s) (actor ?x))"
    by (simp add: mm_Free_def Let_def)
  have up: "threads_upto (mm_count s) (es @ [?x])"
    using d(1) t by (simp add: threads_upto_snoc)
  then show "threads_upto (mm_count (mm_Free t addr s)) (es @ [?x])"
    by (simp add: mm_Free_def Let_def)
  show "clock_of (es @ [?x]) (al_free (GetShadowAllocation a (mm_Free t addr s))) (seen (es @ [?x]) (actor ?x))"
    if "frees a ?x" for a
    using that clock_of_Assign [OF thread_okD(1) [OF me] clock_of_snoc [OF d(4) [of addr]] up]
    by (simp add: mm_Free_def Let_def GetShadowAllocation_def)
qed (auto simp: mm_Free_def Let_def GetShadowAllocation_def)

lemma clocks_ok_vars [simp]: "clocks_ok es (s\<lparr>mm_non_atomics := v\<rparr>) = clocks_ok es s"
  by (simp add: clocks_ok_def GetShadowAllocation_def)

section \<open>The variables\<close>

fun accesses :: "nat \<Rightarrow> mm_event \<Rightarrow> bool" where
  "accesses l (EV_Access t a) = (as_loc a = l)"
| "accesses l _ = False"

fun conflicting :: "mm_event \<Rightarrow> mm_event \<Rightarrow> bool" where
  "conflicting (EV_Access t a) (EV_Access u b) = (as_loc a = as_loc b \<and> Conflict (as_type a) (as_type b))"
| "conflicting _ _ = False"

fun is_write :: "mm_event \<Rightarrow> bool" where
  "is_write (EV_Access t a) = IsWrite (as_type a)"
| "is_write _ = False"

text \<open>The record \<open>old\<close> describes the access at position \<open>i\<close>.\<close>

definition logged :: "mm_event list \<Rightarrow> nat \<Rightarrow> nat \<Rightarrow> old_access \<Rightarrow> bool" where
  "logged es l i old \<longleftrightarrow> i < length es \<and>
     (\<exists>a. es ! i = EV_Access (oa_thread old) a \<and> as_loc a = l \<and> as_type a = oa_type old) \<and> oa_epoch old = epoch_of es i"

text \<open>
  Every access so far happened before the last write, or is a read that happened before the last
  read of its thread.
\<close>

definition covered :: "mm_event list \<Rightarrow> nat \<Rightarrow> non_atomic_var \<Rightarrow> nat \<Rightarrow> nat \<Rightarrow> bool" where
  "covered es l var w i \<longleftrightarrow> hb_eq es i w \<or>
     \<not> is_write (es ! i) \<and> (\<exists>r old. nv_last_read var (actor (es ! i)) = Some old \<and> logged es l r old \<and> hb_eq es i r)"

definition var_ok :: "mm_event list \<Rightarrow> nat \<Rightarrow> non_atomic_var \<Rightarrow> bool" where
  "var_ok es l var \<longleftrightarrow>
     (\<exists>w old. nv_last_write var = Some old \<and> logged es l w old \<and> IsWrite (oa_type old) \<and>
        (\<forall>i < length es. accesses l (es ! i) \<longrightarrow> covered es l var w i)) \<and>
     (\<forall>u old. nv_last_read var u = Some old \<longrightarrow> oa_thread old = u \<and> IsRead (oa_type old) \<and> (\<exists>r. logged es l r old))"

lemma var_okE:
  assumes "var_ok es l var"
  obtains w old where "nv_last_write var = Some old" "logged es l w old" "IsWrite (oa_type old)"
    "\<And>i. i < length es \<Longrightarrow> accesses l (es ! i) \<Longrightarrow> covered es l var w i"
  using assms unfolding var_ok_def by blast

lemma var_okD:
  "var_ok es l var \<Longrightarrow> nv_last_read var u = Some old \<Longrightarrow>
     oa_thread old = u \<and> IsRead (oa_type old) \<and> (\<exists>r. logged es l r old)"
  by (simp add: var_ok_def)

lemma var_okI:
  assumes "nv_last_write var = Some old" "logged es l w old" "IsWrite (oa_type old)"
    "\<And>i. i < length es \<Longrightarrow> accesses l (es ! i) \<Longrightarrow> covered es l var w i"
    "\<And>u old. nv_last_read var u = Some old \<Longrightarrow> oa_thread old = u \<and> IsRead (oa_type old) \<and> (\<exists>r. logged es l r old)"
  shows "var_ok es l var"
  using assms unfolding var_ok_def by blast

definition vars_ok :: "mm_event list \<Rightarrow> memory_model \<Rightarrow> bool" where
  "vars_ok es s \<longleftrightarrow>
     (\<forall>l i. mm_non_atomics s l = None \<and> i < length es \<longrightarrow> \<not> accesses l (es ! i)) \<and>
     (\<forall>l var. mm_non_atomics s l = Some var \<longrightarrow> var_ok es l var)"

lemma logged_snoc: "logged es l i old \<Longrightarrow> logged (es @ [x]) l i old"
  by (auto simp: logged_def nth_append epoch_of_snoc)

lemma covered_snoc:
  assumes "covered es l var w i" "i < length es"
  shows "covered (es @ [x]) l var w i"
proof -
  from assms(1) consider "hb_eq es i w"
    | r old where "\<not> is_write (es ! i)" "nv_last_read var (actor (es ! i)) = Some old" "logged es l r old" "hb_eq es i r"
    unfolding covered_def by blast
  then show ?thesis
  proof cases
    case 1
    then show ?thesis by (auto simp: covered_def hb_extend)
  next
    case 2
    with assms(2) logged_snoc [OF 2(3), of x] hb_extend [of es i r "[x]"] show ?thesis
      by (auto simp: covered_def nth_append)
  qed
qed

lemma var_ok_snoc:
  assumes ok: "var_ok es l var" and x: "\<not> accesses l x"
  shows "var_ok (es @ [x]) l var"
proof -
  obtain w old where w: "nv_last_write var = Some old" "logged es l w old" "IsWrite (oa_type old)"
    "\<And>i. i < length es \<Longrightarrow> accesses l (es ! i) \<Longrightarrow> covered es l var w i"
    by (rule var_okE [OF ok]) (rule that; blast)
  show ?thesis
  proof (rule var_okI [OF w(1) logged_snoc [OF w(2)] w(3)])
    show "covered (es @ [x]) l var w i" if "i < length (es @ [x])" "accesses l ((es @ [x]) ! i)" for i
    proof (cases "i < length es")
      case True
      with that w(4) [of i] covered_snoc [of es l var w i x] show ?thesis by (simp add: nth_append)
    next
      case False
      with that x show ?thesis by (simp add: nth_append)
    qed
    show "oa_thread o' = u \<and> IsRead (oa_type o') \<and> (\<exists>r. logged (es @ [x]) l r o')" if "nv_last_read var u = Some o'" for u o'
      using var_okD [OF ok that] logged_snoc by blast
  qed
qed

lemma vars_ok_snoc:
  assumes "vars_ok es s" "\<And>l. \<not> accesses l x"
  shows "vars_ok (es @ [x]) s"
  using assms var_ok_snoc [of es _ _ x]
  by (simp add: vars_ok_def nth_append)

lemma vars_ok_same: "mm_non_atomics s' = mm_non_atomics s \<Longrightarrow> vars_ok es s \<Longrightarrow> vars_ok es s'"
  by (simp add: vars_ok_def)

section \<open>The check\<close>

lemma seen_down: "hb_eq es i j \<Longrightarrow> j \<in> seen es t \<Longrightarrow> i \<in> seen es t"
  unfolding seen_def using hb_trans by blast

lemma seen_self: "i < length es \<Longrightarrow> actor (es ! i) = t \<Longrightarrow> i \<in> seen es t"
  unfolding seen_def by blast

text \<open>After the tick of thread \<open>t\<close>, a recorded access happens before the next access of \<open>t\<close> if \<open>t\<close> has seen it.\<close>

lemma HappensBefore_seen:
  assumes ok: "clocks_ok es s" and t: "is_thread s t" and small: "Suc (length es) < 2 ^ 32"
    and i: "logged es l i old"
  shows "HappensBefore old t (mm_Tick t s) \<longleftrightarrow> i \<in> seen es t"
proof -
  from i obtain a where e: "i < length es" "es ! i = EV_Access (oa_thread old) a" "oa_epoch old = epoch_of es i"
    by (auto simp: logged_def)
  let ?xs = "es @ [EV_Access t a]"
  have "clock_of ?xs (tc_current (mm_threads (mm_Tick t s) t)) (seen ?xs t)"
    using thread_okD(1) [OF clocks_okD(2) [OF clocks_ok_tick [OF ok t small]]] .
  from clock_ofD(3) [OF this, of i] e have "i \<in> seen ?xs t \<longleftrightarrow> HappensBefore old t (mm_Tick t s)"
    by (simp add: HappensBefore_def nth_append epoch_of_snoc)
  with e(1) show ?thesis
    by (simp add: seen_snoc incoming_access)
qed

lemma check_reads_None:
  "check_reads t var s i n = None \<longleftrightarrow>
     (\<forall>u old. i \<le> u \<and> u \<le> n \<and> u \<noteq> t \<and> nv_last_read var u = Some old \<longrightarrow> HappensBefore old t s)"
proof (induction t var s i n rule: check_reads.induct)
  case (1 t var s i n)
  have split: "i \<le> u \<longleftrightarrow> u = i \<or> i + 1 \<le> u" for u by auto
  show ?case
  proof (cases "i \<le> n")
    case True
    with 1 show ?thesis
      by (subst check_reads.simps) (auto simp: split [of] split: option.splits)
  next
    case False
    then show ?thesis by (subst check_reads.simps) auto
  qed
qed

lemma check_reads_Some:
  "check_reads t var s i n = Some old \<Longrightarrow> \<exists>u. u \<noteq> t \<and> nv_last_read var u = Some old \<and> \<not> HappensBefore old t s"
  by (induction t var s i n rule: check_reads.induct) (subst (asm) (2) check_reads.simps, auto split: if_splits option.splits)

lemma logged_nth:
  assumes "logged es l i old"
  shows "i < length es" "accesses l (es ! i)" "actor (es ! i) = oa_thread old" "is_write (es ! i) \<longleftrightarrow> IsWrite (oa_type old)"
    "as_loc a = l \<Longrightarrow> conflicting (es ! i) (EV_Access t a) \<longleftrightarrow> IsWrite (oa_type old) \<or> IsWrite (as_type a)"
  using assms by (auto simp: logged_def Conflict_def)

lemma conflicting_iff:
  "conflicting e (EV_Access t a) \<longleftrightarrow> accesses (as_loc a) e \<and> (is_write e \<or> IsWrite (as_type a))"
  by (cases e) (auto simp: Conflict_def)

lemma race_found:
  assumes ok: "clocks_ok es s" and t: "is_thread s t" and small: "Suc (length es) < 2 ^ 32"
    and var: "var_ok es (as_loc a) var" and race: "CheckDataRaces t var a (mm_Tick t s) = Some old"
  shows "\<exists>i. logged es (as_loc a) i old \<and> conflicting (es ! i) (EV_Access t a) \<and> i \<notin> seen es t"
proof -
  obtain w wr where w: "nv_last_write var = Some wr" "logged es (as_loc a) w wr" "IsWrite (oa_type wr)"
    by (rule var_okE [OF var]) (rule that; blast)
  from race w(1) consider "old = wr" "\<not> HappensBefore wr t (mm_Tick t s)"
    | "IsWrite (as_type a)" "check_reads t var (mm_Tick t s) 1 (mm_count (mm_Tick t s)) = Some old"
    by (auto simp: CheckDataRaces_def split: if_splits)
  then show ?thesis
  proof cases
    case 1
    with w HappensBefore_seen [OF ok t small w(2)] logged_nth(5) [OF w(2) refl, of t] show ?thesis
      by blast
  next
    case 2
    from check_reads_Some [OF 2(2)] obtain u where u: "nv_last_read var u = Some old" "\<not> HappensBefore old t (mm_Tick t s)"
      by blast
    from var_okD [OF var u(1)] obtain r where r: "logged es (as_loc a) r old" by blast
    with 2(1) u(2) HappensBefore_seen [OF ok t small r] logged_nth(5) [OF r refl, of t] show ?thesis
      by blast
  qed
qed

lemma no_race_seen:
  assumes ok: "clocks_ok es s" and t: "is_thread s t" and small: "Suc (length es) < 2 ^ 32"
    and var: "var_ok es (as_loc a) var" and none: "CheckDataRaces t var a (mm_Tick t s) = None"
    and i: "i < length es" "conflicting (es ! i) (EV_Access t a)"
  shows "i \<in> seen es t"
proof -
  let ?l = "as_loc a"
  obtain w wr where w: "nv_last_write var = Some wr" "logged es ?l w wr" "IsWrite (oa_type wr)"
    "\<And>i. i < length es \<Longrightarrow> accesses ?l (es ! i) \<Longrightarrow> covered es ?l var w i"
    by (rule var_okE [OF var]) (rule that; blast)
  note nth = logged_nth [OF w(2)]
  have chk: "oa_thread wr = t \<or> HappensBefore wr t (mm_Tick t s)"
    "IsWrite (as_type a) \<Longrightarrow> check_reads t var (mm_Tick t s) 1 (mm_count s) = None"
    using none w(1) by (auto simp: CheckDataRaces_def mm_Tick_def split: if_splits)
  have ws: "w \<in> seen es t"
    using chk(1) HappensBefore_seen [OF ok t small w(2)] seen_self [OF nth(1)] nth(3) by blast
  from i(2) have acc: "accesses ?l (es ! i)" "is_write (es ! i) \<or> IsWrite (as_type a)"
    by (simp_all add: conflicting_iff)
  from w(4) [OF i(1) acc(1)] consider "hb_eq es i w"
    | r old where "\<not> is_write (es ! i)" "nv_last_read var (actor (es ! i)) = Some old" "logged es ?l r old" "hb_eq es i r"
    unfolding covered_def by blast
  then show ?thesis
  proof cases
    case 1
    then show ?thesis using ws by (rule seen_down)
  next
    case 2
    let ?u = "actor (es ! i)"
    have u: "1 \<le> ?u" "?u \<le> mm_count s"
      using clocks_okD(1) [OF ok] nth_mem [OF i(1)] by (auto simp: threads_upto_def)
    from chk(2) acc(2) 2(1,2) u have "?u = t \<or> HappensBefore old t (mm_Tick t s)"
      by (auto simp: check_reads_None)
    then have "?u = t \<or> r \<in> seen es t"
      using HappensBefore_seen [OF ok t small 2(3)] by blast
    then show ?thesis
      using seen_self [OF i(1)] seen_down [OF 2(4)] by blast
  qed
qed

lemma logged_this:
  assumes ok: "clocks_ok es s" and t: "is_thread s t" and small: "Suc (length es) < 2 ^ 32"
  shows "logged (es @ [EV_Access t a]) (as_loc a) (length es) (this_access t a (mm_Tick t s))"
  using thread_okD(5) [OF clocks_okD(2) [OF clocks_ok_tick [OF ok t small, of a], of t]]
  by (simp add: logged_def this_access_def epoch_of_last [of "EV_Access t a"])

lemma seen_hb: "i \<in> seen es (actor x) \<Longrightarrow> hb (es @ [x]) i (length es)"
proof -
  assume i: "i \<in> seen es (actor x)"
  then have "i \<in> seen (es @ [x]) (actor x)"
    by (simp add: seen_snoc)
  moreover have "i < length es"
    using i by (auto simp: seen_def dest: hb_less)
  ultimately show ?thesis by (auto simp: seen_last)
qed

lemma hb_seen:
  assumes "i < length es"
  shows "hb (es @ [EV_Access t a]) i (length es) \<longleftrightarrow> i \<in> seen es t"
proof -
  have "i \<in> seen (es @ [EV_Access t a]) t \<longleftrightarrow> hb_eq (es @ [EV_Access t a]) i (length es)"
    using seen_last [of "EV_Access t a" t es] by simp
  with assms show ?thesis by (simp add: seen_snoc incoming_access)
qed

lemma var_ok_write:
  assumes ok: "clocks_ok es s" and t: "is_thread s t" and small: "Suc (length es) < 2 ^ 32"
    and a: "IsWrite (as_type a)"
    and all: "\<And>i. i < length es \<Longrightarrow> accesses (as_loc a) (es ! i) \<Longrightarrow> i \<in> seen es t"
    and var: "nv_last_write var = Some (this_access t a (mm_Tick t s))"
    and rd: "\<And>u old. nv_last_read var u = Some old \<Longrightarrow>
        oa_thread old = u \<and> IsRead (oa_type old) \<and> (\<exists>r. logged es (as_loc a) r old)"
  shows "var_ok (es @ [EV_Access t a]) (as_loc a) var"
proof (rule var_okI [OF var logged_this [OF ok t small]])
  let ?x = "EV_Access t a"
  show "covered (es @ [?x]) (as_loc a) var (length es) i"
    if "i < length (es @ [?x])" "accesses (as_loc a) ((es @ [?x]) ! i)" for i
  proof (cases "i = length es")
    case False
    with that all [of i] seen_hb [of i es ?x] show ?thesis
      by (simp add: covered_def nth_append)
  qed (simp add: covered_def)
  show "oa_thread old = u \<and> IsRead (oa_type old) \<and> (\<exists>r. logged (es @ [?x]) (as_loc a) r old)"
    if "nv_last_read var u = Some old" for u old
    using rd [OF that] logged_snoc by blast
qed (use a in \<open>simp add: this_access_def\<close>)

lemma var_ok_read:
  assumes ok: "clocks_ok es s" and t: "is_thread s t" and small: "Suc (length es) < 2 ^ 32"
    and a: "IsRead (as_type a)" and var: "var_ok es (as_loc a) var"
    and var': "var' = var\<lparr>nv_last_read := (nv_last_read var)(t \<mapsto> this_access t a (mm_Tick t s))\<rparr>"
  shows "var_ok (es @ [EV_Access t a]) (as_loc a) var'"
proof -
  let ?x = "EV_Access t a" and ?l = "as_loc a"
  obtain w wr where w: "nv_last_write var = Some wr" "logged es ?l w wr" "IsWrite (oa_type wr)"
    "\<And>i. i < length es \<Longrightarrow> accesses ?l (es ! i) \<Longrightarrow> covered es ?l var w i"
    by (rule var_okE [OF var]) (rule that; blast)
  note me = logged_this [OF ok t small, of a]
  have r: "\<not> is_write ?x" using a by (simp add: IsWrite_def)
  have rd: "nv_last_read var' t = Some (this_access t a (mm_Tick t s))" "\<And>u. u \<noteq> t \<Longrightarrow> nv_last_read var' u = nv_last_read var u"
    by (simp_all add: var')
  show ?thesis
  proof (rule var_okI [OF _ logged_snoc [OF w(2)] w(3)])
    show "nv_last_write var' = Some wr" using w(1) by (simp add: var')
    show "covered (es @ [?x]) ?l var' w i" if "i < length (es @ [?x])" "accesses ?l ((es @ [?x]) ! i)" for i
    proof (cases "i < length es")
      case True
      with w(4) [of i] that have c: "covered (es @ [?x]) ?l var w i"
        by (intro covered_snoc) (simp_all add: nth_append)
      have "hb (es @ [?x]) i (length es)" if "actor (es ! i) = t"
        using hb_po [of i "length es" "es @ [?x]"] True that by (simp add: nth_append)
      with c rd me show ?thesis
        by (cases "actor ((es @ [?x]) ! i) = t") (auto simp: covered_def nth_append True)
    next
      case False
      with that have "i = length es" by simp
      with r rd(1) me show ?thesis by (auto simp: covered_def)
    qed
    show "oa_thread old = u \<and> IsRead (oa_type old) \<and> (\<exists>r. logged (es @ [?x]) ?l r old)" if "nv_last_read var' u = Some old" for u old
      using that var_okD [OF var, of u old] logged_snoc [of es ?l _ old ?x] me a
      by (cases "u = t") (auto simp: var' this_access_def)
  qed
qed

lemma vars_ok_upd:
  assumes "vars_ok es s" "var_ok (es @ [EV_Access t a]) (as_loc a) var"
  shows "vars_ok (es @ [EV_Access t a]) (s\<lparr>mm_non_atomics := (mm_non_atomics s)(as_loc a \<mapsto> var)\<rparr>)"
  using assms var_ok_snoc [of es _ _ "EV_Access t a"]
  by (auto simp: vars_ok_def nth_append)

lemma vars_ok_Access:
  assumes ok: "clocks_ok es s" "vars_ok es s" and t: "is_thread s t" and small: "Suc (length es) < 2 ^ 32"
    and step: "AccessNonAtomicVar t a s = MM_Ok s'"
  shows "clocks_ok (es @ [EV_Access t a]) s' \<and> vars_ok (es @ [EV_Access t a]) s'"
proof -
  let ?l = "as_loc a" and ?s = "mm_Tick t s"
  have same: "mm_non_atomics ?s = mm_non_atomics s" by (simp add: mm_Tick_def)
  have var: "mm_non_atomics s ?l = Some v \<Longrightarrow> var_ok es ?l v" "mm_non_atomics s ?l = None \<Longrightarrow> i < length es \<Longrightarrow> \<not> accesses ?l (es ! i)" for v i
    using ok(2) by (simp_all add: vars_ok_def)
  have seen: "i \<in> seen es t" if "mm_non_atomics s ?l = Some v" "CheckDataRaces t v a ?s = None" "IsWrite (as_type a)"
      "i < length es" "accesses ?l (es ! i)" for v i
    using no_race_seen [OF ok(1) t small var(1) [OF that(1)] that(2,4)] that(3,5) by (simp add: conflicting_iff)
  obtain v where s': "s' = ?s\<lparr>mm_non_atomics := (mm_non_atomics ?s)(?l \<mapsto> v)\<rparr>" and v: "var_ok (es @ [EV_Access t a]) ?l v"
  proof (cases "as_type a = AT_Init")
    case True
    let ?v = "non_atomic_Log (this_access t a ?s) non_atomic_Init"
    have w: "IsWrite (as_type a)" using True by (simp add: IsWrite_def IsRead_def)
    have s': "s' = ?s\<lparr>mm_non_atomics := (mm_non_atomics ?s)(?l \<mapsto> ?v)\<rparr>"
      using step True by (auto simp: AccessNonAtomicVar_def InitNonAtomicVar_def Let_def split: option.splits if_splits)
    have "i \<in> seen es t" if i: "i < length es" "accesses ?l (es ! i)" for i
    proof (cases "mm_non_atomics s ?l")
      case (Some v)
      with step True have "CheckDataRaces t v a ?s = None"
        by (auto simp: AccessNonAtomicVar_def InitNonAtomicVar_def Let_def same split: option.splits if_splits)
      with Some w i show ?thesis by (blast intro: seen)
    qed (use i var(2) in blast)
    then have "var_ok (es @ [EV_Access t a]) ?l ?v"
      using w by (intro var_ok_write [OF ok(1) t small])
        (auto simp: non_atomic_Log_def non_atomic_Init_def this_access_def IsWrite_def)
    with s' that show ?thesis by blast
  next
    case False
    then obtain v0 where v0: "mm_non_atomics s ?l = Some v0" "CheckDataRaces t v0 a ?s = None"
      and s': "s' = ?s\<lparr>mm_non_atomics := (mm_non_atomics ?s)(?l \<mapsto> non_atomic_Log (this_access t a ?s)
            (if as_type a = AT_Destroy then v0\<lparr>nv_dtor := Some (this_access t a ?s)\<rparr> else v0))\<rparr>"
      using step by (auto simp: AccessNonAtomicVar_def AccessLiveNonAtomicVar_def Let_def same split: option.splits)
    let ?v = "non_atomic_Log (this_access t a ?s) (if as_type a = AT_Destroy then v0\<lparr>nv_dtor := Some (this_access t a ?s)\<rparr> else v0)"
    have "var_ok (es @ [EV_Access t a]) ?l ?v"
    proof (cases "IsRead (as_type a)")
      case True
      then show ?thesis
        by (intro var_ok_read [OF ok(1) t small True var(1) [OF v0(1)]])
          (auto simp: non_atomic_Log_def this_access_def IsRead_def)
    next
      case False
      then have w: "IsWrite (as_type a)" by (simp add: IsWrite_def)
      show ?thesis
        using seen [OF v0 w] var_okD [OF var(1) [OF v0(1)]] False
        by (intro var_ok_write [OF ok(1) t small w]) (auto simp: non_atomic_Log_def this_access_def split: if_splits)
    qed
    with s' that show ?thesis by blast
  qed
  with clocks_ok_tick [OF ok(1) t small, of a] vars_ok_upd [OF vars_ok_same [OF same ok(2)] v] show ?thesis
    by simp
qed

section \<open>The detector\<close>

definition race_free :: "mm_event list \<Rightarrow> bool" where
  "race_free es \<longleftrightarrow> (\<forall>i j. i < j \<and> j < length es \<and> conflicting (es ! i) (es ! j) \<longrightarrow> hb es i j)"

lemma race_free_snoc:
  assumes "race_free es" "\<And>i. i < length es \<Longrightarrow> conflicting (es ! i) x \<Longrightarrow> hb (es @ [x]) i (length es)"
  shows "race_free (es @ [x])"
  unfolding race_free_def
proof (intro allI impI)
  fix i j assume ij: "i < j \<and> j < length (es @ [x]) \<and> conflicting ((es @ [x]) ! i) ((es @ [x]) ! j)"
  show "hb (es @ [x]) i j"
  proof (cases "j < length es")
    case True
    with ij assms(1) show ?thesis
      by (auto simp: race_free_def nth_append intro!: hb_extend)
  next
    case False
    with ij have "j = length es" by simp
    with ij assms(2) [of i] show ?thesis by (auto simp: nth_append)
  qed
qed

lemma access_ordered:
  assumes ok: "clocks_ok es s" "vars_ok es s" and t: "is_thread s t" and small: "Suc (length es) < 2 ^ 32"
    and step: "AccessNonAtomicVar t a s = MM_Ok s'" and i: "i < length es" "conflicting (es ! i) (EV_Access t a)"
  shows "hb (es @ [EV_Access t a]) i (length es)"
proof (cases "mm_non_atomics s (as_loc a)")
  case None
  with ok(2) i show ?thesis by (auto simp: vars_ok_def conflicting_iff)
next
  case (Some v)
  then have "CheckDataRaces t v a (mm_Tick t s) = None" "mm_non_atomics (mm_Tick t s) = mm_non_atomics s"
    using step by (auto simp: AccessNonAtomicVar_def InitNonAtomicVar_def AccessLiveNonAtomicVar_def Let_def mm_Tick_def
        split: option.splits if_splits)
  moreover have "var_ok es (as_loc a) v"
    using ok(2) Some by (simp add: vars_ok_def)
  ultimately have "i \<in> seen es t"
    using i by (intro no_race_seen [OF ok(1) t small])
  with i(1) show ?thesis by (simp add: hb_seen)
qed

lemma access_race:
  assumes ok: "clocks_ok es s" "vars_ok es s" and t: "is_thread s t" and small: "Suc (length es) < 2 ^ 32"
    and step: "AccessNonAtomicVar t a s = MM_Race old"
  shows "\<exists>i. logged es (as_loc a) i old \<and> conflicting (es ! i) (EV_Access t a) \<and> \<not> hb (es @ [EV_Access t a]) i (length es)"
proof -
  from step obtain v where v: "mm_non_atomics s (as_loc a) = Some v" "CheckDataRaces t v a (mm_Tick t s) = Some old"
    by (auto simp: AccessNonAtomicVar_def InitNonAtomicVar_def AccessLiveNonAtomicVar_def Let_def mm_Tick_def
        split: option.splits if_splits)
  with ok(2) have "var_ok es (as_loc a) v" by (simp add: vars_ok_def)
  from race_found [OF ok(1) t small this v(2)] obtain i where
    i: "logged es (as_loc a) i old" "conflicting (es ! i) (EV_Access t a)" "i \<notin> seen es t" by blast
  with hb_seen [OF logged_nth(1) [OF i(1)], of t a] show ?thesis by blast
qed

definition mm_inv :: "mm_event list \<Rightarrow> memory_model \<Rightarrow> bool" where
  "mm_inv es s \<longleftrightarrow> clocks_ok es s \<and> vars_ok es s \<and> race_free es"

lemma mm_inv_silent:
  assumes "mm_inv es s" "clocks_ok (es @ [x]) s'" "mm_non_atomics s' = mm_non_atomics s" "\<And>l. \<not> accesses l x"
  shows "mm_inv (es @ [x]) s'"
proof -
  have "\<not> conflicting e x" for e
    using assms(4) by (cases x; cases e) auto
  then show ?thesis
    using assms vars_ok_same [OF assms(3) vars_ok_snoc [of es s x]] race_free_snoc [of es x] by (auto simp: mm_inv_def)
qed

lemma mm_inv_step:
  assumes inv: "mm_inv es s" and step: "mm_ok x s = Some s'" and small: "Suc (length es) < 2 ^ 32"
  shows "mm_inv (es @ [x]) s'"
proof -
  have ok: "clocks_ok es s" "vars_ok es s" "race_free es" using inv by (simp_all add: mm_inv_def)
  have st: "mm_step x s = Some (MM_Ok s')"
    using step by (auto simp: mm_ok_def split: option.splits mm_result.splits)
  show ?thesis
  proof (cases x)
    case (EV_Spawn p c)
    with st clocks_ok_Spawn [OF ok(1), of p] small show ?thesis
      by (intro mm_inv_silent [OF inv]) (auto simp: mm_Spawn_def mm_Tick_def Let_def split: if_splits)
  next
    case (EV_Wake w t)
    with st clocks_ok_Wake [OF ok(1), of t w] small show ?thesis
      by (intro mm_inv_silent [OF inv]) (auto simp: mm_Wake_def mm_Tick_def split: if_splits)
  next
    case (EV_Sync t a)
    with st obtain r where r: "is_thread s t" "Sync t a s = Inr (r, s')"
      by (auto simp del: Sync.simps split: if_splits sum.splits)
    with clocks_ok_Sync [OF ok(1) r small] Sync_effect(1) [OF r(2)] EV_Sync show ?thesis
      by (intro mm_inv_silent [OF inv]) auto
  next
    case (EV_Access t a)
    with st have r: "is_thread s t" "AccessNonAtomicVar t a s = MM_Ok s'" by (auto split: if_splits)
    with vars_ok_Access [OF ok(1,2) r(1) small r(2)] access_ordered [OF ok(1,2) r(1) small r(2)] EV_Access ok(3) show ?thesis
      by (auto simp: mm_inv_def intro: race_free_snoc)
  next
    case (EV_Malloc t addr n)
    with st clocks_ok_Malloc [OF ok(1), of t addr n] show ?thesis
      by (intro mm_inv_silent [OF inv]) (auto simp: mm_Malloc_def Let_def split: if_splits)
  next
    case (EV_Free t addr)
    with st clocks_ok_Free [OF ok(1), of t addr] show ?thesis
      by (intro mm_inv_silent [OF inv]) (auto simp: mm_Free_def Let_def split: if_splits)
  qed
qed

lemma mm_inv_init: "mm_inv [] mm_init"
  by (auto simp: mm_inv_def mm_init_def vars_ok_def race_free_def clocks_ok_def thread_ok_def threads_upto_def
      thread_clock_Init_def clock_Init_def seen_def released_def acquirable_def freed_before_def GetShadowAllocation_def
      clock_of_empty)

lemma mm_inv_exec: "exec mm_ok mm_init es = Some s \<Longrightarrow> length es < 2 ^ 32 \<Longrightarrow> mm_inv es s"
proof (induction es arbitrary: s rule: rev_induct)
  case (snoc x es)
  then obtain s' where "exec mm_ok mm_init es = Some s'" "mm_ok x s' = Some s"
    by (auto simp: exec_append split: option.splits)
  with snoc mm_inv_step [of es s' x s] show ?case by simp
qed (simp add: mm_inv_init)

section \<open>Properties\<close>

text \<open>
  C3: the race detector of the simulator is exact. As long as no 32-bit epoch can have wrapped
  around, in a trace without reports any two conflicting accesses are ordered by happens-before; an
  access reported as a race conflicts with the earlier access named in the report and is not ordered
  after it; and an access that is let through is ordered after every earlier conflicting one.
\<close>

theorem race_detector_exact:
  assumes "exec mm_ok mm_init es = Some s" "Suc (length es) < 2 ^ 32" "1 \<le> t" "t \<le> mm_count s"
  shows "(\<forall>i j. i < j \<and> j < length es \<and> conflicting (es ! i) (es ! j) \<longrightarrow> hb es i j) \<and>
    (\<forall>old. mm_step (EV_Access t a) s = Some (MM_Race old) \<longrightarrow>
       (\<exists>i. logged es (as_loc a) i old \<and> conflicting (es ! i) (EV_Access t a) \<and> \<not> hb (es @ [EV_Access t a]) i (length es))) \<and>
    (\<forall>s'. mm_step (EV_Access t a) s = Some (MM_Ok s') \<longrightarrow>
       (\<forall>i < length es. conflicting (es ! i) (EV_Access t a) \<longrightarrow> hb (es @ [EV_Access t a]) i (length es)))"
proof -
  have ok: "clocks_ok es s" "vars_ok es s" "race_free es"
    using mm_inv_exec [OF assms(1)] assms(2) by (simp_all add: mm_inv_def)
  have t: "is_thread s t" using assms(3,4) by simp
  show ?thesis
    using ok(3) access_race [OF ok(1,2) t assms(2)] access_ordered [OF ok(1,2) t assms(2)] t
    by (simp add: race_free_def)
qed

text \<open>
  Thread 1 publishes a variable through an atomic flag; thread 2 reads the flag with order \<open>mo\<close>.
\<close>

definition message_passing :: "memory_order \<Rightarrow> mm_event list" where
  "message_passing mo =
     [EV_Sync 1 \<lparr>ac_loc = 8, ac_size = 4, ac_type = AtomicInit, ac_value = 0, ac_mo = MO_seq_cst\<rparr>,
      EV_Access 1 \<lparr>as_loc = 16, as_type = AT_Init\<rparr>,
      EV_Spawn 1 2,
      EV_Access 1 \<lparr>as_loc = 16, as_type = AT_Write\<rparr>,
      EV_Sync 1 \<lparr>ac_loc = 8, ac_size = 4, ac_type = AtomicStore, ac_value = 1, ac_mo = MO_release\<rparr>,
      EV_Sync 2 \<lparr>ac_loc = 8, ac_size = 4, ac_type = AtomicLoad, ac_value = 0, ac_mo = mo\<rparr>]"

lemmas mm_eval = mm_ok_def mm_init_def Let_def mm_Tick_def mm_Spawn_def do_AtomicInit_def do_AtomicStore_def do_AtomicLoad_def
  GetShadowAtomicVar_def AtomicLoadRelaxed_def AtomicStoreRelaxed_def FenceAcquire_def FenceRelease_def
  AccessNonAtomicVar_def InitNonAtomicVar_def AccessLiveNonAtomicVar_def CheckDataRaces_def check_reads.simps
  HappensBefore_def this_access_def non_atomic_Log_def non_atomic_Init_def IsWrite_def IsRead_def
  clock_Tick_def clock_Join_def clock_Assign_def clock_Init_def thread_clock_Init_def epoch_succ_def kMaxThreads_def

theorem race_detector_exact_witness:
  "(\<exists>s old. exec mm_ok mm_init (message_passing MO_relaxed) = Some s \<and>
      mm_step (EV_Access 2 \<lparr>as_loc = 16, as_type = AT_Read\<rparr>) s = Some (MM_Race old) \<and> oa_thread old = 1 \<and>
      (\<exists>i. logged (message_passing MO_relaxed) 16 i old)) \<and>
   (\<exists>s s'. exec mm_ok mm_init (message_passing MO_acquire) = Some s \<and>
      mm_step (EV_Access 2 \<lparr>as_loc = 16, as_type = AT_Read\<rparr>) s = Some (MM_Ok s') \<and>
      hb (message_passing MO_acquire @ [EV_Access 2 \<lparr>as_loc = 16, as_type = AT_Read\<rparr>]) 3 6)"
proof
  let ?a = "\<lparr>as_loc = 16, as_type = AT_Read\<rparr>" and ?es = "message_passing MO_relaxed"
  have "\<exists>s old. exec mm_ok mm_init ?es = Some s \<and> mm_step (EV_Access 2 ?a) s = Some (MM_Race old) \<and> oa_thread old = 1 \<and>
      2 \<le> mm_count s"
    by (simp add: message_passing_def mm_eval)
  then obtain s old where s: "exec mm_ok mm_init ?es = Some s" "mm_step (EV_Access 2 ?a) s = Some (MM_Race old)"
    "oa_thread old = 1" "2 \<le> mm_count s" by blast
  have "Suc (length ?es) < 2 ^ 32" by (simp add: message_passing_def)
  with race_detector_exact [OF s(1), of 2 ?a] s(2,4) have "\<exists>i. logged ?es 16 i old" by auto
  with s show "\<exists>s old. exec mm_ok mm_init ?es = Some s \<and> mm_step (EV_Access 2 ?a) s = Some (MM_Race old) \<and> oa_thread old = 1 \<and>
      (\<exists>i. logged ?es 16 i old)" by blast
next
  let ?a = "\<lparr>as_loc = 16, as_type = AT_Read\<rparr>" and ?es = "message_passing MO_acquire"
  have "\<exists>s s'. exec mm_ok mm_init ?es = Some s \<and> mm_step (EV_Access 2 ?a) s = Some (MM_Ok s') \<and> 2 \<le> mm_count s"
    by (simp add: message_passing_def mm_eval)
  then obtain s s' where s: "exec mm_ok mm_init ?es = Some s" "mm_step (EV_Access 2 ?a) s = Some (MM_Ok s')"
    "2 \<le> mm_count s" by blast
  have l: "length ?es = 6" "conflicting (?es ! 3) (EV_Access 2 ?a)"
    by (simp_all add: message_passing_def Conflict_def IsWrite_def IsRead_def eval_nat_numeral)
  have "hb (?es @ [EV_Access 2 ?a]) 3 6"
    using race_detector_exact [OF s(1), of 2 ?a] s(2,3) l by auto
  with s show "\<exists>s s'. exec mm_ok mm_init ?es = Some s \<and> mm_step (EV_Access 2 ?a) s = Some (MM_Ok s') \<and>
      hb (?es @ [EV_Access 2 ?a]) 3 6" by blast
qed

text \<open>
  An access to a variable after its destruction is let through if it is ordered after the
  destruction: \<open>AccessLiveNonAtomicVar\<close> does not look at \<open>dtor\<close>.
\<close>

lemma access_after_destroy_undetected:
  "\<exists>s. exec mm_ok mm_init
     [EV_Access 1 \<lparr>as_loc = 16, as_type = AT_Init\<rparr>, EV_Access 1 \<lparr>as_loc = 16, as_type = AT_Destroy\<rparr>,
      EV_Access 1 \<lparr>as_loc = 16, as_type = AT_Write\<rparr>] = Some s"
  by (simp add: mm_eval)

end
