(* ===== verification/Dfs_Scheduler.thy ===== *)
theory Dfs_Scheduler
  imports Prelude
begin

text \<open>
  The scheduler behind the model checker of twist, \<open>rt/sim/scheduler/dfs\<close>, and the interface
  \<open>IScheduler\<close> it implements.

  The scheduler asks for a decision by \<open>Choose\<close>; its operations are programs of a small monad whose
  only effect is such a question (\<open>Ask\<close>) or the end of the simulation (\<open>Stop\<close>). \<open>run_choices\<close>
  answers the questions the way \<open>Choose\<close> does, from the schedule. The simulated program, with the
  simulator around it, is a deterministic client that calls the scheduler and goes on according to
  the answers, possibly forever. Threads are their numbers.
\<close>

section \<open>Schedules\<close>

datatype branch_type = BT_PickNext | BT_WakeOne | BT_Preempt | BT_RandomChoice | BT_SpuriousWakeup | BT_SpuriousTryFailure

record branch =
  br_type :: branch_type
  br_alts :: nat
  br_index :: nat

type_synonym schedule = "branch list"

text \<open>
  Why a simulation or the whole process stops: \<open>Pruned\<close> ends the simulation; the others are panics, failed
  \<open>WHEELS_VERIFY\<close>s and a null pointer, and end the process.
\<close>

datatype sched_error =
    Pruned | UnexpectedBranchType | NotSupported | NullDereference | VerifyFailed | DigestMismatch | NotDeterministic

datatype 'a cm = Ret 'a | Stop sched_error | Ask branch_type nat "nat \<Rightarrow> 'a cm"

primrec cbind :: "'a cm \<Rightarrow> ('a \<Rightarrow> 'b cm) \<Rightarrow> 'b cm" where
  "cbind (Ret x) f = f x"
| "cbind (Stop e) f = Stop e"
| "cbind (Ask ty n k) f = Ask ty n (\<lambda>i. cbind (k i) f)"

text \<open>\<open>Choose\<close>: the next branch of the schedule, or the first alternative of a new one.\<close>

definition Choose :: "nat \<Rightarrow> branch_type \<Rightarrow> schedule \<Rightarrow> nat \<Rightarrow> sched_error + nat \<times> schedule" where
  "Choose alts ty sch branch =
     (if branch < length sch
      then if br_type (sch ! branch) = ty then Inr (br_index (sch ! branch), sch) else Inl UnexpectedBranchType
      else Inr (0, sch @ [\<lparr>br_type = ty, br_alts = alts, br_index = 0\<rparr>]))"

datatype 'a outcome = Finished 'a | Stopped sched_error

text \<open>The outcome, the schedule and \<open>branch_index_\<close> after it.\<close>

primrec run_choices :: "'a cm \<Rightarrow> schedule \<Rightarrow> nat \<Rightarrow> 'a outcome \<times> schedule \<times> nat" where
  "run_choices (Ret x) sch b = (Finished x, sch, b)"
| "run_choices (Stop e) sch b = (Stopped e, sch, b)"
| "run_choices (Ask ty n k) sch b =
     (case Choose n ty sch b of
        Inl e \<Rightarrow> (Stopped e, sch, b + 1)
      | Inr (i, sch') \<Rightarrow> run_choices (k i) sch' (b + 1))"

text \<open>The next schedule in lexicographic order, if there is one.\<close>

function Backtrack :: "schedule \<Rightarrow> bool \<times> schedule" where
  "Backtrack s =
     (if s = [] then (False, [])
      else if br_index (last s) + 1 = br_alts (last s) then Backtrack (butlast s)
      else (True, butlast s @ [(last s)\<lparr>br_index := br_index (last s) + 1\<rparr>]))"
  by pat_completeness auto
termination
  by (relation "measure length") auto

declare Backtrack.simps [simp del]

section \<open>Sorted lists of threads\<close>

text \<open>\<open>SortedList::Push\<close>: larger elements move up from the end until the place is found.\<close>

fun shift_up :: "nat list \<Rightarrow> nat \<Rightarrow> nat \<Rightarrow> nat list" where
  "shift_up a 0 f = a[0 := f]"
| "shift_up a (Suc i) f = (if a ! i > f then shift_up (a[Suc i := a ! i]) i f else a[Suc i := f])"

definition sl_Push :: "nat \<Rightarrow> nat list \<Rightarrow> nat list" where
  "sl_Push f xs = shift_up (xs @ [f]) (length xs) f"

text \<open>\<open>SortedList::Pop\<close>: the elements after position \<open>i\<close> move down.\<close>

function shift_down :: "nat list \<Rightarrow> nat \<Rightarrow> nat list" where
  "shift_down a j = (if j + 1 < length a then shift_down (a[j := a ! (j + 1)]) (j + 1) else butlast a)"
  by pat_completeness auto
termination
  by (relation "measure (\<lambda>(a, j). length a - j)") auto

declare shift_down.simps [simp del]

definition sl_Pop :: "nat \<Rightarrow> nat list \<Rightarrow> nat \<times> nat list" where
  "sl_Pop i xs = (xs ! i, shift_down xs i)"

definition sl_PopLast :: "nat list \<Rightarrow> nat option \<times> nat list" where
  "sl_PopLast xs = (if xs = [] then (None, xs) else (Some (last xs), butlast xs))"

function sl_find :: "nat \<Rightarrow> nat list \<Rightarrow> nat \<Rightarrow> nat option" where
  "sl_find f xs i = (if i < length xs then if xs ! i = f then Some i else sl_find f xs (i + 1) else None)"
  by pat_completeness auto
termination
  by (relation "measure (\<lambda>(f, xs, i). length xs - i)") auto

declare sl_find.simps [simp del]

definition sl_Remove :: "nat \<Rightarrow> nat list \<Rightarrow> bool \<times> nat list" where
  "sl_Remove f xs = (case sl_find f xs 0 of None \<Rightarrow> (False, xs) | Some i \<Rightarrow> (True, snd (sl_Pop i xs)))"

section \<open>The scheduler\<close>

record dfs_params =
  max_preemptions :: "nat option"
  max_steps :: "nat option"
  force_preempt_after_steps :: "nat option"
  wake_order :: bool
  spurious_wakeups :: bool
  spurious_failures :: bool

text \<open>
  \<open>df_f1\<close> and \<open>df_preemptive\<close> are the fields \<open>sched.f1\<close> and \<open>attrs.preemptive\<close> of the threads, and
  \<open>df_queues\<close> the wait queues made by \<open>NewWaitQueue\<close>.
\<close>

record dfs =
  df_run_queue :: "nat list"
  df_active :: "nat option"
  df_preempts :: nat
  df_steps :: nat
  df_f1 :: "nat \<Rightarrow> nat"
  df_preemptive :: "nat \<Rightarrow> bool"
  df_queues :: "nat \<Rightarrow> nat list"

definition dfs_Start :: dfs where
  "dfs_Start = \<lparr>df_run_queue = [], df_active = None, df_preempts = 0, df_steps = 0, df_f1 = (\<lambda>_. 0),
     df_preemptive = (\<lambda>_. True), df_queues = (\<lambda>_. [])\<rparr>"

definition Either :: "branch_type \<Rightarrow> bool cm" where
  "Either ty = Ask ty 2 (\<lambda>i. Ret (i = 1))"

definition Pick :: "nat list \<Rightarrow> branch_type \<Rightarrow> (nat option \<times> nat list) cm" where
  "Pick xs ty =
     (if xs = [] then Ret (None, xs)
      else if length xs = 1 then Ret (map_prod Some id (sl_Pop 0 xs))
      else Ask ty (length xs) (\<lambda>i. Ret (map_prod Some id (sl_Pop i xs))))"

definition AddStep :: "dfs_params \<Rightarrow> nat option \<Rightarrow> dfs \<Rightarrow> dfs cm" where
  "AddStep p running d =
     (let d' = d\<lparr>df_steps := df_steps d + 1\<rparr> in
      if (case max_steps p of None \<Rightarrow> False | Some m \<Rightarrow> df_steps d' > m) then Stop Pruned
      else Ret (case running of None \<Rightarrow> d' | Some t \<Rightarrow> d'\<lparr>df_f1 := (df_f1 d')(t := df_f1 d' t + 1)\<rparr>))"

definition ForcedPreempt :: "dfs_params \<Rightarrow> nat \<Rightarrow> dfs \<Rightarrow> bool" where
  "ForcedPreempt p t d = (case force_preempt_after_steps p of None \<Rightarrow> False | Some n \<Rightarrow> df_f1 d t \<ge> n)"

definition MaxPreemptsReached :: "dfs_params \<Rightarrow> dfs \<Rightarrow> bool" where
  "MaxPreemptsReached p d = (case max_preemptions p of None \<Rightarrow> False | Some n \<Rightarrow> df_preempts d \<ge> n)"

definition Preempt :: "dfs_params \<Rightarrow> nat \<Rightarrow> dfs \<Rightarrow> bool cm" where
  "Preempt p t d =
     (if \<not> df_preemptive d t then Ret False
      else if df_run_queue d = [] then Ret False
      else if ForcedPreempt p t d then (if MaxPreemptsReached p d then Stop Pruned else Ret True)
      else if MaxPreemptsReached p d then Ret False
      else Either BT_Preempt)"

text \<open>
  The end of \<open>PickNext\<close>: a thread of the run queue; the preempted one goes there afterwards. With an
  empty run queue \<open>ResetSteps\<close> writes through a null pointer.
\<close>

definition pick_queued :: "nat option \<Rightarrow> dfs \<Rightarrow> (nat option \<times> dfs) cm" where
  "pick_queued preempted d =
     cbind (Pick (df_run_queue d) BT_PickNext) (\<lambda>(nxt, rq).
       let d1 = d\<lparr>df_run_queue := rq\<rparr>;
           d2 = (case preempted of
                   None \<Rightarrow> d1
                 | Some t \<Rightarrow> d1\<lparr>df_preempts := df_preempts d1 + 1, df_run_queue := sl_Push t rq\<rparr>)
       in case nxt of
            None \<Rightarrow> Stop NullDereference
          | Some n \<Rightarrow> Ret (Some n, d2\<lparr>df_f1 := (df_f1 d2)(n := 0)\<rparr>))"

definition PickNext :: "dfs_params \<Rightarrow> dfs \<Rightarrow> (nat option \<times> dfs) cm" where
  "PickNext p d0 =
     (let act = df_active d0 in
      cbind (AddStep p act (d0\<lparr>df_active := None\<rparr>)) (\<lambda>d.
        case act of
          None \<Rightarrow> pick_queued None d
        | Some t \<Rightarrow> cbind (Preempt p t d) (\<lambda>preempt. if preempt then pick_queued (Some t) d else Ret (Some t, d))))"

section \<open>Wait queues\<close>

text \<open>
  \<open>BranchingWaitQueue\<close> when the order of wakeups is explored, \<open>FifoWaitQueue\<close> otherwise. A thread
  waits in one queue at a time, so the list it is linked in is the one it is removed from.
\<close>

definition wq_Push :: "dfs_params \<Rightarrow> nat \<Rightarrow> nat list \<Rightarrow> nat list" where
  "wq_Push p t xs = (if wake_order p then sl_Push t xs else xs @ [t])"

definition wq_Pop :: "dfs_params \<Rightarrow> nat list \<Rightarrow> (nat option \<times> nat list) cm" where
  "wq_Pop p xs =
     (if wake_order p then Pick xs BT_WakeOne
      else Ret (case xs of [] \<Rightarrow> (None, []) | t # ts \<Rightarrow> (Some t, ts)))"

definition wq_PopAll :: "dfs_params \<Rightarrow> nat list \<Rightarrow> nat option \<times> nat list" where
  "wq_PopAll p xs =
     (if wake_order p then sl_PopLast xs else case xs of [] \<Rightarrow> (None, []) | t # ts \<Rightarrow> (Some t, ts))"

definition wq_Remove :: "dfs_params \<Rightarrow> nat \<Rightarrow> nat list \<Rightarrow> bool \<times> nat list" where
  "wq_Remove p t xs =
     (if wake_order p then sl_Remove t xs else if t \<in> set xs then (True, remove1 t xs) else (False, xs))"

section \<open>The interface\<close>

datatype sched_call =
    SC_Interrupt nat | SC_SwitchTo nat nat | SC_Yield nat | SC_Wake nat | SC_Spawn nat | SC_Exit nat
  | SC_IsIdle | SC_PickNext | SC_Remove nat
  | SC_RandomNumber | SC_RandomChoice nat | SC_SpuriousWakeup | SC_SpuriousTryFailure
  | SC_Push nat nat | SC_Pop nat | SC_PopAll nat | SC_RemoveWaiter nat nat | SC_IsEmpty nat
  | SC_Preemptive nat bool

datatype sched_resp = SR_Unit | SR_Bool bool | SR_Nat nat | SR_Thread "nat option"

fun dfs_call :: "dfs_params \<Rightarrow> sched_call \<Rightarrow> dfs \<Rightarrow> (sched_resp \<times> dfs) cm" where
  "dfs_call p (SC_Interrupt t) d = Ret (SR_Unit, d\<lparr>df_active := Some t\<rparr>)"
| "dfs_call p (SC_SwitchTo t n) d = Stop NotSupported"
| "dfs_call p (SC_Yield t) d = Ret (SR_Unit, d\<lparr>df_run_queue := sl_Push t (df_run_queue d)\<rparr>)"
| "dfs_call p (SC_Wake t) d = Ret (SR_Unit, d\<lparr>df_run_queue := sl_Push t (df_run_queue d)\<rparr>)"
| "dfs_call p (SC_Spawn t) d = Ret (SR_Unit, d\<lparr>df_run_queue := sl_Push t (df_run_queue d)\<rparr>)"
| "dfs_call p (SC_Exit t) d = cbind (AddStep p (Some t) d) (\<lambda>d'. Ret (SR_Unit, d'))"
| "dfs_call p SC_IsIdle d = Ret (SR_Bool (df_run_queue d = [] \<and> df_active d = None), d)"
| "dfs_call p SC_PickNext d = cbind (PickNext p d) (\<lambda>(t, d'). Ret (SR_Thread t, d'))"
| "dfs_call p (SC_Remove t) d = Ret (SR_Unit, d\<lparr>df_run_queue := snd (sl_Remove t (df_run_queue d))\<rparr>)"
| "dfs_call p SC_RandomNumber d = Stop NotSupported"
| "dfs_call p (SC_RandomChoice n) d = Ask BT_RandomChoice n (\<lambda>i. Ret (SR_Nat i, d))"
| "dfs_call p SC_SpuriousWakeup d =
     (if spurious_wakeups p then cbind (Either BT_SpuriousWakeup) (\<lambda>b. Ret (SR_Bool b, d)) else Ret (SR_Bool False, d))"
| "dfs_call p SC_SpuriousTryFailure d =
     (if spurious_failures p then cbind (Either BT_SpuriousTryFailure) (\<lambda>b. Ret (SR_Bool b, d)) else Ret (SR_Bool False, d))"
| "dfs_call p (SC_Push q t) d = Ret (SR_Unit, d\<lparr>df_queues := (df_queues d)(q := wq_Push p t (df_queues d q))\<rparr>)"
| "dfs_call p (SC_Pop q) d =
     cbind (wq_Pop p (df_queues d q)) (\<lambda>(t, xs). Ret (SR_Thread t, d\<lparr>df_queues := (df_queues d)(q := xs)\<rparr>))"
| "dfs_call p (SC_PopAll q) d =
     (case wq_PopAll p (df_queues d q) of (t, xs) \<Rightarrow> Ret (SR_Thread t, d\<lparr>df_queues := (df_queues d)(q := xs)\<rparr>))"
| "dfs_call p (SC_RemoveWaiter q t) d =
     (case wq_Remove p t (df_queues d q) of (b, xs) \<Rightarrow> Ret (SR_Bool b, d\<lparr>df_queues := (df_queues d)(q := xs)\<rparr>))"
| "dfs_call p (SC_IsEmpty q) d = Ret (SR_Bool (df_queues d q = []), d)"
| "dfs_call p (SC_Preemptive t b) d = Ret (SR_Unit, d\<lparr>df_preemptive := (df_preemptive d)(t := b)\<rparr>)"

section \<open>Simulations\<close>

text \<open>
  A simulated program: it calls the scheduler and goes on by the answers. A program need not end, so
  this is a codatatype. \<open>Finish r\<close> is the end of \<open>Simulator::Run\<close> with the result \<open>r\<close>.
\<close>

codatatype 'r client = Finish 'r | Call sched_call "sched_resp \<Rightarrow> 'r client"

text \<open>A scheduler answers a call and changes its state, or stops. A simulation that does not end gives \<open>None\<close>.\<close>

type_synonym 's scheduler = "sched_call \<Rightarrow> 's \<Rightarrow> sched_resp outcome \<times> 's"

partial_function (option) sim_run :: "'s scheduler \<Rightarrow> 'r client \<Rightarrow> 's \<Rightarrow> ('r outcome \<times> 's) option" where
  "sim_run sched c s =
     (case c of
        Finish r \<Rightarrow> Some (Finished r, s)
      | Call call k \<Rightarrow>
          (case sched call s of
             (Stopped e, s') \<Rightarrow> Some (Stopped e, s')
           | (Finished a, s') \<Rightarrow> sim_run sched (k a) s'))"

text \<open>The DFS scheduler with its schedule and \<open>branch_index_\<close>.\<close>

fun dfs_sched :: "dfs_params \<Rightarrow> (dfs \<times> schedule \<times> nat) scheduler" where
  "dfs_sched p call (d, sch, b) =
     (case run_choices (dfs_call p call d) sch b of
        (Stopped e, sch', b') \<Rightarrow> (Stopped e, d, sch', b')
      | (Finished (a, d'), sch', b') \<Rightarrow> (Finished a, d', sch', b'))"

lemma sim_run_Finish [simp]: "sim_run sched (Finish r) s = Some (Finished r, s)"
  by (simp add: sim_run.simps)

lemma sim_run_Call:
  "sim_run sched (Call call k) s =
     (case sched call s of (Stopped e, s') \<Rightarrow> Some (Stopped e, s') | (Finished a, s') \<Rightarrow> sim_run sched (k a) s')"
  by (subst sim_run.simps) simp

end
