(* ===== verification/Dfs_Explore.thy ===== *)
theory Dfs_Explore
  imports Dfs_Scheduler
begin

text \<open>
  The decisions of the DFS scheduler: the outcomes under all combinations of answers to its
  questions, how \<open>Choose\<close> and \<open>Backtrack\<close> walk through them in lexicographic order, and what
  \<open>PickNext\<close> can decide.
\<close>

section \<open>All outcomes of a simulation\<close>

text \<open>\<open>leaves sim\<close> lists the outcomes under all combinations of answers, in lexicographic order.\<close>

primrec leaves :: "'a cm \<Rightarrow> 'a outcome list" where
  "leaves (Ret x) = [Finished x]"
| "leaves (Stop e) = [Stopped e]"
| "leaves (Ask ty n k) = concat (map (\<lambda>i. leaves (k i)) [0..<n])"

text \<open>Every question has an alternative.\<close>

primrec answerable :: "'a cm \<Rightarrow> bool" where
  "answerable (Ret x) = True"
| "answerable (Stop e) = True"
| "answerable (Ask ty n k) = (0 < n \<and> (\<forall>i<n. answerable (k i)))"

text \<open>A schedule that leads into the simulation, one that leads to its end, and the outcomes from there on.\<close>

primrec follows :: "'a cm \<Rightarrow> schedule \<Rightarrow> bool" where
  "follows (Ret x) bs = (bs = [])"
| "follows (Stop e) bs = (bs = [])"
| "follows (Ask ty n k) bs =
     (case bs of [] \<Rightarrow> True | b # bs' \<Rightarrow> br_type b = ty \<and> br_alts b = n \<and> br_index b < n \<and> follows (k (br_index b)) bs')"

primrec complete :: "'a cm \<Rightarrow> schedule \<Rightarrow> bool" where
  "complete (Ret x) bs = True"
| "complete (Stop e) bs = True"
| "complete (Ask ty n k) bs = (case bs of [] \<Rightarrow> False | b # bs' \<Rightarrow> complete (k (br_index b)) bs')"

primrec rest :: "'a cm \<Rightarrow> schedule \<Rightarrow> 'a outcome list" where
  "rest (Ret x) bs = [Finished x]"
| "rest (Stop e) bs = [Stopped e]"
| "rest (Ask ty n k) bs =
     (case bs of
        [] \<Rightarrow> leaves (Ask ty n k)
      | b # bs' \<Rightarrow> rest (k (br_index b)) bs' @ concat (map (\<lambda>i. leaves (k i)) [Suc (br_index b)..<n]))"

lemma rest_Nil: "rest T [] = leaves T"
  by (cases T) simp_all

lemma follows_Nil: "follows T []"
  by (cases T) simp_all

lemma leaves_nonempty: "answerable T \<Longrightarrow> leaves T \<noteq> []"
proof (induction T)
  case (Ask ty n k)
  then show ?case by (auto intro!: bexI [of _ 0])
qed simp_all

section \<open>One simulation\<close>

lemma run_choices_rest:
  assumes "answerable T" "follows T bs"
  shows "\<exists>bs' r b. run_choices T (pre @ bs) (length pre) = (r, pre @ bs', b) \<and> follows T bs' \<and> complete T bs' \<and>
    rest T bs' = rest T bs \<and> (\<exists>rs. rest T bs = r # rs)"
  using assms
proof (induction T arbitrary: pre bs)
  case (Ask ty n k)
  show ?case
  proof (cases bs)
    case Nil
    let ?b = "\<lparr>br_type = ty, br_alts = n, br_index = 0\<rparr>"
    have n: "0 < n" "answerable (k 0)" using Ask.prems(1) by simp_all
    from Ask.IH [of "k 0" "[]" "pre @ [?b]"] n obtain bs' r rs c where
      "run_choices (k 0) (pre @ [?b]) (Suc (length pre)) = (r, pre @ ?b # bs', c)" "follows (k 0) bs'" "complete (k 0) bs'"
      "rest (k 0) bs' = leaves (k 0)" "leaves (k 0) = r # rs"
      by (auto simp: rest_Nil follows_Nil)
    moreover have "leaves (Ask ty n k) = leaves (k 0) @ concat (map (\<lambda>i. leaves (k i)) [Suc 0..<n])"
      using n(1) by (simp add: upt_conv_Cons)
    ultimately show ?thesis
      using n(1) Nil by (intro exI [of _ "?b # bs'"] exI [of _ r] exI [of _ c]) (simp add: Choose_def)
  next
    case (Cons b bs2)
    with Ask.prems have b: "br_type b = ty" "br_alts b = n" "br_index b < n" "follows (k (br_index b)) bs2" "answerable (k (br_index b))"
      by simp_all
    from Ask.IH [of "k (br_index b)" bs2 "pre @ [b]"] b obtain bs' r rs c where
      "run_choices (k (br_index b)) (pre @ b # bs2) (Suc (length pre)) = (r, pre @ b # bs', c)" "follows (k (br_index b)) bs'"
      "complete (k (br_index b)) bs'" "rest (k (br_index b)) bs' = rest (k (br_index b)) bs2" "rest (k (br_index b)) bs2 = r # rs"
      by auto
    with b Cons show ?thesis
      by (intro exI [of _ "b # bs'"] exI [of _ r] exI [of _ c]) (simp add: Choose_def)
  qed
qed simp_all

section \<open>The next schedule\<close>

lemma Backtrack_Nil: "Backtrack [] = (False, [])"
  by (simp add: Backtrack.simps)

lemma Backtrack_snoc:
  "Backtrack (bs @ [b]) = (if br_index b + 1 = br_alts b then Backtrack bs else (True, bs @ [b\<lparr>br_index := br_index b + 1\<rparr>]))"
  by (subst Backtrack.simps) simp

lemma Backtrack_False: "Backtrack bs = (False, bs') \<Longrightarrow> bs' = []"
  by (induction bs arbitrary: bs' rule: rev_induct) (auto simp: Backtrack_Nil Backtrack_snoc split: if_splits)

lemma Backtrack_Cons:
  "Backtrack (b # bs) =
     (case Backtrack bs of
        (True, bs') \<Rightarrow> (True, b # bs')
      | (False, _) \<Rightarrow> if br_index b + 1 = br_alts b then (False, []) else (True, [b\<lparr>br_index := br_index b + 1\<rparr>]))"
proof (induction bs rule: rev_induct)
  case Nil
  then show ?case
    using Backtrack_snoc [of "[]" b] by (simp add: Backtrack_Nil)
next
  case (snoc c bs)
  then show ?case
    using Backtrack_snoc [of "b # bs" c] by (simp add: Backtrack_snoc)
qed

lemma Backtrack_rest:
  assumes "answerable T" "follows T bs" "complete T bs"
  shows "case Backtrack bs of (True, bs') \<Rightarrow> follows T bs' \<and> (\<exists>r. rest T bs = r # rest T bs') | (False, _) \<Rightarrow> \<exists>r. rest T bs = [r]"
  using assms
proof (induction T arbitrary: bs)
  case (Ask ty n k)
  then obtain b bs2 where bs: "bs = b # bs2" by (cases bs) simp_all
  let ?i = "br_index b"
  have b: "br_type b = ty" "br_alts b = n" "?i < n" "follows (k ?i) bs2" "complete (k ?i) bs2" "answerable (k ?i)"
    using Ask.prems by (simp_all add: bs)
  note IH = Ask.IH [of "k ?i" bs2, OF _ b(6,4,5)]
  show ?case
  proof (cases "Backtrack bs2")
    case (Pair more bs3)
    show ?thesis
    proof (cases more)
      case True
      with IH Pair b show ?thesis by (auto simp: bs Backtrack_Cons)
    next
      case False
      with IH Pair obtain r where r: "rest (k ?i) bs2 = [r]" by auto
      show ?thesis
      proof (cases "?i + 1 = n")
        case True
        with r b Pair False show ?thesis by (simp add: bs Backtrack_Cons)
      next
        case neq: False
        with b(3) have "Suc ?i < n" by simp
        then have "[Suc ?i..<n] = Suc ?i # [Suc (Suc ?i)..<n]" by (rule upt_conv_Cons)
        with r b neq Pair False show ?thesis by (simp add: bs Backtrack_Cons rest_Nil follows_Nil)
      qed
    qed
  qed
qed (simp_all add: Backtrack_Nil)

section \<open>Possible outcomes\<close>

text \<open>A simulation can end with \<open>r\<close> when some answers to its questions lead there.\<close>

inductive can_end :: "'a cm \<Rightarrow> 'a outcome \<Rightarrow> bool" where
  end_Ret: "can_end (Ret x) (Finished x)"
| end_Stop: "can_end (Stop e) (Stopped e)"
| end_Ask: "i < n \<Longrightarrow> can_end (k i) r \<Longrightarrow> can_end (Ask ty n k) r"

inductive_simps can_end_simps [simp]: "can_end (Ret x) r" "can_end (Stop e) r" "can_end (Ask ty n k) r"

lemma can_end_leaves: "can_end T r \<longleftrightarrow> r \<in> set (leaves T)"
  by (induction T) auto

lemma can_end_cbind:
  "can_end (cbind m f) r \<longleftrightarrow>
     (\<exists>x. can_end m (Finished x) \<and> can_end (f x) r) \<or> (\<exists>e. r = Stopped e \<and> can_end m (Stopped e))"
  by (induction m) auto

lemma find_None: "List.find P xs = None \<longleftrightarrow> (\<forall>x \<in> set xs. \<not> P x)"
  by (auto simp: find_None_iff)

lemma find_Some: "List.find P xs = Some x \<Longrightarrow> x \<in> set xs \<and> P x"
  by (auto simp: find_Some_iff)

text \<open>The assertion of \<open>Choose\<close> on the type of a replayed branch: the scheduler itself never stops that way.\<close>

lemma AddStep_stops: "can_end (AddStep p t d) (Stopped e) \<Longrightarrow> e = Pruned"
  by (auto simp: AddStep_def Let_def split: if_splits)

lemma Preempt_stops: "can_end (Preempt p t d) (Stopped e) \<Longrightarrow> e = Pruned"
  by (auto simp: Preempt_def Either_def split: if_splits)

lemma Pick_never_stops: "\<not> can_end (Pick xs ty) (Stopped e)"
  by (auto simp: Pick_def)

lemma pick_queued_stops: "can_end (pick_queued pre d) (Stopped e) \<Longrightarrow> e = NullDereference \<and> df_run_queue d = []"
  by (auto simp: pick_queued_def can_end_cbind Pick_never_stops Pick_def Let_def map_prod_def split_beta split: option.splits if_splits)

lemma PickNext_stops:
  assumes "can_end (PickNext p d) (Stopped e)" "df_active d \<noteq> None \<or> df_run_queue d \<noteq> []"
  shows "e = Pruned"
proof -
  have q: "df_run_queue d' = df_run_queue d" if "can_end (AddStep p t (d\<lparr>df_active := None\<rparr>)) (Finished d')" for t d'
    using that by (auto simp: AddStep_def Let_def split: option.splits if_splits)
  have pre: "df_run_queue d' \<noteq> []" if "can_end (Preempt p t d') (Finished True)" for t d'
    using that by (auto simp: Preempt_def split: if_splits)
  show ?thesis
  proof (cases "df_active d")
    case None
    with assms show ?thesis
      by (auto simp: PickNext_def Let_def can_end_cbind dest: AddStep_stops q dest!: pick_queued_stops)
  next
    case (Some t)
    with assms show ?thesis
      by (auto simp: PickNext_def Let_def can_end_cbind split: if_splits
          dest: AddStep_stops Preempt_stops pre dest!: pick_queued_stops)
  qed
qed

lemma call_stops:
  assumes "can_end (dfs_call p c d) (Stopped e)" "c = SC_PickNext \<Longrightarrow> df_active d \<noteq> None \<or> df_run_queue d \<noteq> []"
  shows "e = Pruned \<or> e = NotSupported"
  using assms by (cases c) (auto simp: can_end_cbind Either_def wq_Pop_def Pick_never_stops
      split: option.splits if_splits prod.splits dest: AddStep_stops PickNext_stops)

section \<open>Every question has an answer\<close>

lemma answerable_cbind:
  "answerable (cbind m f) \<longleftrightarrow> answerable m \<and> (\<forall>x. can_end m (Finished x) \<longrightarrow> answerable (f x))"
  by (induction m) auto

lemma answerable_Pick: "answerable (Pick xs ty)"
  by (auto simp: Pick_def)

lemma answerable_Either: "answerable (Either ty)"
  by (simp add: Either_def)

lemma answerable_PickNext: "answerable (PickNext p d)"
proof -
  have "answerable (AddStep p t e)" for t e
    by (simp add: AddStep_def Let_def)
  moreover have "answerable (Preempt p t e)" for t e
    by (simp add: Preempt_def answerable_Either)
  moreover have "answerable (pick_queued t e)" for t e
    by (auto simp: pick_queued_def answerable_cbind answerable_Pick Let_def split: option.splits)
  ultimately show ?thesis
    by (auto simp: PickNext_def Let_def answerable_cbind split: option.splits)
qed

lemma answerable_call:
  assumes "\<forall>n. c = SC_RandomChoice n \<longrightarrow> 0 < n"
  shows "answerable (dfs_call p c d)"
  using assms
  by (cases c) (auto simp: answerable_cbind answerable_PickNext answerable_Either answerable_Pick AddStep_def Let_def wq_Pop_def
      split: prod.splits)

section \<open>Lists of threads\<close>

lemma shift_down_eq: "j < length a \<Longrightarrow> shift_down a j = take j a @ drop (Suc j) a"
proof (induction a j rule: shift_down.induct)
  case (1 a j)
  show ?case
  proof (cases "Suc j < length a")
    case True
    with 1 have "shift_down a j = take (Suc j) (a[j := a ! Suc j]) @ drop (Suc (Suc j)) (a[j := a ! Suc j])"
      by (subst shift_down.simps) simp
    also have "\<dots> = take j a @ [a ! Suc j] @ drop (Suc (Suc j)) a"
      using 1(2) by (simp add: take_Suc_conv_app_nth)
    finally show ?thesis using True by (simp add: Cons_nth_drop_Suc)
  next
    case False
    with 1(2) have "length a = Suc j" by simp
    then show ?thesis by (subst shift_down.simps) (simp add: butlast_conv_take)
  qed
qed

lemma sl_Pop_eq: "i < length xs \<Longrightarrow> sl_Pop i xs = (xs ! i, take i xs @ drop (Suc i) xs)"
  by (simp add: sl_Pop_def shift_down_eq)

lemma mset_without_nth: "i < length xs \<Longrightarrow> mset xs = add_mset (xs ! i) (mset (take i xs @ drop (Suc i) xs))"
  by (metis add_mset_add_single id_take_nth_drop mset.simps(2) mset_append union_mset_add_mset_right)

lemma mset_sl_Pop: "i < length xs \<Longrightarrow> mset xs = add_mset (fst (sl_Pop i xs)) (mset (snd (sl_Pop i xs)))"
  using mset_without_nth [of i xs] by (simp add: sl_Pop_eq)

lemma sorted_sl_Pop: "i < length xs \<Longrightarrow> sorted xs \<Longrightarrow> sorted (snd (sl_Pop i xs))"
  by (auto simp: sl_Pop_eq sorted_append dest: in_set_takeD in_set_dropD)
    (metis append_take_drop_id Cons_nth_drop_Suc list.set_intros(2) sorted_append)

lemma insort_snoc: "f < z \<Longrightarrow> insort f (xs @ [z]) = insort f xs @ [z]" for f :: nat
  by (induction xs) auto

lemma insort_last: "\<forall>x \<in> set xs. x \<le> f \<Longrightarrow> sorted xs \<Longrightarrow> insort f xs = xs @ [f]" for f :: nat
  by (induction xs) (auto simp: insort_is_Cons)

lemma shift_up_eq:
  "length a = Suc i + length zs \<Longrightarrow> sorted (take i a) \<Longrightarrow> drop (Suc i) a = zs \<Longrightarrow> shift_up a i f = insort f (take i a) @ zs"
proof (induction a i f arbitrary: zs rule: shift_up.induct)
  case (1 a f)
  then show ?case by (cases a) simp_all
next
  case (2 a i f)
  have t: "take (Suc i) a = take i a @ [a ! i]"
    using 2(2) by (simp add: take_Suc_conv_app_nth)
  have le: "x \<le> a ! i" if "x \<in> set (take i a)" for x
    using 2(3) that by (auto simp: t sorted_append)
  show ?case
  proof (cases "a ! i > f")
    case True
    let ?b = "a[Suc i := a ! i]"
    have "shift_up ?b i f = insort f (take i ?b) @ (a ! i # zs)"
    proof (rule 2(1) [OF True])
      show "drop (Suc i) ?b = a ! i # zs"
        using 2(2,4) by (simp add: drop_update_swap Cons_nth_drop_Suc [symmetric])
    qed (use 2(2,3) in \<open>simp_all add: t sorted_append\<close>)
    moreover have "insort f (take i a @ [a ! i]) = insort f (take i a) @ [a ! i]"
      using True by (rule insort_snoc)
    ultimately show ?thesis using True by (simp add: t)
  next
    case False
    with le have "\<forall>x \<in> set (take (Suc i) a). x \<le> f" by (fastforce simp: t)
    with 2(3) have "insort f (take (Suc i) a) = take (Suc i) a @ [f]" by (intro insort_last)
    moreover have "a[Suc i := f] = take (Suc i) a @ f # zs"
      using 2(2,4) by (simp add: upd_conv_take_nth_drop)
    ultimately show ?thesis using False by simp
  qed
qed

lemma sl_Push_insort: "sorted xs \<Longrightarrow> sl_Push f xs = insort f xs"
  unfolding sl_Push_def by (subst shift_up_eq [of _ _ "[]"]) simp_all

lemma picked_in: "(\<exists>i < length xs. x = fst (sl_Pop i xs)) \<longleftrightarrow> x \<in> set xs"
  by (auto simp: sl_Pop_def in_set_conv_nth)

section \<open>The decision of \<open>PickNext\<close>\<close>

definition steps_left :: "dfs_params \<Rightarrow> dfs \<Rightarrow> bool" where
  "steps_left p d = (case max_steps p of None \<Rightarrow> True | Some m \<Rightarrow> df_steps d < m)"

text \<open>The threads that may run next, by the documented parameters of the scheduler.\<close>

definition next_threads :: "dfs_params \<Rightarrow> dfs \<Rightarrow> nat set" where
  "next_threads p d =
     (case df_active d of
        None \<Rightarrow> set (df_run_queue d)
      | Some t \<Rightarrow>
          let full = (case max_preemptions p of None \<Rightarrow> False | Some m \<Rightarrow> m \<le> df_preempts d);
              forced = (case force_preempt_after_steps p of None \<Rightarrow> False | Some n \<Rightarrow> n \<le> df_f1 d t + 1)
          in if \<not> df_preemptive d t \<or> df_run_queue d = [] then {t}
             else if forced then if full then {} else set (df_run_queue d)
             else if full then {t} else insert t (set (df_run_queue d)))"

definition take_queued :: "nat option \<Rightarrow> dfs \<Rightarrow> nat \<Rightarrow> dfs" where
  "take_queued pre d i =
     (case sl_Pop i (df_run_queue d) of
        (n, rq) \<Rightarrow>
          let d1 = d\<lparr>df_run_queue := rq\<rparr>;
              d2 = (case pre of None \<Rightarrow> d1 | Some t \<Rightarrow> d1\<lparr>df_preempts := df_preempts d1 + 1, df_run_queue := sl_Push t rq\<rparr>)
          in d2\<lparr>df_f1 := (df_f1 d2)(n := 0)\<rparr>)"

lemma can_end_pick_queued:
  assumes "df_run_queue d \<noteq> []"
  shows "can_end (pick_queued pre d) r \<longleftrightarrow>
    (\<exists>i < length (df_run_queue d). r = Finished (Some (fst (sl_Pop i (df_run_queue d))), take_queued pre d i))"
  using assms by (simp add: pick_queued_def Pick_def take_queued_def Let_def split_beta)

lemma can_end_PickNext:
  assumes "steps_left p d"
  shows "can_end (PickNext p d) (Finished x) \<longleftrightarrow>
    (case df_active d of
       None \<Rightarrow> can_end (pick_queued None (d\<lparr>df_active := None, df_steps := df_steps d + 1\<rparr>)) (Finished x)
     | Some t \<Rightarrow>
         let e = d\<lparr>df_active := None, df_steps := df_steps d + 1, df_f1 := (df_f1 d)(t := df_f1 d t + 1)\<rparr>
         in can_end (Preempt p t e) (Finished True) \<and> can_end (pick_queued (Some t) e) (Finished x) \<or>
            can_end (Preempt p t e) (Finished False) \<and> x = (Some t, e))"
  using assms
  by (auto simp: PickNext_def Let_def can_end_cbind AddStep_def steps_left_def not_less Suc_le_eq
      split: option.splits if_splits)

lemma take_queued_keeps:
  assumes "i < length (df_run_queue d)" "sorted (df_run_queue d)"
  shows "sorted (df_run_queue (take_queued pre d i))" "df_active (take_queued pre d i) = df_active d"
    "add_mset (fst (sl_Pop i (df_run_queue d))) (mset (df_run_queue (take_queued pre d i))) =
       mset (df_run_queue d) + (case pre of None \<Rightarrow> {#} | Some t \<Rightarrow> {#t#})"
    "df_preempts (take_queued pre d i) = df_preempts d + (case pre of None \<Rightarrow> 0 | Some t \<Rightarrow> 1)"
    "df_queues (take_queued pre d i) = df_queues d"
  using mset_sl_Pop [OF assms(1)] sorted_sl_Pop [OF assms]
  by (auto simp: take_queued_def Let_def split_beta sl_Push_insort sorted_insort split: option.splits)

lemma can_end_Either: "can_end (Either ty) (Finished b)"
  by (cases b) (auto simp: Either_def intro: exI [of _ 1] exI [of _ 0])

definition is_preempted :: "dfs_params \<Rightarrow> nat \<Rightarrow> dfs \<Rightarrow> bool \<Rightarrow> bool" where
  "is_preempted p t d b = can_end (Preempt p t d) (Finished b)"

lemma is_preempted_iff:
  "is_preempted p t d b \<longleftrightarrow>
     (if \<not> df_preemptive d t \<or> df_run_queue d = [] then \<not> b
      else if ForcedPreempt p t d then b \<and> \<not> MaxPreemptsReached p d
      else MaxPreemptsReached p d \<longrightarrow> \<not> b)"
  by (simp add: is_preempted_def Preempt_def can_end_Either)

lemma PickNext_cases:
  assumes s: "steps_left p d" and ne: "df_active d \<noteq> None \<or> df_run_queue d \<noteq> []"
    and x: "can_end (PickNext p d) (Finished (nxt, d'))"
  obtains (queued) i e pre where "i < length (df_run_queue d)" "nxt = Some (fst (sl_Pop i (df_run_queue d)))"
      "d' = take_queued pre e i" "df_run_queue e = df_run_queue d" "df_active e = None" "df_preempts e = df_preempts d"
      "df_queues e = df_queues d" "pre = df_active d" "\<And>t. pre = Some t \<Longrightarrow> \<not> MaxPreemptsReached p d"
  | (continue) t e where "df_active d = Some t" "nxt = Some t" "d' = e" "df_run_queue e = df_run_queue d" "df_active e = None"
      "df_preempts e = df_preempts d" "df_queues e = df_queues d"
proof (cases "df_active d")
  case None
  with x ne show thesis
    by (auto simp: can_end_PickNext [OF s] can_end_pick_queued intro: queued)
next
  case (Some t)
  let ?e = "d\<lparr>df_active := None, df_steps := df_steps d + 1, df_f1 := (df_f1 d)(t := df_f1 d t + 1)\<rparr>"
  from x Some consider "is_preempted p t ?e True" "can_end (pick_queued (Some t) ?e) (Finished (nxt, d'))"
    | "nxt = Some t" "d' = ?e"
    by (auto simp: can_end_PickNext [OF s] Let_def is_preempted_def)
  then show thesis
  proof cases
    case 1
    from 1(1) have ne: "df_run_queue d \<noteq> []" "\<not> MaxPreemptsReached p d"
      by (auto simp: is_preempted_iff MaxPreemptsReached_def split: if_splits option.splits)
    with 1(2) obtain i where "i < length (df_run_queue d)" "nxt = Some (fst (sl_Pop i (df_run_queue d)))"
      "d' = take_queued (Some t) ?e i" by (auto simp: can_end_pick_queued)
    with Some ne show thesis by (intro queued [where e = ?e and pre = "Some t"]) simp_all
  next
    case 2
    with Some show thesis by (intro continue [where e = ?e]) simp_all
  qed
qed

lemma PickNext_threads:
  assumes s: "steps_left p d" and ne: "df_active d \<noteq> None \<or> df_run_queue d \<noteq> []"
  shows "(\<exists>d'. can_end (PickNext p d) (Finished (Some t, d'))) \<longleftrightarrow> t \<in> next_threads p d"
proof (cases "df_active d")
  case None
  with ne show ?thesis
    using picked_in [of "df_run_queue d" t]
    by (auto simp: can_end_PickNext [OF s] can_end_pick_queued next_threads_def)
next
  case (Some u)
  let ?e = "d\<lparr>df_active := None, df_steps := df_steps d + 1, df_f1 := (df_f1 d)(u := df_f1 d u + 1)\<rparr>"
  have q: "(\<exists>d'. can_end (pick_queued (Some u) ?e) (Finished (Some t, d'))) \<longleftrightarrow> t \<in> set (df_run_queue d)"
    if "df_run_queue d \<noteq> []"
    using that picked_in [of "df_run_queue d" t] by (auto simp: can_end_pick_queued)
  have "(\<exists>d'. can_end (PickNext p d) (Finished (Some t, d'))) \<longleftrightarrow>
      is_preempted p u ?e True \<and> t \<in> set (df_run_queue d) \<or> is_preempted p u ?e False \<and> t = u"
    using q Some by (auto simp: can_end_PickNext [OF s] Let_def is_preempted_def [symmetric] is_preempted_iff split: if_splits)
  with Some show ?thesis
    by (auto simp: next_threads_def Let_def is_preempted_iff ForcedPreempt_def MaxPreemptsReached_def split: option.splits if_splits)
qed

section \<open>Properties\<close>

definition any_params :: dfs_params where
  "any_params = \<lparr>max_preemptions = None, max_steps = None, force_preempt_after_steps = None, wake_order = True,
     spurious_wakeups = False, spurious_failures = False\<rparr>"

text \<open>
  C15: what \<open>PickNext\<close> can return. Within the step limit its answers, over all decisions, are exactly
  the threads the parameters allow: any queued thread when none was interrupted; otherwise the
  interrupted thread, or a queued one if preemption is allowed, or only a queued one when preemption
  is forced. No thread is lost or duplicated, the queue stays sorted, and the limit on preemptions
  is kept.
\<close>

theorem dfs_pick_next_choices:
  assumes "steps_left p d" "df_active d \<noteq> None \<or> df_run_queue d \<noteq> []" "sorted (df_run_queue d)"
  shows "{t. \<exists>d'. can_end (PickNext p d) (Finished (Some t, d'))} = next_threads p d \<and>
    (\<forall>nxt d'. can_end (PickNext p d) (Finished (nxt, d')) \<longrightarrow>
       nxt \<noteq> None \<and> df_active d' = None \<and> sorted (df_run_queue d') \<and>
       add_mset (the nxt) (mset (df_run_queue d')) =
         mset (df_run_queue d) + (case df_active d of None \<Rightarrow> {#} | Some t \<Rightarrow> {#t#}) \<and>
       (\<forall>m. max_preemptions p = Some m \<longrightarrow> df_preempts d' \<le> max m (df_preempts d)))"
proof (intro conjI allI impI)
  show "{t. \<exists>d'. can_end (PickNext p d) (Finished (Some t, d'))} = next_threads p d"
    using PickNext_threads [OF assms(1,2)] by blast
next
  fix nxt d' assume x: "can_end (PickNext p d) (Finished (nxt, d'))"
  note c = PickNext_cases [OF assms(1,2) x]
  show "nxt \<noteq> None" by (cases rule: c) simp_all
  show "df_active d' = None" "sorted (df_run_queue d')"
    by (cases rule: c, use take_queued_keeps assms(3) in auto)+
  show "add_mset (the nxt) (mset (df_run_queue d')) =
      mset (df_run_queue d) + (case df_active d of None \<Rightarrow> {#} | Some t \<Rightarrow> {#t#})"
  proof (cases rule: c)
    case (1 i e pre)
    with take_queued_keeps(3) [of i e pre] assms(3) show ?thesis by simp
  qed simp
  show "df_preempts d' \<le> max m (df_preempts d)" if "max_preemptions p = Some m" for m
    by (cases rule: c)
      (use take_queued_keeps(4) assms(3) that in \<open>auto simp: MaxPreemptsReached_def split: option.splits\<close>)
qed

theorem dfs_pick_next_choices_witness:
  "{t. \<exists>d'. can_end (PickNext any_params (dfs_Start\<lparr>df_run_queue := [1, 3], df_active := Some 2\<rparr>)) (Finished (Some t, d'))} =
     {1, 2, 3}"
  using dfs_pick_next_choices [of any_params "dfs_Start\<lparr>df_run_queue := [1, 3], df_active := Some 2\<rparr>"]
  by (auto simp: steps_left_def any_params_def next_threads_def dfs_Start_def)

end
