(* ===== verification/Replay_Scheduler.thy ===== *)
theory Replay_Scheduler
  imports Dfs_Explore
begin

text \<open>
  \<open>rt/sim/scheduler/replay\<close>: a recorder that logs the decisions of another scheduler, and a
  scheduler that replays such a log.

  What both rely on is the contract of \<open>IScheduler\<close>: the run queue and the wait queues behave as sets
  of threads, for a simulator that follows the protocol of the calls. The locale
  \<open>scheduler_contract\<close> states it, the DFS scheduler is shown to satisfy it, and replaying is
  shown correct for every scheduler that does.
\<close>

section \<open>Decisions\<close>

datatype decision =
    D_PickNext nat
  | D_WakeOne "nat option"
  | D_WakeAll "nat option"
  | D_RandomNumber nat
  | D_RandomChoice nat
  | D_SpuriousWakeup bool
  | D_SpuriousTryFailure bool

section \<open>Recorder\<close>

text \<open>The decision logged for an answer.\<close>

fun recorded :: "sched_call \<Rightarrow> sched_resp \<Rightarrow> decision list" where
  "recorded SC_PickNext (SR_Thread (Some t)) = [D_PickNext t]"
| "recorded (SC_Pop q) (SR_Thread w) = [D_WakeOne w]"
| "recorded (SC_PopAll q) (SR_Thread w) = [D_WakeAll w]"
| "recorded SC_RandomNumber (SR_Nat v) = [D_RandomNumber v]"
| "recorded (SC_RandomChoice n) (SR_Nat i) = [D_RandomChoice i]"
| "recorded SC_SpuriousWakeup (SR_Bool b) = [D_SpuriousWakeup b]"
| "recorded SC_SpuriousTryFailure (SR_Bool b) = [D_SpuriousTryFailure b]"
| "recorded _ _ = []"

text \<open>The recorder around a scheduler.\<close>

fun recorder_sched :: "'s scheduler \<Rightarrow> (decision list \<times> 's) scheduler" where
  "recorder_sched und c (D, s) =
     (case und c s of
        (Stopped e, s') \<Rightarrow> (Stopped e, D, s')
      | (Finished a, s') \<Rightarrow> (Finished a, D @ recorded c a, s'))"

text \<open>
  What a recorded simulation can come to when \<open>und\<close> gives all possible answers to a call, whatever
  decides between them.
\<close>

inductive records :: "(sched_call \<Rightarrow> 's \<Rightarrow> (sched_resp \<times> 's) list) \<Rightarrow> 'r client \<Rightarrow> decision list \<Rightarrow> 's \<Rightarrow>
    'r \<Rightarrow> decision list \<Rightarrow> 's \<Rightarrow> bool" for und where
  records_Finish: "records und (Finish r) D s r D s"
| records_Call: "(a, s1) \<in> set (und c s) \<Longrightarrow> records und (k a) (D @ recorded c a) s1 r D' s' \<Longrightarrow>
    records und (Call c k) D s r D' s'"

inductive_simps records_simps: "records und (Finish r) D s r' D' s'" "records und (Call c k) D s r D' s'"

section \<open>The replaying scheduler\<close>

record replay =
  rp_schedule :: "decision list"
  rp_next :: nat
  rp_run_set :: "nat set"
  rp_wait :: "nat \<Rightarrow> nat set"

definition ReplayScheduler :: "decision list \<Rightarrow> replay" where
  "ReplayScheduler D = \<lparr>rp_schedule = D, rp_next = 0, rp_run_set = {}, rp_wait = (\<lambda>_. {})\<rparr>"

text \<open>None stands for a failed \<open>WHEELS_VERIFY\<close>.\<close>

definition replay_Next :: "replay \<Rightarrow> (decision \<times> replay) option" where
  "replay_Next s =
     (if rp_next s < length (rp_schedule s) then Some (rp_schedule s ! rp_next s, s\<lparr>rp_next := rp_next s + 1\<rparr>) else None)"

definition PopById :: "nat \<Rightarrow> nat option \<Rightarrow> replay \<Rightarrow> (sched_resp \<times> replay) option" where
  "PopById q w s =
     (case w of
        None \<Rightarrow> Some (SR_Thread None, s)
      | Some t \<Rightarrow>
          if t \<in> rp_wait s q then Some (SR_Thread (Some t), s\<lparr>rp_wait := (rp_wait s)(q := rp_wait s q - {t})\<rparr>) else None)"

definition replay_PickNext :: "replay \<Rightarrow> (sched_resp \<times> replay) option" where
  "replay_PickNext s =
     (case replay_Next s of
        Some (D_PickNext t, s') \<Rightarrow>
          if t \<in> rp_run_set s' then Some (SR_Thread (Some t), s'\<lparr>rp_run_set := rp_run_set s' - {t}\<rparr>) else None
      | _ \<Rightarrow> None)"

abbreviation run_add :: "nat \<Rightarrow> replay \<Rightarrow> (sched_resp \<times> replay) option" where
  "run_add t s \<equiv> Some (SR_Unit, s\<lparr>rp_run_set := insert t (rp_run_set s)\<rparr>)"

fun replay_call :: "sched_call \<Rightarrow> replay \<Rightarrow> (sched_resp \<times> replay) option" where
  "replay_call (SC_Interrupt t) s = run_add t s"
| "replay_call (SC_SwitchTo t n) s = run_add t s"
| "replay_call (SC_Yield t) s = run_add t s"
| "replay_call (SC_Wake t) s = run_add t s"
| "replay_call (SC_Spawn t) s = run_add t s"
| "replay_call (SC_Exit t) s = Some (SR_Unit, s)"
| "replay_call SC_IsIdle s = Some (SR_Bool (rp_run_set s = {}), s)"
| "replay_call SC_PickNext s = replay_PickNext s"
| "replay_call (SC_Remove t) s = Some (SR_Unit, s\<lparr>rp_run_set := rp_run_set s - {t}\<rparr>)"
| "replay_call SC_RandomNumber s =
     (case replay_Next s of Some (D_RandomNumber v, s') \<Rightarrow> Some (SR_Nat v, s') | _ \<Rightarrow> None)"
| "replay_call (SC_RandomChoice n) s =
     (case replay_Next s of Some (D_RandomChoice i, s') \<Rightarrow> if i < n then Some (SR_Nat i, s') else None | _ \<Rightarrow> None)"
| "replay_call SC_SpuriousWakeup s =
     (case replay_Next s of Some (D_SpuriousWakeup b, s') \<Rightarrow> Some (SR_Bool b, s') | _ \<Rightarrow> None)"
| "replay_call SC_SpuriousTryFailure s =
     (case replay_Next s of Some (D_SpuriousTryFailure b, s') \<Rightarrow> Some (SR_Bool b, s') | _ \<Rightarrow> None)"
| "replay_call (SC_Push q t) s = Some (SR_Unit, s\<lparr>rp_wait := (rp_wait s)(q := insert t (rp_wait s q))\<rparr>)"
| "replay_call (SC_Pop q) s = (case replay_Next s of Some (D_WakeOne w, s') \<Rightarrow> PopById q w s' | _ \<Rightarrow> None)"
| "replay_call (SC_PopAll q) s = (case replay_Next s of Some (D_WakeAll w, s') \<Rightarrow> PopById q w s' | _ \<Rightarrow> None)"
| "replay_call (SC_RemoveWaiter q t) s =
     Some (SR_Bool (t \<in> rp_wait s q), s\<lparr>rp_wait := (rp_wait s)(q := rp_wait s q - {t})\<rparr>)"
| "replay_call (SC_IsEmpty q) s = Some (SR_Bool (rp_wait s q = {}), s)"
| "replay_call (SC_Preemptive t b) s = Some (SR_Unit, s)"

definition replay_sched :: "replay scheduler" where
  "replay_sched c s = (case replay_call c s of None \<Rightarrow> (Stopped VerifyFailed, s) | Some (a, s') \<Rightarrow> (Finished a, s'))"

text \<open>The check in the destructor.\<close>

definition replay_destructor :: "replay \<Rightarrow> bool" where
  "replay_destructor s = (rp_run_set s = {})"

section \<open>The contract\<close>

record sched_spec =
  sp_run :: "nat set"
  sp_active :: "nat option"
  sp_wait :: "nat \<Rightarrow> nat set"

definition sched_start :: sched_spec where
  "sched_start = \<lparr>sp_run = {}, sp_active = None, sp_wait = (\<lambda>_. {})\<rparr>"

text \<open>When the simulator makes which call.\<close>

fun allowed :: "sched_call \<Rightarrow> sched_spec \<Rightarrow> bool" where
  "allowed (SC_Interrupt t) A = (t \<notin> sp_run A \<and> sp_active A = None)"
| "allowed (SC_SwitchTo t n) A = (t \<notin> sp_run A)"
| "allowed (SC_Yield t) A = (t \<notin> sp_run A)"
| "allowed (SC_Wake t) A = (t \<notin> sp_run A)"
| "allowed (SC_Spawn t) A = (t \<notin> sp_run A)"
| "allowed SC_PickNext A = (sp_run A \<noteq> {})"
| "allowed (SC_Remove t) A = (sp_active A \<noteq> Some t)"
| "allowed (SC_RandomChoice n) A = (0 < n)"
| "allowed (SC_Push q t) A = (t \<notin> sp_wait A q)"
| "allowed _ A = True"

text \<open>What it may answer, and the sets of threads then.\<close>

definition popped :: "nat \<Rightarrow> sched_spec \<Rightarrow> sched_resp \<Rightarrow> sched_spec \<Rightarrow> bool" where
  "popped q A a A' \<longleftrightarrow>
     (if sp_wait A q = {} then a = SR_Thread None \<and> A' = A
      else \<exists>t \<in> sp_wait A q. a = SR_Thread (Some t) \<and> A' = A\<lparr>sp_wait := (sp_wait A)(q := sp_wait A q - {t})\<rparr>)"

fun answers :: "sched_call \<Rightarrow> sched_spec \<Rightarrow> sched_resp \<Rightarrow> sched_spec \<Rightarrow> bool" where
  "answers (SC_Interrupt t) A a A' = (a = SR_Unit \<and> A' = A\<lparr>sp_run := insert t (sp_run A), sp_active := Some t\<rparr>)"
| "answers (SC_SwitchTo t n) A a A' = (a = SR_Unit \<and> A' = A\<lparr>sp_run := insert t (sp_run A)\<rparr>)"
| "answers (SC_Yield t) A a A' = (a = SR_Unit \<and> A' = A\<lparr>sp_run := insert t (sp_run A)\<rparr>)"
| "answers (SC_Wake t) A a A' = (a = SR_Unit \<and> A' = A\<lparr>sp_run := insert t (sp_run A)\<rparr>)"
| "answers (SC_Spawn t) A a A' = (a = SR_Unit \<and> A' = A\<lparr>sp_run := insert t (sp_run A)\<rparr>)"
| "answers (SC_Exit t) A a A' = (a = SR_Unit \<and> A' = A)"
| "answers SC_IsIdle A a A' = (a = SR_Bool (sp_run A = {}) \<and> A' = A)"
| "answers SC_PickNext A a A' =
     (\<exists>t \<in> sp_run A. a = SR_Thread (Some t) \<and> A' = A\<lparr>sp_run := sp_run A - {t}, sp_active := None\<rparr>)"
| "answers (SC_Remove t) A a A' = (a = SR_Unit \<and> A' = A\<lparr>sp_run := sp_run A - {t}\<rparr>)"
| "answers SC_RandomNumber A a A' = (\<exists>v. a = SR_Nat v \<and> A' = A)"
| "answers (SC_RandomChoice n) A a A' = (\<exists>i < n. a = SR_Nat i \<and> A' = A)"
| "answers SC_SpuriousWakeup A a A' = (\<exists>b. a = SR_Bool b \<and> A' = A)"
| "answers SC_SpuriousTryFailure A a A' = (\<exists>b. a = SR_Bool b \<and> A' = A)"
| "answers (SC_Push q t) A a A' = (a = SR_Unit \<and> A' = A\<lparr>sp_wait := (sp_wait A)(q := insert t (sp_wait A q))\<rparr>)"
| "answers (SC_Pop q) A a A' = popped q A a A'"
| "answers (SC_PopAll q) A a A' = popped q A a A'"
| "answers (SC_RemoveWaiter q t) A a A' =
     (a = SR_Bool (t \<in> sp_wait A q) \<and> A' = A\<lparr>sp_wait := (sp_wait A)(q := sp_wait A q - {t})\<rparr>)"
| "answers (SC_IsEmpty q) A a A' = (a = SR_Bool (sp_wait A q = {}) \<and> A' = A)"
| "answers (SC_Preemptive t b) A a A' = (a = SR_Unit \<and> A' = A)"

text \<open>
  A simulation that follows the protocol whatever a scheduler within the contract answers. It ends with
  an empty run queue: \<open>StopLoop\<close> checks that.
\<close>

coinductive protocol :: "'r client \<Rightarrow> sched_spec \<Rightarrow> bool" where
  protocol_Finish: "sp_run A = {} \<Longrightarrow> protocol (Finish r) A"
| protocol_Call: "allowed c A \<Longrightarrow> (\<And>a A'. answers c A a A' \<Longrightarrow> protocol (k a) A') \<Longrightarrow> protocol (Call c k) A"

inductive_cases protocol_FinishE: "protocol (Finish r) A"
inductive_cases protocol_CallE: "protocol (Call c k) A"

locale scheduler_contract =
  fixes outcomes :: "sched_call \<Rightarrow> 's \<Rightarrow> (sched_resp \<times> 's) list"
    and models :: "'s \<Rightarrow> sched_spec \<Rightarrow> bool"
  assumes conforms: "models s A \<Longrightarrow> allowed c A \<Longrightarrow> (a, s') \<in> set (outcomes c s) \<Longrightarrow> \<exists>A'. answers c A a A' \<and> models s' A'"

section \<open>Replaying\<close>

definition replays :: "replay \<Rightarrow> sched_spec \<Rightarrow> bool" where
  "replays s A \<longleftrightarrow> rp_run_set s = sp_run A \<and> rp_wait s = sp_wait A"

text \<open>The answer of a scheduler within the contract, replayed from what the recorder logged for it.\<close>

lemma replay_call_answers:
  assumes r: "replays s A" and a: "answers c A a A'"
    and d: "drop (rp_next s) (rp_schedule s) = recorded c a @ D"
  shows "\<exists>s'. replay_call c s = Some (a, s') \<and> replays s' A' \<and> rp_schedule s' = rp_schedule s \<and>
    rp_next s' = rp_next s + length (recorded c a)"
proof -
  have nxt: "replay_Next s = Some (x, s\<lparr>rp_next := rp_next s + 1\<rparr>)" if "recorded c a = [x]" for x
  proof -
    have "rp_next s < length (rp_schedule s)"
      using d that by (metis append_Cons drop_all list.distinct(1) not_less)
    moreover have "rp_schedule s ! rp_next s = x"
      using d that calculation by (simp add: hd_drop_conv_nth [symmetric])
    ultimately show ?thesis by (simp add: replay_Next_def)
  qed
  show ?thesis
  proof (cases c)
    case SC_PickNext
    with a r nxt show ?thesis by (auto simp: replay_PickNext_def replays_def)
  next
    case (SC_Pop q)
    with a r nxt show ?thesis by (auto simp: popped_def PopById_def replays_def split: if_splits)
  next
    case (SC_PopAll q)
    with a r nxt show ?thesis by (auto simp: popped_def PopById_def replays_def split: if_splits)
  qed (use a r nxt in \<open>auto simp: replays_def\<close>)
qed

context scheduler_contract
begin

lemma records_extends: "records outcomes c D s r D' s' \<Longrightarrow> \<exists>E. D' = D @ E"
  by (induction rule: records.induct) auto

lemma replay_records:
  assumes "records outcomes c D s r D' s'" "models s A" "protocol c A" "replays R A" "rp_schedule R = D'" "rp_next R = length D"
  shows "\<exists>R'. sim_run replay_sched c R = Some (Finished r, R') \<and> rp_next R' = length D' \<and> replay_destructor R'"
  using assms
proof (induction arbitrary: A R rule: records.induct)
  case (records_Finish r D s)
  then show ?case by (auto simp: replays_def replay_destructor_def elim: protocol_FinishE)
next
  case (records_Call a s1 c s k D r D' s')
  from records_Call.prems(2) have c: "allowed c A" "\<And>a A'. answers c A a A' \<Longrightarrow> protocol (k a) A'"
    by (blast elim: protocol_CallE)+
  from conforms [OF records_Call.prems(1) c(1) records_Call.hyps(1)] obtain A' where A': "answers c A a A'" "models s1 A'"
    by auto
  from records_extends [OF records_Call.hyps(2)] obtain E where E: "D' = D @ recorded c a @ E" by auto
  from replay_call_answers [OF records_Call.prems(3) A'(1), of E] records_Call.prems(4,5) E obtain R2 where
    R2: "replay_call c R = Some (a, R2)" "replays R2 A'" "rp_schedule R2 = D'" "rp_next R2 = length (D @ recorded c a)"
    by auto
  from records_Call.IH [OF A'(2) c(2) [OF A'(1)] R2(2-4)] R2(1) show ?case
    by (auto simp: sim_run_Call replay_sched_def)
qed

end

section \<open>The DFS scheduler satisfies the contract\<close>

definition dfs_outcomes :: "dfs_params \<Rightarrow> sched_call \<Rightarrow> dfs \<Rightarrow> (sched_resp \<times> dfs) list" where
  "dfs_outcomes p c d = concat (map (\<lambda>r. case r of Finished x \<Rightarrow> [x] | Stopped e \<Rightarrow> []) (leaves (dfs_call p c d)))"

lemma dfs_outcomes_iff: "x \<in> set (dfs_outcomes p c d) \<longleftrightarrow> can_end (dfs_call p c d) (Finished x)"
  by (cases x) (force simp: dfs_outcomes_def can_end_leaves split: outcome.splits)

definition queue_set :: "bool \<Rightarrow> nat list \<Rightarrow> nat set \<Rightarrow> bool" where
  "queue_set srt xs S \<longleftrightarrow> set xs = S \<and> distinct xs \<and> (srt \<longrightarrow> sorted xs)"

definition dfs_models :: "dfs_params \<Rightarrow> dfs \<Rightarrow> sched_spec \<Rightarrow> bool" where
  "dfs_models p d A \<longleftrightarrow> df_active d = sp_active A \<and>
     queue_set True (df_run_queue d) (sp_run A - set_option (sp_active A)) \<and> set_option (sp_active A) \<subseteq> sp_run A \<and>
     (\<forall>q. queue_set (wake_order p) (df_queues d q) (sp_wait A q))"

lemma queue_set_Push: "queue_set True xs S \<Longrightarrow> t \<notin> S \<Longrightarrow> queue_set True (sl_Push t xs) (insert t S)"
  by (auto simp: queue_set_def sl_Push_insort set_insort_key distinct_insort sorted_insort)

lemma queue_set_wq_Push: "queue_set (wake_order p) xs S \<Longrightarrow> t \<notin> S \<Longrightarrow> queue_set (wake_order p) (wq_Push p t xs) (insert t S)"
  using queue_set_Push [of xs S t] by (auto simp: wq_Push_def queue_set_def)

lemma queue_set_Pop:
  assumes "queue_set b xs S" "i < length xs"
  shows "fst (sl_Pop i xs) \<in> S" "queue_set b (snd (sl_Pop i xs)) (S - {fst (sl_Pop i xs)})"
proof -
  have m: "mset xs = add_mset (fst (sl_Pop i xs)) (mset (snd (sl_Pop i xs)))"
    by (rule mset_sl_Pop [OF assms(2)])
  have "distinct (fst (sl_Pop i xs) # snd (sl_Pop i xs))"
    using assms(1) m by (metis mset.simps(2) mset_eq_imp_distinct_iff queue_set_def)
  moreover have "set xs = insert (fst (sl_Pop i xs)) (set (snd (sl_Pop i xs)))"
    using arg_cong [OF m, of set_mset] by simp
  ultimately show "fst (sl_Pop i xs) \<in> S" "queue_set b (snd (sl_Pop i xs)) (S - {fst (sl_Pop i xs)})"
    using assms sorted_sl_Pop [OF assms(2)] by (auto simp: queue_set_def)
qed

lemma sl_find_Some: "sl_find f xs i = Some j \<Longrightarrow> j < length xs \<and> xs ! j = f"
  by (induction f xs i rule: sl_find.induct) (subst (asm) (2) sl_find.simps, auto split: if_splits)

lemma sl_find_None: "sl_find f xs i = None \<Longrightarrow> i \<le> j \<Longrightarrow> j < length xs \<Longrightarrow> xs ! j \<noteq> f"
proof (induction f xs i rule: sl_find.induct)
  case (1 f xs i)
  from 1(2,4) have "xs ! i \<noteq> f" "sl_find f xs (i + 1) = None" if "i < length xs"
    using that by (subst (asm) sl_find.simps, simp split: if_splits)+
  with 1 show ?case by (cases "i = j") auto
qed

lemma queue_set_sl_Remove:
  assumes "queue_set b xs S"
  shows "fst (sl_Remove t xs) \<longleftrightarrow> t \<in> S" "queue_set b (snd (sl_Remove t xs)) (S - {t})"
proof -
  have "(fst (sl_Remove t xs) \<longleftrightarrow> t \<in> S) \<and> queue_set b (snd (sl_Remove t xs)) (S - {t})"
  proof (cases "sl_find t xs 0")
    case None
    then have "t \<notin> set xs"
      using sl_find_None [of t xs 0] by (auto simp: in_set_conv_nth)
    with None assms show ?thesis by (auto simp: sl_Remove_def queue_set_def)
  next
    case (Some i)
    with sl_find_Some [OF Some] queue_set_Pop [OF assms, of i] show ?thesis
      by (simp add: sl_Remove_def sl_Pop_def)
  qed
  then show "fst (sl_Remove t xs) \<longleftrightarrow> t \<in> S" "queue_set b (snd (sl_Remove t xs)) (S - {t})" by simp_all
qed

lemma queue_set_wq_Remove:
  assumes "queue_set (wake_order p) xs S"
  shows "fst (wq_Remove p t xs) \<longleftrightarrow> t \<in> S" "queue_set (wake_order p) (snd (wq_Remove p t xs)) (S - {t})"
  using assms queue_set_sl_Remove [OF assms, of t] by (auto simp: wq_Remove_def queue_set_def)

text \<open>A wait queue gives up one of its threads, or nothing if it is empty.\<close>

definition pops :: "bool \<Rightarrow> nat list \<Rightarrow> nat set \<Rightarrow> nat option \<Rightarrow> nat list \<Rightarrow> bool" where
  "pops b xs S w ys \<longleftrightarrow>
     (if S = {} then w = None \<and> ys = xs else \<exists>t \<in> S. w = Some t \<and> queue_set b ys (S - {t}))"

lemma pops_wq_Pop:
  assumes "queue_set (wake_order p) xs S" "can_end (wq_Pop p xs) (Finished (w, ys))"
  shows "pops (wake_order p) xs S w ys"
proof (cases "wake_order p")
  case True
  show ?thesis
  proof (cases xs)
    case Nil
    with True assms show ?thesis by (auto simp: wq_Pop_def Pick_def pops_def queue_set_def)
  next
    case (Cons x zs)
    with assms(2) True obtain i where "i < length xs" "w = Some (fst (sl_Pop i xs))" "ys = snd (sl_Pop i xs)"
      by (auto simp: wq_Pop_def Pick_def map_prod_def split_beta split: if_splits)
    with queue_set_Pop [OF assms(1)] show ?thesis by (auto simp: pops_def)
  qed
next
  case False
  with assms show ?thesis by (auto simp: wq_Pop_def pops_def queue_set_def split: list.splits)
qed

lemma pops_wq_PopAll:
  assumes "queue_set (wake_order p) xs S" "wq_PopAll p xs = (w, ys)"
  shows "pops (wake_order p) xs S w ys"
proof (cases "wake_order p")
  case True
  with assms show ?thesis
    by (cases xs rule: rev_cases) (auto simp: wq_PopAll_def sl_PopLast_def pops_def queue_set_def sorted_append)
next
  case False
  with assms show ?thesis
    by (cases xs) (auto simp: wq_PopAll_def pops_def queue_set_def)
qed

lemma dfs_models_pops:
  assumes m: "dfs_models p d A" and w: "pops (wake_order p) (df_queues d q) (sp_wait A q) w ys"
  shows "\<exists>A'. popped q A (SR_Thread w) A' \<and> dfs_models p (d\<lparr>df_queues := (df_queues d)(q := ys)\<rparr>) A'"
proof (cases "sp_wait A q = {}")
  case True
  with w have "w = None" "ys = df_queues d q" by (simp_all add: pops_def)
  with True m show ?thesis by (auto simp: popped_def dfs_models_def)
next
  case False
  with w obtain t where "t \<in> sp_wait A q" "w = Some t" "queue_set (wake_order p) ys (sp_wait A q - {t})"
    by (auto simp: pops_def)
  with False m show ?thesis
    by (intro exI [of _ "A\<lparr>sp_wait := (sp_wait A)(q := sp_wait A q - {t})\<rparr>"]) (auto simp: popped_def dfs_models_def)
qed

lemma dfs_models_run:
  assumes "dfs_models p d A" "t \<notin> sp_run A"
  shows "dfs_models p (d\<lparr>df_run_queue := sl_Push t (df_run_queue d)\<rparr>) (A\<lparr>sp_run := insert t (sp_run A)\<rparr>)"
proof -
  have "insert t (sp_run A) - set_option (sp_active A) = insert t (sp_run A - set_option (sp_active A))"
    using assms by (auto simp: dfs_models_def)
  with assms queue_set_Push [of "df_run_queue d" "sp_run A - set_option (sp_active A)" t] show ?thesis
    by (auto simp: dfs_models_def)
qed

lemma dfs_models_PickNext:
  assumes m: "dfs_models p d A" and ne: "sp_run A \<noteq> {}" and x: "can_end (PickNext p d) (Finished (w, d'))"
  shows "\<exists>A'. answers SC_PickNext A (SR_Thread w) A' \<and> dfs_models p d' A'"
proof -
  have q: "queue_set True (df_run_queue d) (sp_run A - set_option (sp_active A))" and act: "df_active d = sp_active A"
    "set_option (sp_active A) \<subseteq> sp_run A" using m by (simp_all add: dfs_models_def)
  have sl: "steps_left p d"
    using x by (auto simp: PickNext_def Let_def can_end_cbind AddStep_def steps_left_def split: option.splits if_splits)
  have ne': "df_active d \<noteq> None \<or> df_run_queue d \<noteq> []"
    using ne q act by (cases "sp_active A") (auto simp: queue_set_def)
  have srt: "sorted (df_run_queue d)" using q by (simp add: queue_set_def)
  note c = PickNext_cases [OF sl ne' x]
  show ?thesis
  proof (cases rule: c)
    case (1 i e pre)
    let ?n = "fst (sl_Pop i (df_run_queue d))"
    have p: "?n \<in> sp_run A - set_option (sp_active A)"
      "queue_set True (snd (sl_Pop i (df_run_queue d))) (sp_run A - set_option (sp_active A) - {?n})"
      using queue_set_Pop [OF q 1(1)] by simp_all
    have "queue_set True (df_run_queue d') (sp_run A - {?n})"
    proof (cases "sp_active A")
      case None
      with p 1(3-8) act show ?thesis by (simp add: take_queued_def Let_def split_beta)
    next
      case (Some t)
      with p(1) act(2) have "sp_run A - {?n} = insert t (sp_run A - {t} - {?n})" by auto
      with p(2) 1(3-8) act Some queue_set_Push [of "snd (sl_Pop i (df_run_queue d))" "sp_run A - {t} - {?n}" t] show ?thesis
        by (simp add: take_queued_def Let_def split_beta)
    qed
    with 1 m p take_queued_keeps(2,5) [of i e pre] srt show ?thesis
      by (intro exI [of _ "A\<lparr>sp_run := sp_run A - {?n}, sp_active := None\<rparr>"]) (auto simp: dfs_models_def)
  next
    case (2 t e)
    then have "sp_active A = Some t" using act by simp
    with 2 m act show ?thesis
      by (intro exI [of _ "A\<lparr>sp_run := sp_run A - {t}, sp_active := None\<rparr>"]) (auto simp: dfs_models_def)
  qed
qed

lemma AddStep_keeps:
  "can_end (AddStep p t d) (Finished d') \<Longrightarrow>
     df_run_queue d' = df_run_queue d \<and> df_active d' = df_active d \<and> df_queues d' = df_queues d"
  by (auto simp: AddStep_def Let_def split: option.splits if_splits)

interpretation dfs_contract: scheduler_contract "dfs_outcomes p" "dfs_models p" for p
proof
  fix d A c a d'
  assume m: "dfs_models p d A" and ok: "allowed c A" and "(a, d') \<in> set (dfs_outcomes p c d)"
  then have x: "can_end (dfs_call p c d) (Finished (a, d'))" by (simp add: dfs_outcomes_iff)
  show "\<exists>A'. answers c A a A' \<and> dfs_models p d' A'"
  proof (cases c)
    case (SC_Interrupt t)
    with x m ok show ?thesis by (auto simp: dfs_models_def)
  next
    case (SC_Exit t)
    with x m show ?thesis by (auto simp: can_end_cbind dfs_models_def dest!: AddStep_keeps)
  next
    case SC_IsIdle
    with x m show ?thesis by (cases "sp_active A") (auto simp: dfs_models_def queue_set_def)
  next
    case SC_PickNext
    with x ok dfs_models_PickNext [OF m] show ?thesis by (auto simp: can_end_cbind)
  next
    case (SC_Remove t)
    with ok have "sp_run A - {t} - set_option (sp_active A) = sp_run A - set_option (sp_active A) - {t}" by auto
    with SC_Remove x m ok queue_set_sl_Remove(2) [of True "df_run_queue d" _ t] show ?thesis
      by (cases "sp_active A") (auto simp: dfs_models_def)
  next
    case (SC_Push q t)
    with x m ok queue_set_wq_Push [of p "df_queues d q" "sp_wait A q" t] show ?thesis
      by (auto simp: dfs_models_def)
  next
    case (SC_Pop q)
    with x obtain w ys where w: "can_end (wq_Pop p (df_queues d q)) (Finished (w, ys))" "a = SR_Thread w"
      "d' = d\<lparr>df_queues := (df_queues d)(q := ys)\<rparr>" by (auto simp: can_end_cbind)
    have "pops (wake_order p) (df_queues d q) (sp_wait A q) w ys"
      using m by (intro pops_wq_Pop [OF _ w(1)]) (simp add: dfs_models_def)
    with dfs_models_pops [OF m this] w SC_Pop show ?thesis by simp
  next
    case (SC_PopAll q)
    with x obtain w ys where w: "wq_PopAll p (df_queues d q) = (w, ys)" "a = SR_Thread w"
      "d' = d\<lparr>df_queues := (df_queues d)(q := ys)\<rparr>" by (auto split: prod.splits)
    have "pops (wake_order p) (df_queues d q) (sp_wait A q) w ys"
      using m by (intro pops_wq_PopAll [OF _ w(1)]) (simp add: dfs_models_def)
    with dfs_models_pops [OF m this] w SC_PopAll show ?thesis by simp
  next
    case (SC_RemoveWaiter q t)
    with x m queue_set_wq_Remove [of p "df_queues d q" "sp_wait A q" t] show ?thesis
      by (auto simp: dfs_models_def split: prod.splits)
  next
    case (SC_IsEmpty q)
    moreover from m have "df_queues d q = [] \<longleftrightarrow> sp_wait A q = {}"
      unfolding dfs_models_def queue_set_def by (metis set_empty)
    ultimately show ?thesis using x m by (cases "sp_wait A q = {}") auto
  qed (use x m ok dfs_models_run [OF m] in \<open>auto simp: can_end_cbind dfs_models_def split: if_splits\<close>)
qed

lemma dfs_models_start: "dfs_models p dfs_Start sched_start"
  by (simp add: dfs_models_def dfs_Start_def sched_start_def queue_set_def)

lemma replays_start: "replays (ReplayScheduler D) sched_start"
  by (simp add: replays_def ReplayScheduler_def sched_start_def)

section \<open>Properties\<close>

text \<open>
  C5: replaying reproduces a run. Take a simulation that follows the protocol of the scheduler
  interface and run it to its end under the recorder around the DFS scheduler, with any decisions
  the latter can take: from the decisions logged, the replaying scheduler takes the same simulation to
  the same result. No check of the replaying scheduler fails, the one in its destructor
  included, and it uses up all decisions.
\<close>

theorem replay_reproduces:
  assumes "protocol c sched_start" "records (dfs_outcomes p) c [] dfs_Start r D d"
  shows "\<exists>s. sim_run replay_sched c (ReplayScheduler D) = Some (Finished r, s) \<and> rp_next s = length D \<and>
    replay_destructor s"
  using dfs_contract.replay_records [OF assms(2) dfs_models_start assms(1) replays_start]
  by (simp add: ReplayScheduler_def)

text \<open>Two threads take a step each; the outcome is the order in which they ran.\<close>

fun picked :: "sched_resp \<Rightarrow> nat" where
  "picked (SR_Thread (Some t)) = t"
| "picked _ = 0"

definition two_threads :: "nat list client" where
  "two_threads =
     Call (SC_Spawn 1) (\<lambda>_. Call (SC_Spawn 2) (\<lambda>_.
       Call SC_PickNext (\<lambda>a. Call SC_PickNext (\<lambda>b. Finish [picked a, picked b]))))"

lemma two_threads_protocol: "protocol two_threads sched_start"
  unfolding two_threads_def sched_start_def by (intro protocol_Call; (auto intro!: protocol_Finish)?)+

lemma records_Call_iff:
  "records und (Call c k) D s r D' s' \<longleftrightarrow>
     (\<exists>x \<in> set (und c s). records und (k (fst x)) (D @ recorded c (fst x)) (snd x) r D' s')"
  unfolding records_simps(2) by force

lemma two_threads_records:
  "\<exists>d. records (dfs_outcomes any_params) two_threads [] dfs_Start [2, 1] [D_PickNext 2, D_PickNext 1] d"
  unfolding two_threads_def
  by (simp add: records_simps(1) records_Call_iff dfs_outcomes_def any_params_def dfs_Start_def sl_Push_def PickNext_def AddStep_def Let_def
        pick_queued_def Pick_def sl_Pop_def shift_down.simps upt_rec)

theorem replay_reproduces_witness:
  "protocol two_threads sched_start \<and>
   (\<exists>d s. records (dfs_outcomes any_params) two_threads [] dfs_Start [2, 1] [D_PickNext 2, D_PickNext 1] d \<and>
     sim_run replay_sched two_threads (ReplayScheduler [D_PickNext 2, D_PickNext 1]) = Some (Finished [2, 1], s) \<and>
     replay_destructor s)"
  using two_threads_protocol two_threads_records replay_reproduces [OF two_threads_protocol] by blast

end
