(* ===== verification/Model_Check.thy ===== *)
theory Model_Check
  imports Replay_Scheduler
begin

text \<open>
  \<open>mod/sim/sim.cpp\<close>: \<open>Explore\<close> runs a simulation under every schedule of the DFS scheduler until one
  fails; \<open>Record\<close> then logs the failing run and checks that its replay gives the same.

  A simulation is a client of the scheduler. \<open>fails\<close> says which results are failures, \<open>digest\<close> is
  the digest of a result, and the result of \<open>DetCheck\<close>, which runs the user's code three times
  under the random scheduler, is an argument. A panic, a failed check or a null pointer ends the process:
  this is the result \<open>Aborted\<close>. \<open>None\<close> means that some simulation never ends.
\<close>

section \<open>Record and Explore\<close>






section \<open>The decision tree of a simulation\<close>






section \<open>The loop\<close>









section \<open>The limit on steps\<close>












section \<open>Properties\<close>











end
