(* ===== verification/Timer_Queue.thy ===== *)
theory Timer_Queue
  imports Prelude "HOL-Library.Multiset"
begin

text \<open>
  The timers of the twist simulator: the binary heap \<open>rt/sim/system/timer/timer_heap.hpp\<close> and the
  queue \<open>timer_queue.hpp\<close> over it. Timers are numbered by address; \<open>tm_when\<close>, \<open>tm_loc\<close> and \<open>tm_id\<close>
  are their fields. The heap is the part \<open>1..th_size\<close> of the array \<open>th_tree\<close>.

  Under any sequence of calls the heap holds exactly the timers added and not yet removed or
  polled, and every timer knows its place. The order of the heap is kept by \<open>Add\<close> and \<open>Poll\<close>;
  \<open>Remove\<close> may break it, since it moves the last timer to the free place and sifts it only down.
  \<open>None\<close> is a failed check, or undefined behaviour in \<open>Remove\<close> on an empty heap.
\<close>

section \<open>TimerHeap\<close>

record timers =
  th_tree :: "nat \<Rightarrow> nat"
  th_size :: nat
  tm_when :: "nat \<Rightarrow> nat"
  tm_loc :: "nat \<Rightarrow> nat"
  tm_id :: "nat \<Rightarrow> nat"
  tq_next_id :: nat

definition kTimerLimit :: nat where
  "kTimerLimit = 256"

definition Parent :: "nat \<Rightarrow> nat" where
  "Parent i = i div 2"

definition LeftChild :: "nat \<Rightarrow> nat" where
  "LeftChild i = i * 2"

definition RightChild :: "nat \<Rightarrow> nat" where
  "RightChild i = i * 2 + 1"

definition IsRoot :: "nat \<Rightarrow> bool" where
  "IsRoot i \<longleftrightarrow> i = 1"

definition IsLeaf :: "nat \<Rightarrow> timers \<Rightarrow> bool" where
  "IsLeaf i s \<longleftrightarrow> i * 2 > th_size s"

definition Less :: "timers \<Rightarrow> nat \<Rightarrow> nat \<Rightarrow> bool" where
  "Less s a b \<longleftrightarrow> tm_when s a < tm_when s b \<or> tm_when s a = tm_when s b \<and> tm_id s a < tm_id s b"

definition UpdateTimerMetadata :: "nat \<Rightarrow> timers \<Rightarrow> timers" where
  "UpdateTimerMetadata i s = s\<lparr>tm_loc := (tm_loc s)(th_tree s i := i)\<rparr>"

definition swap_tree :: "nat \<Rightarrow> nat \<Rightarrow> timers \<Rightarrow> timers" where
  "swap_tree i j s = s\<lparr>th_tree := (th_tree s)(i := th_tree s j, j := th_tree s i)\<rparr>"

lemma Less_irrefl [simp]: "\<not> Less s a a"
  by (simp add: Less_def)

function SiftUp :: "nat \<Rightarrow> timers \<Rightarrow> timers" where
  "SiftUp i s =
     (if \<not> IsRoot i \<and> Less s (th_tree s i) (th_tree s (Parent i))
      then SiftUp (Parent i) (UpdateTimerMetadata i (swap_tree i (Parent i) s))
      else UpdateTimerMetadata i s)"
  by pat_completeness auto
termination
proof (relation "measure fst")
  show "((Parent i, UpdateTimerMetadata i (swap_tree i (Parent i) s)), i, s) \<in> measure fst"
    if "\<not> IsRoot i \<and> Less s (th_tree s i) (th_tree s (Parent i))" for i s
    using that by (cases i) (auto simp: Parent_def)
qed simp

text \<open>The least of a node and its children.\<close>

definition min_child :: "nat \<Rightarrow> timers \<Rightarrow> nat" where
  "min_child i s =
     (let m = (if LeftChild i \<le> th_size s \<and> Less s (th_tree s (LeftChild i)) (th_tree s i) then LeftChild i else i)
      in if RightChild i \<le> th_size s \<and> Less s (th_tree s (RightChild i)) (th_tree s m) then RightChild i else m)"

lemma min_child_bounds:
  assumes "min_child i s \<noteq> i"
  shows "i < min_child i s" "min_child i s \<le> th_size s"
  using assms by (cases i; auto simp: min_child_def Let_def LeftChild_def RightChild_def split: if_splits)+

function SiftDown :: "nat \<Rightarrow> timers \<Rightarrow> timers" where
  "SiftDown i s =
     (if \<not> IsLeaf i s \<and> min_child i s \<noteq> i
      then SiftDown (min_child i s) (UpdateTimerMetadata i (swap_tree i (min_child i s) s))
      else UpdateTimerMetadata i s)"
  by pat_completeness auto
termination
proof (relation "measure (\<lambda>(i, s). th_size s - i)")
  show "((min_child i s, UpdateTimerMetadata i (swap_tree i (min_child i s) s)), i, s) \<in> measure (\<lambda>(i, s). th_size s - i)"
    if "\<not> IsLeaf i s \<and> min_child i s \<noteq> i" for i s
    using min_child_bounds [of i s] that by (simp add: UpdateTimerMetadata_def swap_tree_def)
qed simp

declare SiftUp.simps [simp del] SiftDown.simps [simp del]

definition th_Insert :: "nat \<Rightarrow> timers \<Rightarrow> timers option" where
  "th_Insert t s =
     (if th_size s + 1 < kTimerLimit
      then let n = th_size s + 1 in Some (SiftUp n (s\<lparr>th_size := n, th_tree := (th_tree s)(n := t)\<rparr>))
      else None)"

definition IsActive :: "nat \<Rightarrow> timers \<Rightarrow> bool" where
  "IsActive t s \<longleftrightarrow> tm_loc s t > 0"

definition th_Remove :: "nat \<Rightarrow> timers \<Rightarrow> timers option" where
  "th_Remove t s =
     (let i = tm_loc s t in
      if th_tree s i \<noteq> t \<or> th_size s = 0 then None
      else Some (SiftDown i
        (s\<lparr>tm_loc := (tm_loc s)(t := 0), th_tree := (th_tree s)(i := th_tree s (th_size s)), th_size := th_size s - 1\<rparr>)))"

definition th_ExtractMin :: "timers \<Rightarrow> (nat \<times> timers) option" where
  "th_ExtractMin s =
     (if th_size s = 0 then None
      else let s' = s\<lparr>th_tree := (th_tree s)(1 := th_tree s (th_size s)), th_size := th_size s - 1\<rparr>
           in Some (th_tree s 1, if th_size s' > 0 then SiftDown 1 s' else s'))"

section \<open>TimerQueue\<close>

definition tq_Add :: "nat \<Rightarrow> timers \<Rightarrow> timers option" where
  "tq_Add t s =
     (let n = tq_next_id s + 1 in th_Insert t (s\<lparr>tq_next_id := n, tm_id := (tm_id s)(t := n)\<rparr>))"

definition tq_Remove :: "nat \<Rightarrow> timers \<Rightarrow> (bool \<times> timers) option" where
  "tq_Remove t s = (if IsActive t s then map_option (Pair True) (th_Remove t s) else Some (False, s))"

definition tq_Poll :: "nat \<Rightarrow> timers \<Rightarrow> (nat option \<times> timers) option" where
  "tq_Poll now s =
     (if th_size s \<noteq> 0 \<and> tm_when s (th_tree s 1) \<le> now
      then map_option (map_prod Some id) (th_ExtractMin s) else Some (None, s))"

definition tq_NextDeadLine :: "timers \<Rightarrow> nat option" where
  "tq_NextDeadLine s = (if th_size s = 0 then None else Some (tm_when s (th_tree s 1)))"

definition tq_Reset :: "timers \<Rightarrow> timers option" where
  "tq_Reset s = (if th_size s = 0 then Some (s\<lparr>tq_next_id := 0\<rparr>) else None)"

definition tq_init :: timers where
  "tq_init = \<lparr>th_tree = (\<lambda>_. 0), th_size = 0, tm_when = (\<lambda>_. 0), tm_loc = (\<lambda>_. 0), tm_id = (\<lambda>_. 0), tq_next_id = 0\<rparr>"

text \<open>
  The calls of the simulator. A thread sets the deadline of its timer before adding it. It adds a
  timer that is not queued, and \<open>CancelTimer\<close> removes one that is.
\<close>

datatype tq_event = TQ_Add nat nat | TQ_Remove nat | TQ_Poll nat | TQ_Reset

definition queued :: "timers \<Rightarrow> nat list" where
  "queued s = map (th_tree s) [1..<Suc (th_size s)]"

fun tq_allowed :: "tq_event \<Rightarrow> timers \<Rightarrow> bool" where
  "tq_allowed (TQ_Add t w) s = (t \<notin> set (queued s) \<and> th_size s + 1 < kTimerLimit)"
| "tq_allowed (TQ_Remove t) s = (t \<in> set (queued s))"
| "tq_allowed (TQ_Poll now) s = True"
| "tq_allowed TQ_Reset s = (th_size s = 0)"

fun tq_apply :: "tq_event \<Rightarrow> timers \<Rightarrow> (nat option \<times> timers) option" where
  "tq_apply (TQ_Add t w) s = map_option (Pair None) (tq_Add t (s\<lparr>tm_when := (tm_when s)(t := w)\<rparr>))"
| "tq_apply (TQ_Remove t) s =
     (case tq_Remove t s of Some (True, s') \<Rightarrow> Some (Some t, s') | _ \<Rightarrow> None)"
| "tq_apply (TQ_Poll now) s = tq_Poll now s"
| "tq_apply TQ_Reset s = map_option (Pair None) (tq_Reset s)"

definition tq_step :: "tq_event \<Rightarrow> timers \<Rightarrow> timers option" where
  "tq_step e s = (if tq_allowed e s then map_option snd (tq_apply e s) else None)"

section \<open>Heap order\<close>

text \<open>
  A heap, a heap but for node \<open>k\<close> against its parent, and a heap but for node \<open>k\<close> against its
  children.
\<close>

definition heap :: "(nat \<Rightarrow> nat \<Rightarrow> bool) \<Rightarrow> (nat \<Rightarrow> nat) \<Rightarrow> nat \<Rightarrow> bool" where
  "heap lt f n \<longleftrightarrow> (\<forall>i. 1 < i \<and> i \<le> n \<longrightarrow> \<not> lt (f i) (f (i div 2)))"

definition heap_up :: "(nat \<Rightarrow> nat \<Rightarrow> bool) \<Rightarrow> (nat \<Rightarrow> nat) \<Rightarrow> nat \<Rightarrow> nat \<Rightarrow> bool" where
  "heap_up lt f n k \<longleftrightarrow>
     (\<forall>i. 1 < i \<and> i \<le> n \<and> i \<noteq> k \<longrightarrow> \<not> lt (f i) (f (i div 2))) \<and>
     (\<forall>i. 1 < k \<and> i \<le> n \<and> i div 2 = k \<longrightarrow> \<not> lt (f i) (f (k div 2)))"

definition heap_down :: "(nat \<Rightarrow> nat \<Rightarrow> bool) \<Rightarrow> (nat \<Rightarrow> nat) \<Rightarrow> nat \<Rightarrow> nat \<Rightarrow> bool" where
  "heap_down lt f n k \<longleftrightarrow>
     (\<forall>i. 1 < i \<and> i \<le> n \<and> i div 2 \<noteq> k \<longrightarrow> \<not> lt (f i) (f (i div 2))) \<and>
     (\<forall>i. 1 < k \<and> i \<le> n \<and> i div 2 = k \<longrightarrow> \<not> lt (f i) (f (k div 2)))"

locale heap_order =
  fixes lt :: "nat \<Rightarrow> nat \<Rightarrow> bool"
  assumes asym: "lt a b \<Longrightarrow> \<not> lt b a"
    and not_less_trans: "\<not> lt b a \<Longrightarrow> \<not> lt c b \<Longrightarrow> \<not> lt c a"
begin

lemma heap_root: "heap lt f n \<Longrightarrow> 1 \<le> i \<Longrightarrow> i \<le> n \<Longrightarrow> \<not> lt (f i) (f 1)"
proof (induction i rule: less_induct)
  case (less i)
  show ?case
  proof (cases "i = 1")
    case True
    then show ?thesis using asym by blast
  next
    case False
    with less.prems have "1 \<le> i div 2" "i div 2 < i" "i div 2 \<le> n" by auto
    with less.IH less.prems have "\<not> lt (f (i div 2)) (f 1)" by blast
    moreover have "\<not> lt (f i) (f (i div 2))" using less.prems False by (simp add: heap_def)
    ultimately show ?thesis by (rule not_less_trans)
  qed
qed

lemma heap_up_heap: "heap_up lt f n k \<Longrightarrow> k \<le> 1 \<or> \<not> lt (f k) (f (k div 2)) \<Longrightarrow> heap lt f n"
  unfolding heap_up_def heap_def by (metis not_less)

lemma heap_up_swap:
  assumes h: "heap_up lt f n k" and k: "1 < k" "k \<le> n" and l: "lt (f k) (f (k div 2))"
  shows "heap_up lt (f(k := f (k div 2), k div 2 := f k)) n (k div 2)"
proof -
  let ?p = "k div 2" and ?f = "f(k := f (k div 2), k div 2 := f k)"
  from k have p: "?p \<noteq> k" "1 \<le> ?p" "?p \<le> n" by auto
  have h1: "\<not> lt (f i) (f (i div 2))" if "1 < i" "i \<le> n" "i \<noteq> k" for i using h that by (simp add: heap_up_def)
  have h2: "\<not> lt (f i) (f ?p)" if "i \<le> n" "i div 2 = k" for i using h that k by (simp add: heap_up_def)
  have kp: "\<not> lt (f ?p) (f k)" using asym l by blast
  have "\<not> lt (?f i) (?f (i div 2))" if i: "1 < i" "i \<le> n" "i \<noteq> ?p" for i
  proof -
    consider "i = k" | "i \<noteq> k" "i div 2 = ?p" | "i \<noteq> k" "i div 2 = k" | "i \<noteq> k" "i div 2 \<noteq> ?p" "i div 2 \<noteq> k" by blast
    then show ?thesis
    proof cases
      case 2
      with i h1 [of i] have "\<not> lt (f i) (f ?p)" by simp
      from not_less_trans [OF kp this] 2 i p show ?thesis by simp
    qed (use i p kp h1 [of i] h2 [of i] in auto)
  qed
  moreover have "\<not> lt (?f i) (?f (?p div 2))" if i: "1 < ?p" "i \<le> n" "i div 2 = ?p" for i
  proof -
    have g: "\<not> lt (f ?p) (f (?p div 2))" using i p by (intro h1) auto
    from i k have ne: "?p div 2 \<noteq> k" "?p div 2 \<noteq> ?p" "i \<noteq> ?p" "1 < i" by auto
    show ?thesis
    proof (cases "i = k")
      case False
      with h1 [of i] i ne have "\<not> lt (f i) (f ?p)" by simp
      from not_less_trans [OF g this] False ne show ?thesis by simp
    qed (use g ne p in simp)
  qed
  ultimately show ?thesis unfolding heap_up_def by blast
qed

lemma heap_down_heap:
  assumes "heap_down lt f n k" "\<And>i. 1 < i \<Longrightarrow> i \<le> n \<Longrightarrow> i div 2 = k \<Longrightarrow> \<not> lt (f i) (f k)"
  shows "heap lt f n"
  using assms unfolding heap_down_def heap_def by metis

lemma heap_down_swap:
  assumes h: "heap_down lt f n k" and m: "m div 2 = k" "0 < k" "m \<le> n" and l: "lt (f m) (f k)"
    and sib: "\<And>i. i \<le> n \<Longrightarrow> i div 2 = k \<Longrightarrow> \<not> lt (f i) (f m)"
  shows "heap_down lt (f(k := f m, m := f k)) n m"
proof -
  let ?f = "f(k := f m, m := f k)"
  from m have mk: "m \<noteq> k" "1 < m" "k < m" by auto
  have h1: "\<not> lt (f i) (f (i div 2))" if "1 < i" "i \<le> n" "i div 2 \<noteq> k" for i using h that by (simp add: heap_down_def)
  have h2: "\<not> lt (f i) (f (k div 2))" if "1 < k" "i \<le> n" "i div 2 = k" for i using h that by (simp add: heap_down_def)
  have km: "\<not> lt (f k) (f m)" using asym l by blast
  have "\<not> lt (?f i) (?f (i div 2))" if i: "1 < i" "i \<le> n" "i div 2 \<noteq> m" for i
  proof -
    consider "i = m" | "i = k" | "i \<noteq> m" "i \<noteq> k" "i div 2 = k" | "i \<noteq> m" "i \<noteq> k" "i div 2 \<noteq> k" by blast
    then show ?thesis
    proof cases
      case 2
      with i m mk h2 [of m] show ?thesis by auto
    qed (use i m mk km sib [of i] h1 [of i] in auto)
  qed
  moreover have "\<not> lt (?f i) (?f (m div 2))" if i: "i \<le> n" "i div 2 = m" for i
  proof -
    from i mk have "i \<noteq> m" "i \<noteq> k" "1 < i" by auto
    with h1 [of i] i m mk show ?thesis by simp
  qed
  ultimately show ?thesis unfolding heap_down_def by blast
qed

end

interpretation timer_order: heap_order "Less s" for s
  by unfold_locales (auto simp: Less_def)

section \<open>Sifting\<close>

text \<open>Sifting permutes the timers of the heap, and every timer but \<open>k\<close> knows its place throughout.\<close>

definition sifted :: "timers \<Rightarrow> timers \<Rightarrow> bool" where
  "sifted s s' \<longleftrightarrow> mset (queued s') = mset (queued s) \<and> th_size s' = th_size s \<and>
     tm_when s' = tm_when s \<and> tm_id s' = tm_id s \<and> tq_next_id s' = tq_next_id s"

definition placed :: "nat \<Rightarrow> timers \<Rightarrow> bool" where
  "placed k s \<longleftrightarrow> (\<forall>i. 1 \<le> i \<and> i \<le> th_size s \<and> i \<noteq> k \<longrightarrow> tm_loc s (th_tree s i) = i)"

lemma sifted_trans: "sifted s s' \<Longrightarrow> sifted s' s'' \<Longrightarrow> sifted s s''"
  by (simp add: sifted_def)

lemma sifted_distinct: "sifted s s' \<Longrightarrow> distinct (queued s') = distinct (queued s)"
  unfolding sifted_def using mset_eq_imp_distinct_iff by blast

lemma sifted_set: "sifted s s' \<Longrightarrow> set (queued s') = set (queued s)"
  unfolding sifted_def using mset_eq_setD by blast

lemma sifted_Less: "sifted s s' \<Longrightarrow> Less s' = Less s"
  by (auto simp: sifted_def Less_def fun_eq_iff)

lemma set_queued: "set (queued s) = th_tree s ` {1..th_size s}"
  by (auto simp: queued_def)

lemma distinct_queued: "distinct (queued s) \<longleftrightarrow> inj_on (th_tree s) {1..th_size s}"
  by (simp add: queued_def distinct_map atLeastLessThanSuc_atLeastAtMost del: upt_Suc)

lemma queued_inj:
  assumes "distinct (queued s)" "th_tree s i = th_tree s j" "1 \<le> i" "i \<le> th_size s" "1 \<le> j" "j \<le> th_size s"
  shows "i = j"
  using assms by (auto simp: distinct_queued dest: inj_onD)

lemma mset_swap_upto:
  assumes "1 \<le> i" "i \<le> n" "1 \<le> j" "j \<le> n"
  shows "mset (map (f(i := f j, j := f i)) [1..<Suc n]) = mset (map f [1..<Suc n])"
proof -
  let ?xs = "map f [1..<Suc n]"
  have "map (f(i := f j, j := f i)) [1..<Suc n] = ?xs[i - 1 := ?xs ! (j - 1), j - 1 := ?xs ! (i - 1)]"
    by (rule nth_equalityI) (use assms in \<open>auto simp: nth_list_update nth_append simp del: upt_Suc\<close>)
  also have "mset \<dots> = mset ?xs" by (rule mset_swap) (use assms in auto)
  finally show ?thesis .
qed

lemma sifted_swap:
  "1 \<le> i \<Longrightarrow> i \<le> th_size s \<Longrightarrow> 1 \<le> j \<Longrightarrow> j \<le> th_size s \<Longrightarrow> sifted s (UpdateTimerMetadata i (swap_tree i j s))"
  using mset_swap_upto [of i "th_size s" j "th_tree s"] unfolding sifted_def queued_def
  by (simp add: UpdateTimerMetadata_def swap_tree_def del: upt_Suc)

lemma sifted_update: "sifted s (UpdateTimerMetadata i s)"
  by (simp add: sifted_def queued_def UpdateTimerMetadata_def)

lemma placed_swap:
  assumes "distinct (queued s)" "placed i s" "1 \<le> i" "i \<le> th_size s" "1 \<le> j" "j \<le> th_size s"
  shows "placed j (UpdateTimerMetadata i (swap_tree i j s))"
proof -
  have "th_tree s l \<noteq> th_tree s j" if "1 \<le> l" "l \<le> th_size s" "l \<noteq> j" for l
    using queued_inj [OF assms(1), of l j] that assms(5,6) by blast
  with assms(2) show ?thesis
    by (simp add: placed_def UpdateTimerMetadata_def swap_tree_def) blast
qed

lemma placed_update:
  assumes "distinct (queued s)" "placed i s" "1 \<le> i" "i \<le> th_size s \<or> th_tree s i \<notin> set (queued s)"
  shows "placed 0 (UpdateTimerMetadata i s)"
proof -
  have "th_tree s l \<noteq> th_tree s i" if "1 \<le> l" "l \<le> th_size s" "l \<noteq> i" for l
  proof (cases "i \<le> th_size s")
    case True
    with queued_inj [OF assms(1), of l i] that assms(3) show ?thesis by blast
  next
    case False
    moreover have "th_tree s l \<in> set (queued s)" using that by (simp add: set_queued)
    ultimately show ?thesis using assms(4) by metis
  qed
  with assms(2) show ?thesis
    by (simp add: placed_def UpdateTimerMetadata_def) metis
qed

lemma SiftUp_ok:
  assumes "distinct (queued s)" "placed k s" "1 \<le> k" "k \<le> th_size s"
  shows "sifted s (SiftUp k s) \<and> placed 0 (SiftUp k s) \<and>
    (heap_up (Less s) (th_tree s) (th_size s) k \<longrightarrow> heap (Less s) (th_tree (SiftUp k s)) (th_size s))"
  using assms
proof (induction k s rule: SiftUp.induct)
  case (1 i s)
  let ?p = "Parent i" and ?s = "UpdateTimerMetadata i (swap_tree i (Parent i) s)"
  show ?case
  proof (cases "\<not> IsRoot i \<and> Less s (th_tree s i) (th_tree s (Parent i))")
    case True
    with "1.prems" have p: "1 < i" "1 \<le> ?p" "?p \<le> th_size s" by (auto simp: IsRoot_def Parent_def)
    note sw = sifted_swap [OF "1.prems"(3,4) p(2,3)]
    have t: "th_tree ?s = (th_tree s)(i := th_tree s ?p, ?p := th_tree s i)" "th_size ?s = th_size s"
      by (simp_all add: UpdateTimerMetadata_def swap_tree_def)
    have "heap_up (Less s) (th_tree ?s) (th_size s) ?p" if "heap_up (Less s) (th_tree s) (th_size s) i"
      using timer_order.heap_up_swap [OF that p(1) "1.prems"(4)] True unfolding t(1) by (simp add: Parent_def)
    moreover have "sifted ?s (SiftUp ?p ?s) \<and> placed 0 (SiftUp ?p ?s) \<and>
        (heap_up (Less ?s) (th_tree ?s) (th_size ?s) ?p \<longrightarrow> heap (Less ?s) (th_tree (SiftUp ?p ?s)) (th_size ?s))"
    proof (rule "1.IH" [OF True])
      show "distinct (queued ?s)" using sifted_distinct [OF sw] "1.prems"(1) by blast
      show "placed ?p ?s" by (rule placed_swap [OF "1.prems" p(2,3)])
    qed (use p t(2) in simp_all)
    moreover have "SiftUp i s = SiftUp ?p ?s" using True by (simp add: SiftUp.simps [of i s])
    ultimately show ?thesis
      using sifted_trans [OF sw, of "SiftUp ?p ?s"] by (simp add: t(2) sifted_Less [OF sw])
  next
    case False
    then have e: "SiftUp i s = UpdateTimerMetadata i s" unfolding SiftUp.simps [of i s] by (rule if_not_P)
    have "heap (Less s) (th_tree s) (th_size s)" if "heap_up (Less s) (th_tree s) (th_size s) i"
      by (rule timer_order.heap_up_heap [OF that]) (use False in \<open>auto simp: IsRoot_def Parent_def\<close>)
    moreover have "placed 0 (UpdateTimerMetadata i s)" using "1.prems" by (intro placed_update) simp_all
    moreover have "th_tree (UpdateTimerMetadata i s) = th_tree s" by (simp add: UpdateTimerMetadata_def)
    ultimately show ?thesis unfolding e using sifted_update [of s i] by simp
  qed
qed

lemma min_child_least:
  assumes "i div 2 = k" "0 < k" "i \<le> th_size s"
  shows "\<not> Less s (th_tree s i) (th_tree s (min_child k s))"
proof -
  have i: "i = LeftChild k \<or> i = RightChild k" using assms(1) unfolding LeftChild_def RightChild_def by linarith
  define t where "t = (\<lambda>j. th_tree s j)"
  define m where "m = (if LeftChild k \<le> th_size s \<and> Less s (t (LeftChild k)) (t k) then LeftChild k else k)"
  have mc: "min_child k s = (if RightChild k \<le> th_size s \<and> Less s (t (RightChild k)) (t m) then RightChild k else m)"
    by (simp only: min_child_def Let_def m_def t_def)
  have l: "\<not> Less s (t (LeftChild k)) (t m)" if "LeftChild k \<le> th_size s" using that by (simp add: m_def)
  have "\<not> Less s (t i) (t (min_child k s))"
  proof (cases "RightChild k \<le> th_size s \<and> Less s (t (RightChild k)) (t m)")
    case True
    then have e: "min_child k s = RightChild k" unfolding mc by (rule if_P)
    from True have "\<not> Less s (t m) (t (RightChild k))" using timer_order.asym by blast
    with i l assms(3) timer_order.not_less_trans [of s "t m" "t (RightChild k)" "t (LeftChild k)"] show ?thesis
      unfolding e by auto
  next
    case False
    then have e: "min_child k s = m" unfolding mc by (rule if_not_P)
    from i l assms(3) False show ?thesis unfolding e by blast
  qed
  then show ?thesis by (simp add: t_def)
qed

lemma min_child_child:
  assumes "min_child k s \<noteq> k"
  shows "min_child k s div 2 = k" "Less s (th_tree s (min_child k s)) (th_tree s k)"
  using assms by (auto simp: min_child_def Let_def LeftChild_def RightChild_def Less_def split: if_splits)

lemma SiftDown_ok:
  assumes "distinct (queued s)" "placed k s" "1 \<le> k" "k \<le> th_size s \<or> th_tree s k \<notin> set (queued s)"
  shows "sifted s (SiftDown k s) \<and> placed 0 (SiftDown k s) \<and>
    (heap_down (Less s) (th_tree s) (th_size s) k \<longrightarrow> heap (Less s) (th_tree (SiftDown k s)) (th_size s))"
  using assms
proof (induction k s rule: SiftDown.induct)
  case (1 i s)
  let ?m = "min_child i s" and ?s = "UpdateTimerMetadata i (swap_tree i (min_child i s) s)"
  show ?case
  proof (cases "\<not> IsLeaf i s \<and> ?m \<noteq> i")
    case True
    with "1.prems" min_child_bounds [of i s] have p: "i \<le> th_size s" "1 \<le> ?m" "?m \<le> th_size s" by auto
    note sw = sifted_swap [OF "1.prems"(3) p]
    have t: "th_tree ?s = (th_tree s)(i := th_tree s ?m, ?m := th_tree s i)" "th_size ?s = th_size s"
      by (simp_all add: UpdateTimerMetadata_def swap_tree_def)
    have "heap_down (Less s) (th_tree ?s) (th_size s) ?m" if "heap_down (Less s) (th_tree s) (th_size s) i"
      unfolding t(1) using "1.prems"(3) True p
      by (intro timer_order.heap_down_swap [OF that]) (simp_all add: min_child_child min_child_least)
    moreover have "sifted ?s (SiftDown ?m ?s) \<and> placed 0 (SiftDown ?m ?s) \<and>
        (heap_down (Less ?s) (th_tree ?s) (th_size ?s) ?m \<longrightarrow> heap (Less ?s) (th_tree (SiftDown ?m ?s)) (th_size ?s))"
    proof (rule "1.IH" [OF True])
      show "distinct (queued ?s)" using sifted_distinct [OF sw] "1.prems"(1) by blast
      show "placed ?m ?s" by (rule placed_swap [OF "1.prems"(1-3) p])
    qed (use p t(2) in simp_all)
    moreover have "SiftDown i s = SiftDown ?m ?s" using True by (simp add: SiftDown.simps [of i s])
    ultimately show ?thesis
      using sifted_trans [OF sw, of "SiftDown ?m ?s"] by (simp add: t(2) sifted_Less [OF sw])
  next
    case False
    then have e: "SiftDown i s = UpdateTimerMetadata i s" unfolding SiftDown.simps [of i s] by (rule if_not_P)
    have "heap (Less s) (th_tree s) (th_size s)" if "heap_down (Less s) (th_tree s) (th_size s) i"
    proof (rule timer_order.heap_down_heap [OF that])
      fix j assume "1 < j" "j \<le> th_size s" "j div 2 = i"
      with min_child_least [of j i s] False show "\<not> Less s (th_tree s j) (th_tree s i)" by (auto simp: IsLeaf_def)
    qed
    moreover have "placed 0 (UpdateTimerMetadata i s)" using "1.prems" by (intro placed_update)
    moreover have "th_tree (UpdateTimerMetadata i s) = th_tree s" by (simp add: UpdateTimerMetadata_def)
    ultimately show ?thesis unfolding e using sifted_update [of s i] by simp
  qed
qed

section \<open>The queue\<close>

definition tq_inv :: "timers \<Rightarrow> bool" where
  "tq_inv s \<longleftrightarrow> distinct (queued s) \<and> placed 0 s \<and> inj_on (tm_id s) (set (queued s)) \<and>
     (\<forall>t \<in> set (queued s). tm_id s t \<le> tq_next_id s)"

definition tq_ordered :: "timers \<Rightarrow> bool" where
  "tq_ordered s \<longleftrightarrow> heap (Less s) (th_tree s) (th_size s)"

lemma tq_inv_sifted:
  assumes "sifted s s'" "placed 0 s'" "distinct (queued s)" "inj_on (tm_id s) (set (queued s))"
    "\<forall>t \<in> set (queued s). tm_id s t \<le> tq_next_id s"
  shows "tq_inv s'"
  using assms sifted_distinct [OF assms(1)] sifted_set [OF assms(1)] by (simp add: tq_inv_def sifted_def)

lemma tq_ordered_sifted:
  "sifted s s' \<Longrightarrow> heap (Less s) (th_tree s') (th_size s) \<Longrightarrow> tq_ordered s'"
  by (simp add: tq_ordered_def sifted_Less) (simp add: sifted_def)

lemma tq_Add_ok:
  assumes inv: "tq_inv s" and t: "t \<notin> set (queued s)" and n: "th_size s + 1 < kTimerLimit"
  shows "\<exists>s'. tq_Add t (s\<lparr>tm_when := (tm_when s)(t := w)\<rparr>) = Some s' \<and> tq_inv s' \<and>
    set (queued s') = insert t (set (queued s)) \<and> (tq_ordered s \<longrightarrow> tq_ordered s')"
proof -
  let ?n = "th_size s + 1"
  define u where "u = s\<lparr>tm_when := (tm_when s)(t := w), tq_next_id := tq_next_id s + 1,
    tm_id := (tm_id s)(t := tq_next_id s + 1), th_size := ?n, th_tree := (th_tree s)(?n := t)\<rparr>"
  have add: "tq_Add t (s\<lparr>tm_when := (tm_when s)(t := w)\<rparr>) = Some (SiftUp ?n u)"
    using n by (simp add: tq_Add_def th_Insert_def Let_def u_def)
  have uf: "tm_id u = (tm_id s)(t := tq_next_id s + 1)" "tq_next_id u = tq_next_id s + 1" "th_size u = ?n"
    by (simp_all add: u_def)
  have q: "queued u = queued s @ [t]" by (simp add: queued_def u_def)
  have old: "th_tree s i \<noteq> t" if "1 \<le> i" "i \<le> th_size s" for i
    using t that by (auto simp: set_queued)
  have d: "distinct (queued u)" "inj_on (tm_id u) (set (queued u))" "\<forall>x \<in> set (queued u). tm_id u x \<le> tq_next_id u"
  proof -
    from inv have le: "tm_id s x \<le> tq_next_id s" if "x \<in> set (queued s)" for x using that by (simp add: tq_inv_def)
    have "inj_on (tm_id s) (set (queued s))" "distinct (queued s)" using inv by (simp_all add: tq_inv_def)
    moreover have "inj_on (tm_id u) (set (queued s))" if "inj_on (tm_id s) (set (queued s))"
      by (subst inj_on_cong [where g = "tm_id s"]) (use that t in \<open>auto simp: uf(1)\<close>)
    moreover have "tm_id u t \<noteq> tm_id u x" if "x \<in> set (queued s)" for x
      using le [OF that] that t by (auto simp: uf(1))
    ultimately show "inj_on (tm_id u) (set (queued u))" "distinct (queued u)" using t by (auto simp: q)
    show "\<forall>x \<in> set (queued u). tm_id u x \<le> tq_next_id u" using le by (auto simp: q uf(1,2) intro: le_SucI)
  qed
  have pl: "placed ?n u" using inv by (auto simp: tq_inv_def placed_def u_def)
  have hu: "heap_up (Less u) (th_tree u) (th_size u) ?n" if "tq_ordered s"
  proof -
    have "\<not> Less u (th_tree u i) (th_tree u (i div 2))" if "1 < i" "i \<le> th_size s" for i
    proof -
      have "\<not> Less s (th_tree s i) (th_tree s (i div 2))" using \<open>tq_ordered s\<close> that by (simp add: tq_ordered_def heap_def)
      moreover have "th_tree s i \<noteq> t" "th_tree s (i div 2) \<noteq> t" using that by (intro old; simp)+
      moreover have "i div 2 \<noteq> ?n" "i \<noteq> ?n" using that by simp_all
      ultimately show ?thesis by (simp add: u_def Less_def)
    qed
    then show ?thesis by (auto simp: heap_up_def u_def)
  qed
  note ok = SiftUp_ok [OF d(1) pl]
  show ?thesis
    using add ok hu tq_inv_sifted [OF _ _ d] tq_ordered_sifted [of u] sifted_set [of u "SiftUp ?n u"] uf(3) by (simp add: q)
qed

text \<open>The last timer replaces the one at \<open>i\<close>.\<close>

definition take_out :: "nat \<Rightarrow> (nat \<Rightarrow> nat) \<Rightarrow> timers \<Rightarrow> timers" where
  "take_out i L s = s\<lparr>tm_loc := L, th_tree := (th_tree s)(i := th_tree s (th_size s)), th_size := th_size s - 1\<rparr>"

lemma take_out_simps [simp]:
  "tm_when (take_out i L s) = tm_when s" "tm_id (take_out i L s) = tm_id s" "tq_next_id (take_out i L s) = tq_next_id s"
  "tm_loc (take_out i L s) = L" "th_tree (take_out i L s) = (th_tree s)(i := th_tree s (th_size s))"
  "th_size (take_out i L s) = th_size s - 1" "Less (take_out i L s) = Less s"
  by (simp_all add: take_out_def Less_def fun_eq_iff)

lemma mset_take_out:
  assumes "1 \<le> i" "i \<le> th_size s"
  shows "add_mset (th_tree s i) (mset (queued (take_out i L s))) = mset (queued s)"
proof -
  let ?n = "th_size s" and ?f = "th_tree s"
  let ?g = "?f(i := ?f ?n, ?n := ?f i)"
  from assms have n: "Suc (?n - 1) = ?n" by simp
  have "queued (take_out i L s) = map ?g [1..<?n]"
    unfolding queued_def take_out_simps n by simp
  then have "map ?g [1..<Suc ?n] = queued (take_out i L s) @ [?f i]" using assms by simp
  then show ?thesis using mset_swap_upto [of i ?n ?n ?f] assms by (simp add: queued_def)
qed

lemma take_out_inv:
  assumes inv: "tq_inv s" and i: "1 \<le> i" "i \<le> th_size s" and L: "\<And>t. t \<noteq> th_tree s i \<Longrightarrow> L t = tm_loc s t"
  shows "set (queued (take_out i L s)) = set (queued s) - {th_tree s i}" "distinct (queued (take_out i L s))"
    "inj_on (tm_id s) (set (queued (take_out i L s)))" "\<forall>t \<in> set (queued (take_out i L s)). tm_id s t \<le> tq_next_id s"
    "placed i (take_out i L s)" "i \<le> th_size s - 1 \<or> th_tree s (th_size s) \<notin> set (queued (take_out i L s))"
proof -
  note m = mset_take_out [OF i, of L]
  from m have d: "distinct (th_tree s i # queued (take_out i L s))"
    using inv mset_eq_imp_distinct_iff [of "th_tree s i # queued (take_out i L s)" "queued s"] by (simp add: tq_inv_def)
  from m have "insert (th_tree s i) (set (queued (take_out i L s))) = set (queued s)"
    using mset_eq_setD [of "th_tree s i # queued (take_out i L s)" "queued s"] by simp
  with d show st: "set (queued (take_out i L s)) = set (queued s) - {th_tree s i}" "distinct (queued (take_out i L s))" by auto
  show "inj_on (tm_id s) (set (queued (take_out i L s)))" "\<forall>t \<in> set (queued (take_out i L s)). tm_id s t \<le> tq_next_id s"
    using inv unfolding st tq_inv_def by (auto intro: inj_on_subset)
  have "th_tree s j \<noteq> th_tree s i" if "1 \<le> j" "j \<le> th_size s" "j \<noteq> i" for j
    using queued_inj [of s j i] inv i that by (auto simp: tq_inv_def)
  then show "placed i (take_out i L s)" using inv L by (auto simp: tq_inv_def placed_def)
  show "i \<le> th_size s - 1 \<or> th_tree s (th_size s) \<notin> set (queued (take_out i L s))"
    using i unfolding st by (cases "i = th_size s") auto
qed

lemma take_out_heap_down:
  assumes h: "tq_ordered s" and i: "1 \<le> i" "i \<le> th_size s"
    and safe: "i = 1 \<or> \<not> Less s (th_tree s (th_size s)) (th_tree s (i div 2))"
  shows "heap_down (Less s) (th_tree (take_out i L s)) (th_size s - 1) i"
proof -
  have h1: "\<not> Less s (th_tree s j) (th_tree s (j div 2))" if "1 < j" "j \<le> th_size s" for j
    using h that by (simp add: tq_ordered_def heap_def)
  have "\<not> Less s (th_tree s j) (th_tree s (i div 2))" if "1 < i" "j \<le> th_size s" "j div 2 = i" for j
    using timer_order.not_less_trans [of s "th_tree s i" "th_tree s (i div 2)" "th_tree s j"] h1 [of i] h1 [of j] that i by simp
  with h1 safe i show ?thesis by (auto simp: heap_down_def)
qed

text \<open>\<open>Remove\<close> keeps the order if the timer it moves does not belong above the place it gets.\<close>

definition removal_safe :: "nat \<Rightarrow> timers \<Rightarrow> bool" where
  "removal_safe t s \<longleftrightarrow>
     tm_loc s t = 1 \<or> \<not> Less s (th_tree s (th_size s)) (th_tree s (Parent (tm_loc s t)))"

lemma sift_take_out:
  assumes inv: "tq_inv s" and i: "1 \<le> i" "i \<le> th_size s" and L: "\<And>t. t \<noteq> th_tree s i \<Longrightarrow> L t = tm_loc s t"
  shows "tq_inv (SiftDown i (take_out i L s))"
    "set (queued (SiftDown i (take_out i L s))) = set (queued s) - {th_tree s i}"
    "tq_ordered s \<Longrightarrow> i = 1 \<or> \<not> Less s (th_tree s (th_size s)) (th_tree s (i div 2)) \<Longrightarrow>
       tq_ordered (SiftDown i (take_out i L s))"
proof -
  let ?u = "take_out i L s"
  note u = take_out_inv [OF assms]
  have ok: "sifted ?u (SiftDown i ?u)" "placed 0 (SiftDown i ?u)"
    "heap_down (Less ?u) (th_tree ?u) (th_size ?u) i \<longrightarrow> heap (Less ?u) (th_tree (SiftDown i ?u)) (th_size ?u)"
    using SiftDown_ok [OF u(2,5) i(1)] u(6) by simp_all
  show "tq_inv (SiftDown i ?u)" using tq_inv_sifted [OF ok(1,2) u(2)] u(3,4) by simp
  show "set (queued (SiftDown i ?u)) = set (queued s) - {th_tree s i}" using sifted_set [OF ok(1)] u(1) by simp
  show "tq_ordered (SiftDown i ?u)" if "tq_ordered s" "i = 1 \<or> \<not> Less s (th_tree s (th_size s)) (th_tree s (i div 2))"
    using tq_ordered_sifted [OF ok(1)] ok(3) take_out_heap_down [OF that(1) i that(2), of L] by simp
qed

lemma queued_place:
  assumes "tq_inv s" "t \<in> set (queued s)"
  shows "1 \<le> tm_loc s t" "tm_loc s t \<le> th_size s" "th_tree s (tm_loc s t) = t"
  using assms by (auto simp: tq_inv_def placed_def set_queued)

lemma tq_Remove_ok:
  assumes inv: "tq_inv s" and t: "t \<in> set (queued s)"
  shows "\<exists>s'. tq_Remove t s = Some (True, s') \<and> tq_inv s' \<and> set (queued s') = set (queued s) - {t} \<and>
    (tq_ordered s \<and> removal_safe t s \<longrightarrow> tq_ordered s')"
proof -
  note pl = queued_place [OF inv t]
  have "tq_Remove t s = Some (True, SiftDown (tm_loc s t) (take_out (tm_loc s t) ((tm_loc s)(t := 0)) s))"
    using pl by (simp add: tq_Remove_def IsActive_def th_Remove_def Let_def take_out_def)
  with sift_take_out [OF inv pl(1,2), of "(tm_loc s)(t := 0)"] pl(3) show ?thesis
    by (simp add: removal_safe_def Parent_def)
qed

lemma tq_ExtractMin_ok:
  assumes inv: "tq_inv s" and n: "th_size s \<noteq> 0"
  shows "\<exists>s'. th_ExtractMin s = Some (th_tree s 1, s') \<and> tq_inv s' \<and> set (queued s') = set (queued s) - {th_tree s 1} \<and>
    (tq_ordered s \<longrightarrow> tq_ordered s')"
proof -
  let ?u = "take_out 1 (tm_loc s) s"
  have e: "th_ExtractMin s = Some (th_tree s 1, if th_size s - 1 > 0 then SiftDown 1 ?u else ?u)"
    using n by (simp add: th_ExtractMin_def Let_def take_out_def)
  show ?thesis
  proof (cases "th_size s - 1 > 0")
    case True
    with e sift_take_out [OF inv, of 1 "tm_loc s"] n show ?thesis by simp
  next
    case False
    then have "tq_inv ?u" "tq_ordered ?u" "queued ?u = []"
      by (simp_all add: tq_inv_def tq_ordered_def heap_def placed_def queued_def)
    moreover have "set (queued ?u) = set (queued s) - {th_tree s 1}" using take_out_inv(1) [OF inv, of 1 "tm_loc s"] n by simp
    ultimately show ?thesis using e False by simp
  qed
qed

text \<open>The timer due first, if one is due.\<close>

definition earliest :: "nat \<Rightarrow> timers \<Rightarrow> nat option \<Rightarrow> bool" where
  "earliest now s r \<longleftrightarrow>
     (case r of
        None \<Rightarrow> \<forall>t \<in> set (queued s). now < tm_when s t
      | Some t \<Rightarrow> t \<in> set (queued s) \<and> tm_when s t \<le> now \<and> (\<forall>u \<in> set (queued s). u \<noteq> t \<longrightarrow> Less s t u))"

lemma root_first:
  assumes inv: "tq_inv s" and h: "tq_ordered s" and u: "u \<in> set (queued s)" "u \<noteq> th_tree s 1"
  shows "Less s (th_tree s 1) u"
proof -
  from u obtain i where i: "1 \<le> i" "i \<le> th_size s" "u = th_tree s i" by (auto simp: set_queued)
  with h timer_order.heap_root have "\<not> Less s u (th_tree s 1)" by (simp add: tq_ordered_def)
  moreover have "th_tree s 1 \<in> set (queued s)" using i by (auto simp: set_queued)
  then have "tm_id s u \<noteq> tm_id s (th_tree s 1)" using inv u by (auto simp: tq_inv_def dest: inj_onD)
  ultimately show ?thesis by (auto simp: Less_def)
qed

lemma tq_Poll_ok:
  assumes inv: "tq_inv s"
  shows "\<exists>r s'. tq_Poll now s = Some (r, s') \<and> tq_inv s' \<and> set (queued s') = set (queued s) - set_option r \<and>
    (tq_ordered s \<longrightarrow> tq_ordered s' \<and> earliest now s r)"
proof (cases "th_size s \<noteq> 0 \<and> tm_when s (th_tree s 1) \<le> now")
  case True
  then have "th_tree s 1 \<in> set (queued s)" by (auto simp: set_queued)
  with True have "earliest now s (Some (th_tree s 1))" if "tq_ordered s"
    using root_first [OF inv that] by (simp add: earliest_def)
  with True tq_ExtractMin_ok [OF inv] show ?thesis by (auto simp: tq_Poll_def)
next
  case False
  have "earliest now s None" if "tq_ordered s"
  proof -
    have "now < tm_when s u" if "u \<in> set (queued s)" for u
    proof -
      have "th_size s \<noteq> 0" using that by (auto simp: set_queued)
      with False have "now < tm_when s (th_tree s 1)" by simp
      moreover have "u = th_tree s 1 \<or> Less s (th_tree s 1) u" using root_first [OF inv \<open>tq_ordered s\<close> that] by blast
      ultimately show ?thesis by (auto simp: Less_def)
    qed
    then show ?thesis by (simp add: earliest_def)
  qed
  moreover have "tq_Poll now s = Some (None, s)" using False by (auto simp: tq_Poll_def)
  ultimately show ?thesis using inv by simp
qed

section \<open>Sequences of calls\<close>

fun call_safe :: "tq_event \<Rightarrow> timers \<Rightarrow> bool" where
  "call_safe (TQ_Remove t) s = removal_safe t s"
| "call_safe _ s = True"

primrec removals_safe :: "tq_event list \<Rightarrow> timers \<Rightarrow> bool" where
  "removals_safe [] s = True"
| "removals_safe (e # es) s =
     (call_safe e s \<and> (case tq_step e s of None \<Rightarrow> True | Some s' \<Rightarrow> removals_safe es s'))"

fun queued_after :: "tq_event \<Rightarrow> nat option \<Rightarrow> nat set \<Rightarrow> nat set" where
  "queued_after (TQ_Add t w) r Q = insert t Q"
| "queued_after (TQ_Remove t) r Q = Q - {t}"
| "queued_after (TQ_Poll now) r Q = Q - set_option r"
| "queued_after TQ_Reset r Q = Q"

lemma tq_apply_ok:
  assumes inv: "tq_inv s" and ok: "tq_allowed e s"
  shows "\<exists>r s'. tq_apply e s = Some (r, s') \<and> tq_inv s' \<and> set (queued s') = queued_after e r (set (queued s)) \<and>
    (tq_ordered s \<and> call_safe e s \<longrightarrow> tq_ordered s') \<and> (\<forall>now. tq_ordered s \<and> e = TQ_Poll now \<longrightarrow> earliest now s r)"
proof (cases e)
  case (TQ_Add t w)
  with tq_Add_ok [OF inv, of t w] ok show ?thesis by auto
next
  case (TQ_Remove t)
  with tq_Remove_ok [OF inv, of t] ok show ?thesis by auto
next
  case (TQ_Poll now)
  with tq_Poll_ok [OF inv, of now] show ?thesis by auto
next
  case TQ_Reset
  with ok have "tq_apply e s = Some (None, s\<lparr>tq_next_id := 0\<rparr>)" by (simp add: tq_Reset_def)
  with TQ_Reset ok inv show ?thesis
    by (simp add: tq_inv_def tq_ordered_def heap_def placed_def queued_def)
qed

lemma tq_exec_ok:
  "tq_inv s \<Longrightarrow> exec tq_step s es = Some s' \<Longrightarrow>
     tq_inv s' \<and> (tq_ordered s \<and> removals_safe es s \<longrightarrow> tq_ordered s')"
proof (induction es arbitrary: s)
  case (Cons e es)
  then obtain u where u: "tq_step e s = Some u" "exec tq_step u es = Some s'" by (auto split: option.splits)
  then have "tq_allowed e s" by (simp add: tq_step_def split: if_splits)
  with tq_apply_ok [OF Cons.prems(1)] u(1) have "tq_inv u" "tq_ordered s \<and> call_safe e s \<Longrightarrow> tq_ordered u"
    by (fastforce simp: tq_step_def)+
  with Cons.IH [OF _ u(2)] u(1) show ?case by auto
qed simp

lemma tq_start: "tq_inv tq_init" "tq_ordered tq_init"
  by (simp_all add: tq_inv_def tq_ordered_def heap_def placed_def queued_def tq_init_def)

text \<open>
  \<open>Remove\<close> sifts only down. Seven timers are added and one is removed; the third \<open>Poll\<close> after
  that returns a timer although an earlier one is queued.
\<close>

definition reordering_calls :: "tq_event list" where
  "reordering_calls = map (\<lambda>w. TQ_Add w w) [7, 4, 5, 2, 6, 1, 3] @ [TQ_Remove 7, TQ_Poll 10, TQ_Poll 10]"

lemma remove_breaks_order:
  "\<exists>s r s'. exec tq_step tq_init reordering_calls = Some s \<and> tq_Poll 10 s = Some (r, s') \<and> \<not> earliest 10 s r"
proof -
  have "case exec tq_step tq_init reordering_calls of None \<Rightarrow> False
    | Some s \<Rightarrow> (case tq_Poll 10 s of None \<Rightarrow> False | Some (r, s') \<Rightarrow> \<not> earliest 10 s r)"
    by code_simp
  then show ?thesis by (auto split: option.splits prod.splits)
qed

text \<open>
  \<open>IsActive\<close> is true of timers that are not queued: \<open>Remove\<close> of the last timer of the heap records
  its place again when it sifts, and \<open>ExtractMin\<close> leaves it as it was.
\<close>

lemma dequeued_timer_active:
  "case exec tq_step tq_init [TQ_Add 1 5, TQ_Remove 1, TQ_Add 2 5, TQ_Poll 6] of
     None \<Rightarrow> False | Some s \<Rightarrow> th_size s = 0 \<and> IsActive 1 s \<and> IsActive 2 s"
  by code_simp

section \<open>Properties\<close>

text \<open>
  C17: the timer queue of the simulator. After any sequence of calls, a timer that is not queued can
  be added while the limit is not reached, and a queued one can be removed: no check fails. The
  queue then holds exactly the timers added and neither removed nor polled. \<open>Poll\<close> returns the
  timer that is due first, the one added first among equals, or none if none is due, as long as no
  \<open>Remove\<close> moved a timer below a later one.
\<close>

theorem timer_queue_correct:
  assumes "exec tq_step tq_init es = Some s" "tq_allowed e s"
  shows "\<exists>r s'. tq_apply e s = Some (r, s') \<and> set (queued s') = queued_after e r (set (queued s)) \<and>
    (\<forall>now. removals_safe es tq_init \<and> e = TQ_Poll now \<longrightarrow> earliest now s r)"
  using tq_exec_ok [OF tq_start(1) assms(1)] tq_start(2) tq_apply_ok [OF _ assms(2)] by blast

theorem timer_queue_correct_witness:
  "\<exists>s s'. exec tq_step tq_init [TQ_Add 1 7, TQ_Add 2 5, TQ_Add 3 5, TQ_Remove 1] = Some s \<and>
     tq_Poll 6 s = Some (Some 2, s') \<and> set (queued s') = {3} \<and> earliest 6 s (Some 2)"
proof -
  let ?es = "[TQ_Add 1 7, TQ_Add 2 5, TQ_Add 3 5, TQ_Remove 1]"
  have c: "case exec tq_step tq_init ?es of None \<Rightarrow> False
    | Some s \<Rightarrow> set (queued s) = {2, 3} \<and> (case tq_Poll 6 s of Some (Some t, s') \<Rightarrow> t = 2 | _ \<Rightarrow> False)"
    by code_simp
  have safe: "removals_safe ?es tq_init" by code_simp
  from c obtain s s' where s: "exec tq_step tq_init ?es = Some s" "set (queued s) = {2, 3}" "tq_Poll 6 s = Some (Some 2, s')"
    by (auto split: option.splits prod.splits)
  from timer_queue_correct [OF s(1), of "TQ_Poll 6"] safe s show ?thesis by auto
qed

end
