(* ===== verification/Spec2Isabelle.thy ===== *)
theory Spec2Isabelle
  imports Stamped_Ptr Thread_Sync Compute_Pool Fast_Pool_Tasks Lock_Free_Stack_Safety Lock_Free_Queue_Safety Shared_Ptr Future_Concur Channel Strand Coro_Safety Race_Detector Model_Check Timer_Queue
begin

text \<open>
  A verification of cppconcur, a C++ library of concurrency primitives (\<open>src/src/exe\<close>), and of the
  parts of its vendored test runtime twist (\<open>src/deps/twist\<close>) on which the checking of that library rests.

  \<^bold>\<open>The program and how its parts interact.\<close> The library has layers. Threads synchronize with spin
  locks, events, wait groups and a blocking queue (\<open>exe/thread\<close>). Schedulers run tasks: a run
  loop, an inline scheduler, a pool whose workers share one blocking queue, and a work-stealing pool
  (\<open>exe/sched\<close>). Fibers (\<open>exe/fiber\<close>), coroutines (\<open>exe/coro\<close>) and futures (\<open>exe/future\<close>, over
  \<open>exe/result\<close>) are built on tasks; queues of waiters and tasks are intrusive lists of wheels.
  Lock-free structures (\<open>exe/lf\<close>) stand beside them, over hazard pointers and stamped pointers
  (\<open>exe/util\<close>). Tests run the library in the simulator of twist, which picks interleavings with a
  scheduler, tracks the happens-before order with a memory model, and replays failing runs.

  \<^bold>\<open>How code becomes definitions.\<close> Classes are records, enums and variants are datatypes, each method
  is a definition with the name of the method, where HOL has no constant of that name. Sequential code is a
  function; a loop is a terminating \<open>function\<close>, or \<open>partial_function (option)\<close> where it may not end. A
  failed check, an abort or undefined behaviour is \<open>None\<close>, an error constructor, or an error flag
  of the state that the theorems show to stay false, or characterize; where behaviour is undefined the
  machine has no further step. Concurrent code is a machine: a step function
  \<open>event \<Rightarrow> state \<Rightarrow> state option\<close>, one step per atomic access or critical section, in which the event names the thread
  and every choice of the environment. \<open>exec\<close> runs events, \<open>reachable\<close> collects the states.
  Program counters are datatypes whose constructors carry the local variables. History
  variables, named in the introduction of each theory, record what was pushed, popped or run.

  \<^bold>\<open>Theories.\<close>
  \<^item> \<open>Prelude\<close>: machine words, \<open>exec\<close> and \<open>reachable\<close>, and the locale \<open>transition_invariant\<close>,
    which every machine interprets on its own step function, with its extension \<open>forward_simulation\<close>
    for a machine that implements an abstract one. \<open>Places\<close>: things that are in exactly one of
    several lists, used for fibers, coroutines and nodes.
  \<^item> \<open>Stamped_Ptr\<close> (\<open>util/stamped_ptr.hpp\<close>): packing round trip and \<open>FetchIncrement\<close>.
  \<^item> \<open>Forward_List\<close> (\<open>wheels/intrusive/forward_list.hpp\<close>): the linked list over a store of \<open>next_\<close>
    fields implements the locale \<open>fifo\<close>, as do the plain lists the other models use in its place.
  \<^item> \<open>Sched\<close> (\<open>sched/run_loop\<close>, \<open>sched/task\<close>, \<open>sched/inline\<close>): the run loop and function tasks.
  \<^item> \<open>Thread_Sync\<close> (\<open>thread/spinlock\<close>, \<open>event\<close>, \<open>wait_group\<close>): exclusion and wakeups.
    \<open>Blocking_Queue\<close> (\<open>thread/queue\<close>): FIFO order, no lost wakeup, refinement of a closable FIFO.
    \<open>Compute_Pool\<close> (\<open>sched/tp/compute\<close>): composed of the blocking queue's machine and its workers.
  \<^item> \<open>Work_Stealing_Queue\<close>, \<open>Fast_Pool\<close>, \<open>Fast_Pool_Parking\<close>, \<open>Fast_Pool_Tasks\<close> (\<open>sched/tp/fast\<close>): the ring
    buffer refines a bounded FIFO; the pool uses that FIFO. Parking strands no task, every task is
    in one place until it has run, stealing never overflows, and \<open>Stop\<close> can leave a task behind.
  \<^item> \<open>Hazard\<close>, \<open>Lock_Free_Stack\<close>, \<open>Lock_Free_Stack_Safety\<close> (\<open>lf/memory/hazard\<close>, \<open>lf/lock_free_stack\<close>):
    memory safety and linearizability of the Treiber stack although addresses are reused, and that the
    cleanup of one stack frees protected nodes of another.
  \<^item> \<open>Lock_Free_Queue\<close>, \<open>Lock_Free_Queue_Safety\<close> (\<open>lf/lock_free_queue\<close>): linearizability of the
    Michael-Scott queue with a node pool, and its destructors.
  \<^item> \<open>Shared_Ptr\<close> (\<open>lf/memory/atomic_shared_ptr\<close>): split reference counts, no use after free, no leak
    while stamps and counters keep to their ranges.
  \<^item> \<open>Result\<close>, \<open>Future_Seq\<close>, \<open>Future_Concur\<close> (\<open>exe/result\<close>, \<open>exe/future\<close>): thunks are functions of their
    consumer, with the tasks they submit explicit; monad laws, agreement with results, values
    and number of tasks of pipelines on a run loop; contract, \<open>Both\<close> and \<open>Start\<close> deliver once in every
    interleaving, \<open>First\<close> unless its loser frees the computation too early.
  \<^item> \<open>Fiber\<close>, \<open>Channel\<close>, \<open>Strand\<close> (\<open>exe/fiber\<close>): every fiber is in one place, mutexes exclude and hand over,
    channels are bounded FIFOs, critical sections of a strand run once and never overlap.
  \<^item> \<open>Coro\<close>, \<open>Coro_Safety\<close> (\<open>exe/coro\<close>): threads as stacks of coroutine and library frames; the same
    contract as for fibers until a waiter is cast to the wrong type, for programs that keep to the rules on
    \<open>Fire\<close>, \<open>Add\<close> and \<open>Done\<close> stated there, and a deadlock of inline handover.
  \<^item> \<open>Memory_Model\<close>, \<open>Happens_Before\<close>, \<open>Race_Detector\<close> (\<open>twist/rt/sim/system/sync\<close>): the vector clocks
    compute the happens-before order of the trace, and exactly the races are reported.
  \<^item> \<open>Dfs_Scheduler\<close>, \<open>Dfs_Explore\<close> (\<open>twist/rt/sim/scheduler/dfs\<close>): the scheduler, its decisions in
    lexicographic order, and what \<open>PickNext\<close> can decide. A simulation is a client of the scheduler,
    of a codatatype, so it may run forever. \<open>Replay_Scheduler\<close> (\<open>scheduler/replay\<close>): the locale
    \<open>scheduler_contract\<close>, interpreted on the DFS scheduler, and that replaying a recorded run reproduces
    it. \<open>Model_Check\<close> (\<open>twist/mod/sim/sim.cpp\<close>): \<open>Explore\<close> finds the first failure over all
    combinations of decisions and records it, for simulations whose runs all end; with a limit on steps
    they do, loops that wait included.
  \<^item> \<open>Timer_Queue\<close> (\<open>twist/rt/sim/system/timer\<close>): contents and order of the timer heap, and a run in
    which \<open>Remove\<close> breaks the order.

  \<^bold>\<open>Bounds.\<close> Counters of the work-stealing queue are 64-bit words and its theorems hold below \<open>2^64\<close>
  pushes. Stamps have 16 bits; \<open>sp_wrapped\<close> and \<open>lq_wrapped\<close> record that one wrapped, and the theorems on
  shared pointers and the lock-free queue hold until then. Epochs of the memory model have 32
  bits, and its theorem is about traces shorter than \<open>2^32\<close>. Reference counts
  are integers, and \<open>sp_overflow\<close> records that one left the range of \<open>int32_t\<close>. The counters of wait groups are 64-bit
  words: \<open>fr_overflown\<close> records an \<open>Add\<close> that wrapped for fibers, for threads and coroutines such an \<open>Add\<close> is
  excluded. Other counters (waiters, timer ids, sizes) are unbounded. Loads of \<open>wakeups_\<close> in the fast pool are taken modulo
  \<open>2^32\<close>. The fuel of \<open>pop_all\<close> is one more than the number of nodes, and the theorem shows that
  the result is not \<open>None\<close>. All machines are sequentially consistent, as the simulator is, and have
  any number of threads. Weak exchanges fail, and waits end, spuriously.

  \<^bold>\<open>Not modelled.\<close> Metrics and the coordinator of the fast pool (placeholders); \<open>Fiber::Switch\<close>, which has
  no caller; the machine contexts of sure, which the coroutines of fibers only call; exceptions, which abort; values
  that contain shared pointers; the bodies that only abort (\<open>RendezvousChannel\<close>); the empty
  \<open>coro/task/task.hpp\<close>; thread-local \<open>Current\<close> pointers. Of twist: the run loop of the simulator with
  its system calls, logging and isolated memory (machine contexts and raw memory), the random,
  PCT and cooperative schedulers (their decisions are random, so they promise no coverage), the backend on
  native threads, and the user-level wrappers; the rest of wheels; the test framework, tests,
  examples and build scripts.
\<close>

end
